(* ===== verification/Prelude.thy ===== *)
theory Prelude
  imports Main "HOL-Library.Word" "HOL-Library.Monad_Syntax"
begin

text \<open>
  Shared vocabulary of the development: the machine-integer types of the Rust
  sources, the collections of rewrite rules the component proofs use, and the
  generic facts on lists, masks and ring buffers that more than one component
  needs.

  Conventions.  A Rust panic (a failed assertion, an unwrap of None, an index out
  of range) is the value None of an option type.  A Rust Result is a sum: Inl
  carries the error, Inr the value.  The kernel is compiled without overflow
  checks, so arithmetic on sized integers wraps and is arithmetic on words;
  indices and lengths whose bound is an invariant of the data structure are
  natural numbers.
\<close>

unbundle bit_operations_syntax

type_synonym u8 = "8 word"
type_synonym u16 = "16 word"
type_synonym u32 = "32 word"
type_synonym u64 = "64 word"
type_synonym usize = "64 word"

named_theorems ring_simps
named_theorems mask_simps
named_theorems some_conv

section \<open>Masks\<close>

text \<open>
  The sources wrap ring indices with a bitwise and against a constant one below a
  power of two; on natural numbers this is the remainder.
\<close>

lemma nat_and_mask_mod: "(x::nat) AND (2 ^ k - 1) = x mod 2 ^ k"
  by (simp add: take_bit_eq_mod [symmetric] take_bit_eq_mask mask_eq_exp_minus_1)

lemma nat_and_255 [mask_simps]: "(x::nat) AND 255 = x mod 256"
  using nat_and_mask_mod [of x 8] by simp

lemma nat_and_63 [mask_simps]: "(x::nat) AND 63 = x mod 64"
  using nat_and_mask_mod [of x 6] by simp

lemma nat_and_31 [mask_simps]: "(x::nat) AND 31 = x mod 32"
  using nat_and_mask_mod [of x 5] by simp

lemma and_not_mask_plus: "(x AND NOT (mask n)) + (x AND mask n) = (x::'a::len word)"
  by (subst disjunctive_add) (auto simp: bit_simps intro!: bit_word_eqI)

lemma unat_and_mask: "unat (x AND mask n) = unat (x::'a::len word) mod 2 ^ n"
  by (simp only: take_bit_eq_mask [symmetric] unsigned_take_bit_eq) (simp add: take_bit_eq_mod)

lemma unat_and_not_mask: "unat (x AND NOT (mask n)) = unat (x::'a::len word) - unat x mod 2 ^ n"
proof -
  have "x AND NOT (mask n) = x - (x AND mask n)"
    using and_not_mask_plus [of x n] by (metis add_diff_cancel_right')
  moreover have "x AND mask n \<le> x" by (simp add: word_le_nat_alt unat_and_mask)
  ultimately show ?thesis by (simp add: unat_sub unat_and_mask)
qed

lemma unat_and_15: "unat ((x::u64) AND 0xF) = unat x mod 16"
  using unat_and_mask [of x 4] by (simp add: mask_eq_exp_minus_1)

lemma unat_and_not_15: "unat ((x::u64) AND NOT 0xF) = unat x - unat x mod 16"
  using unat_and_not_mask [of x 4] by (simp add: mask_eq_exp_minus_1)

lemma unat_and_4095: "unat ((x::u64) AND 0xFFF) = unat x mod 4096"
  using unat_and_mask [of x 12] by (simp add: mask_eq_exp_minus_1)

lemma unat_and_not_4095: "unat ((x::u64) AND NOT 0xFFF) = unat x - unat x mod 4096"
  using unat_and_not_mask [of x 12] by (simp add: mask_eq_exp_minus_1)

section \<open>Ring buffers\<close>

text \<open>
  The live part of a ring buffer: the n cells that start at index h and wrap at
  the end of the backing array.
\<close>

definition ring_slice :: "'a list \<Rightarrow> nat \<Rightarrow> nat \<Rightarrow> 'a list" where
  "ring_slice buf h n = map (\<lambda>i. buf ! ((h + i) mod length buf)) [0..<n]"

lemma length_ring_slice [simp]: "length (ring_slice buf h n) = n"
  by (simp add: ring_slice_def)

lemma ring_slice_0 [simp]: "ring_slice buf h 0 = []"
  by (simp add: ring_slice_def)

lemma ring_index_inj:
  fixes h i j n :: nat
  assumes "(h + i) mod n = (h + j) mod n" "i < n" "j < n"
  shows "i = j"
proof -
  from assms(1) have "(int h + int i) mod int n = (int h + int j) mod int n"
    by (metis of_nat_add zmod_int)
  then have "int i mod int n = int j mod int n"
    using mod_add_left_eq mod_diff_cong [of "int h + int i" "int n" "int h + int j" "int h" "int h"]
    by simp
  then show ?thesis using assms(2,3) by simp
qed

lemma ring_slice_push [ring_simps]:
  assumes "n < length buf"
  shows "ring_slice (buf[(h + n) mod length buf := x]) h (Suc n) = ring_slice buf h n @ [x]"
proof -
  have "buf[(h + n) mod length buf := x] ! ((h + i) mod length buf) = buf ! ((h + i) mod length buf)"
    if "i < n" for i
    using that assms ring_index_inj [of h i "length buf" n] by (metis less_irrefl less_trans nth_list_update_neq)
  moreover have "(h + n) mod length buf < length buf"
    using assms by (metis mod_less_divisor not_less_zero neq0_conv)
  ultimately show ?thesis by (simp add: ring_slice_def)
qed

lemma ring_slice_pop [ring_simps]:
  assumes "0 < n" "h < length buf"
  shows "ring_slice buf h n = buf ! h # ring_slice buf ((h + 1) mod length buf) (n - 1)"
proof -
  have "[0..<n] = 0 # map Suc [0..<n - 1]"
    using assms(1) by (metis Suc_pred' map_Suc_upt upt_conv_Cons)
  then show ?thesis
    using assms(2) by (simp add: ring_slice_def mod_add_left_eq o_def)
qed

lemma ring_slice_vacate [ring_simps]:
  assumes "0 < n" "n \<le> length buf" "h < length buf"
  shows "ring_slice (buf[h := y]) ((h + 1) mod length buf) (n - 1)
         = ring_slice buf ((h + 1) mod length buf) (n - 1)"
proof -
  have "h \<noteq> (h + Suc i) mod length buf" if "i < n - 1" for i
  proof
    assume "h = (h + Suc i) mod length buf"
    then have "(h + Suc i) mod length buf = (h + 0) mod length buf"
      using assms(3) by simp
    then have "Suc i = 0"
      by (rule ring_index_inj) (use that assms in auto)
    then show False by simp
  qed
  then show ?thesis by (auto simp: ring_slice_def mod_simps)
qed

text \<open>
  The index discipline every ring of the kernel keeps: a backing array of
  capacity N, a head in range, at most N live cells and a tail one past them.
\<close>

definition ring_ok :: "nat \<Rightarrow> 'a list \<Rightarrow> nat \<Rightarrow> nat \<Rightarrow> nat \<Rightarrow> bool" where
  "ring_ok N buf h t n \<longleftrightarrow> length buf = N \<and> h < N \<and> n \<le> N \<and> t = (h + n) mod N"

lemma ring_ok_range: "ring_ok N buf h t n \<Longrightarrow> t < length buf \<and> h < length buf"
  by (auto simp: ring_ok_def)

lemma ring_ok_push:
  "ring_ok N buf h t n \<Longrightarrow> n < N \<Longrightarrow> ring_ok N (buf[t := x]) h ((t + 1) mod N) (n + 1)"
  by (auto simp: ring_ok_def mod_simps)

lemma ring_ok_pop:
  assumes "ring_ok N buf h t n" "0 < n" "length buf' = length buf"
  shows "ring_ok N buf' ((h + 1) mod N) t (n - 1)"
proof -
  obtain m where "n = Suc m" using assms(2) by (cases n) auto
  then show ?thesis using assms by (auto simp: ring_ok_def mod_simps)
qed

text \<open>Rings of optional cells: the live cells are occupied and read as values.\<close>

definition opt_ring_ok :: "nat \<Rightarrow> 'a option list \<Rightarrow> nat \<Rightarrow> nat \<Rightarrow> nat \<Rightarrow> bool" where
  "opt_ring_ok N buf h t n \<longleftrightarrow> ring_ok N buf h t n \<and> None \<notin> set (ring_slice buf h n)"

lemma opt_ring_push:
  assumes "opt_ring_ok N buf h t n" "n < N"
  shows "opt_ring_ok N (buf[t := Some x]) h ((t + 1) mod N) (n + 1)"
    and "map the (ring_slice (buf[t := Some x]) h (n + 1)) = map the (ring_slice buf h n) @ [x]"
  using assms ring_ok_push [of N buf h t n "Some x"] ring_slice_push [of n buf h "Some x"]
  by (auto simp: opt_ring_ok_def ring_ok_def)

lemma opt_ring_pop:
  assumes "opt_ring_ok N buf h t n" "map the (ring_slice buf h n) = x # xs"
  shows "0 < n" "h < length buf" "buf ! h = Some x"
    and "opt_ring_ok N (buf[h := None]) ((h + 1) mod N) t (n - 1)"
    and "map the (ring_slice (buf[h := None]) ((h + 1) mod N) (n - 1)) = xs"
proof -
  show n: "0 < n" using assms(2) by (cases n) auto
  show h: "h < length buf" using assms(1) by (simp add: opt_ring_ok_def ring_ok_def)
  have N: "length buf = N" "n \<le> N" using assms(1) by (auto simp: opt_ring_ok_def ring_ok_def)
  have sl: "ring_slice buf h n = buf ! h # ring_slice buf ((h + 1) mod N) (n - 1)"
    using ring_slice_pop [OF n h] N by simp
  then have "buf ! h \<noteq> None" "None \<notin> set (ring_slice buf ((h + 1) mod N) (n - 1))"
    using assms(1) unfolding opt_ring_ok_def sl by (metis list.set_intros)+
  moreover show "buf ! h = Some x" using calculation(1) assms(2) sl by auto
  moreover have "ring_slice (buf[h := None]) ((h + 1) mod N) (n - 1) = ring_slice buf ((h + 1) mod N) (n - 1)"
    using ring_slice_vacate [OF n _ h] N by simp
  ultimately show "opt_ring_ok N (buf[h := None]) ((h + 1) mod N) t (n - 1)"
    and "map the (ring_slice (buf[h := None]) ((h + 1) mod N) (n - 1)) = xs"
    using ring_ok_pop [of N buf h t n "buf[h := None]"] assms n sl
    by (auto simp: opt_ring_ok_def)
qed

section \<open>Arrays\<close>

text \<open>
  A Rust array access out of range panics; \<^term>\<open>None\<close> stands for the
  panic throughout the development.
\<close>

definition idx :: "'a list \<Rightarrow> nat \<Rightarrow> 'a option" where
  "idx xs i = (if i < length xs then Some (xs ! i) else None)"

definition upd :: "'a list \<Rightarrow> nat \<Rightarrow> 'a \<Rightarrow> 'a list option" where
  "upd xs i v = (if i < length xs then Some (xs[i := v]) else None)"

lemma idx_in [simp]: "i < length xs \<Longrightarrow> idx xs i = Some (xs ! i)"
  by (simp add: idx_def)

lemma upd_in [simp]: "i < length xs \<Longrightarrow> upd xs i v = Some (xs[i := v])"
  by (simp add: upd_def)

lemma idx_Some_iff: "idx xs i = Some v \<longleftrightarrow> i < length xs \<and> v = xs ! i"
  by (auto simp: idx_def)

lemma idx_None_iff: "idx xs i = None \<longleftrightarrow> length xs \<le> i"
  by (auto simp: idx_def)

lemma upd_Some_iff: "upd xs i v = Some ys \<longleftrightarrow> i < length xs \<and> ys = xs[i := v]"
  by (auto simp: upd_def)

text \<open>Inversion of a computation that did not panic, one rule per construct.\<close>

lemma bind_Some_conv [some_conv]: "Option.bind x f = Some y \<longleftrightarrow> (\<exists>a. x = Some a \<and> f a = Some y)"
  by (cases x) auto

lemma case_option_Some_conv [some_conv]:
  "(case x of None \<Rightarrow> f | Some a \<Rightarrow> g a) = Some y \<longleftrightarrow> (x = None \<and> f = Some y) \<or> (\<exists>a. x = Some a \<and> g a = Some y)"
  by (cases x) auto

lemma case_sum_Some_conv [some_conv]:
  "(case x of Inl a \<Rightarrow> f a | Inr b \<Rightarrow> g b) = Some y \<longleftrightarrow>
     (\<exists>a. x = Inl a \<and> f a = Some y) \<or> (\<exists>b. x = Inr b \<and> g b = Some y)"
  by (cases x) auto

lemma case_prod_Some_conv [some_conv]:
  "(case x of (a, b) \<Rightarrow> f a b) = Some y \<longleftrightarrow> (\<exists>a b. x = (a, b) \<and> f a b = Some y)"
  by (cases x) auto

lemma if_Some_conv [some_conv]: "(if b then s else t) = Some y \<longleftrightarrow> (b \<and> s = Some y) \<or> (\<not> b \<and> t = Some y)"
  by auto

section \<open>Serial output\<close>

text \<open>What the kernel prints on the serial port is a list of messages; nl ends a line.\<close>

definition nl :: string where
  "nl = [CHR 0x0A]"

end
