(* ===== verification/Cells.thy ===== *)
theory Cells
  imports Prelude
begin

text \<open>
  The contract of a store of mutable cells that are reached by a key and may be
  absent: a cell that can be read can be written, a write is read back, and no
  other cell changes.  The per-CPU storage and the task table both promise it.
\<close>

locale cell_store =
  fixes get :: "'s \<Rightarrow> 'k \<Rightarrow> 'v option"
    and put :: "'s \<Rightarrow> 'k \<Rightarrow> 'v \<Rightarrow> 's option"
  assumes put_present: "get s k = Some v \<Longrightarrow> \<exists>s'. put s k w = Some s'"
    and put_SomeD: "put s k w = Some s' \<Longrightarrow> get s k \<noteq> None"
    and get_put_same: "put s k w = Some s' \<Longrightarrow> get s' k = Some w"
    and get_put_other: "put s k w = Some s' \<Longrightarrow> k' \<noteq> k \<Longrightarrow> get s' k' = get s k'"
begin

lemma put_None_iff: "put s k w = None \<longleftrightarrow> get s k = None"
  by (metis not_None_eq put_SomeD put_present)

lemma get_put: "put s k w = Some s' \<Longrightarrow> get s' k' = (if k' = k then Some w else get s k')"
  using get_put_same get_put_other by simp

text \<open>Read, change and write back.\<close>

definition modify :: "'s \<Rightarrow> 'k \<Rightarrow> ('v \<Rightarrow> 'v) \<Rightarrow> 's option" where
  "modify s k f = (case get s k of None \<Rightarrow> None | Some v \<Rightarrow> put s k (f v))"

lemma modify_present: "get s k = Some v \<Longrightarrow> \<exists>s'. modify s k f = Some s'"
  using put_present by (simp add: modify_def)

lemma get_modify:
  "modify s k f = Some s' \<Longrightarrow> get s' k' = (if k' = k then map_option f (get s k) else get s k')"
  by (auto simp: modify_def get_put_same get_put_other split: option.splits)

lemma same_cells_put: "put s k w = Some s' \<Longrightarrow> (get s' k' = None) = (get s k' = None)"
  using get_put [of s k w s' k'] put_SomeD [of s k w s'] by auto

end

end
