(* ===== verification/Per_Cpu.thy ===== *)
theory Per_Cpu
  imports Cells
begin

text \<open>
  Per-CPU storage and the CPU topology (processor\_control/per\_cpu.rs,
  processor\_control/topology.rs).  A PerCpu value is an array of slots, one per
  logical CPU, each guarded by a flag that says whether the slot was initialised;
  every access checks the index and the flag and panics otherwise.  A CPU is named
  by its APIC identifier.
\<close>

definition MAX_CPUS :: nat where
  "MAX_CPUS = 64"

type_synonym CpuId = u32

record 'a PerCpu =
  pc_slots :: "'a option list"
  pc_initialized :: "bool list"

definition PerCpu_new :: "'a PerCpu" where
  "PerCpu_new = \<lparr>pc_slots = replicate MAX_CPUS None, pc_initialized = replicate MAX_CPUS False\<rparr>"

definition PerCpu_init :: "'a PerCpu \<Rightarrow> CpuId \<Rightarrow> 'a \<Rightarrow> 'a PerCpu option" where
  "PerCpu_init p cpu v = (let index = unat cpu in
     if \<not> index < MAX_CPUS then None
     else do {
       already \<leftarrow> idx (pc_initialized p) index;
       if already then None
       else do {
         slots \<leftarrow> upd (pc_slots p) index (Some v);
         flags \<leftarrow> upd (pc_initialized p) index True;
         Some \<lparr>pc_slots = slots, pc_initialized = flags\<rparr>
       }
     })"

text \<open>
  Reading a slot.  A slot whose flag is set but whose cell was never written
  would be undefined behaviour; the model treats it as a panic and the
  invariant below excludes it.
\<close>

definition PerCpu_get :: "'a PerCpu \<Rightarrow> CpuId \<Rightarrow> 'a option" where
  "PerCpu_get p cpu = (let index = unat cpu in
     if \<not> index < MAX_CPUS then None
     else do {
       ready \<leftarrow> idx (pc_initialized p) index;
       if \<not> ready then None
       else do { slot \<leftarrow> idx (pc_slots p) index; slot }
     })"

text \<open>A store through the mutable reference \<^verbatim>\<open>get_mut\<close> returns.\<close>

definition PerCpu_set :: "'a PerCpu \<Rightarrow> CpuId \<Rightarrow> 'a \<Rightarrow> 'a PerCpu option" where
  "PerCpu_set p cpu v = do {
     _ \<leftarrow> PerCpu_get p cpu;
     slots \<leftarrow> upd (pc_slots p) (unat cpu) (Some v);
     Some (p\<lparr>pc_slots := slots\<rparr>)
   }"

definition PerCpu_is_initialized :: "'a PerCpu \<Rightarrow> CpuId \<Rightarrow> bool option" where
  "PerCpu_is_initialized p cpu = (let index = unat cpu in
     if MAX_CPUS \<le> index then Some False else idx (pc_initialized p) index)"

definition per_cpu_ok :: "'a PerCpu \<Rightarrow> bool" where
  "per_cpu_ok p \<longleftrightarrow> length (pc_slots p) = MAX_CPUS \<and> length (pc_initialized p) = MAX_CPUS \<and>
     (\<forall>i < MAX_CPUS. pc_initialized p ! i \<longleftrightarrow> pc_slots p ! i \<noteq> None)"

lemma per_cpu_ok_new [simp]: "per_cpu_ok PerCpu_new"
  by (simp add: per_cpu_ok_def PerCpu_new_def)

lemma PerCpu_get_ok:
  "per_cpu_ok p \<Longrightarrow> PerCpu_get p cpu = (if unat cpu < MAX_CPUS then pc_slots p ! unat cpu else None)"
  by (cases "pc_slots p ! unat cpu") (simp_all add: per_cpu_ok_def PerCpu_get_def Let_def)

lemma PerCpu_get_Some_iff:
  "PerCpu_get p cpu = Some v \<longleftrightarrow> unat cpu < MAX_CPUS \<and> unat cpu < length (pc_initialized p) \<and>
     unat cpu < length (pc_slots p) \<and> pc_initialized p ! unat cpu \<and> pc_slots p ! unat cpu = Some v"
  by (auto simp: PerCpu_get_def Let_def bind_eq_Some_conv idx_Some_iff)

lemma PerCpu_set_Some_iff:
  "PerCpu_set p cpu v = Some p' \<longleftrightarrow> PerCpu_get p cpu \<noteq> None \<and>
     p' = p\<lparr>pc_slots := (pc_slots p)[unat cpu := Some v]\<rparr>"
  by (auto simp: PerCpu_set_def bind_eq_Some_conv upd_Some_iff PerCpu_get_Some_iff)

interpretation per_cpu_cells: cell_store PerCpu_get PerCpu_set
proof unfold_locales
  fix p p' :: "'a PerCpu" and k k' v w
  show "\<exists>p'. PerCpu_set p k w = Some p'" if "PerCpu_get p k = Some v"
    using that by (simp add: PerCpu_set_Some_iff)
  assume set: "PerCpu_set p k w = Some p'"
  then show "PerCpu_get p k \<noteq> None" by (simp add: PerCpu_set_Some_iff)
  show "PerCpu_get p' k = Some w"
    using set by (simp add: PerCpu_set_Some_iff PerCpu_get_Some_iff)
  show "PerCpu_get p' k' = PerCpu_get p k'" if "k' \<noteq> k"
  proof -
    have "unat k' \<noteq> unat k" using that by (simp only: word_unat_eq_iff not_False_eq_True)
    then show ?thesis using set
      by (simp add: PerCpu_set_Some_iff PerCpu_get_def Let_def idx_def)
  qed
qed

text \<open>
  Initialisation makes exactly the new slot readable; a second initialisation of a
  slot and an access before initialisation both panic.
\<close>

lemma PerCpu_init_ok:
  assumes "per_cpu_ok p" "unat cpu < MAX_CPUS" "PerCpu_get p cpu = None"
  shows "\<exists>p'. PerCpu_init p cpu v = Some p' \<and> per_cpu_ok p' \<and> PerCpu_get p' cpu = Some v \<and>
           (\<forall>c. c \<noteq> cpu \<longrightarrow> PerCpu_get p' c = PerCpu_get p c)"
proof -
  have fl: "\<not> pc_initialized p ! unat cpu"
    using assms PerCpu_get_ok [OF assms(1), of cpu] by (simp add: per_cpu_ok_def)
  let ?p = "\<lparr>pc_slots = (pc_slots p)[unat cpu := Some v], pc_initialized = (pc_initialized p)[unat cpu := True]\<rparr>"
  have "PerCpu_init p cpu v = Some ?p"
    using assms(1,2) fl by (simp add: PerCpu_init_def per_cpu_ok_def Let_def)
  moreover have "per_cpu_ok ?p"
    using assms(1,2) fl by (simp add: per_cpu_ok_def nth_list_update)
  moreover have "PerCpu_get ?p cpu = Some v"
    using assms by (simp add: PerCpu_get_Some_iff per_cpu_ok_def)
  moreover have "PerCpu_get ?p c = PerCpu_get p c" if "c \<noteq> cpu" for c
  proof -
    have "unat c \<noteq> unat cpu" using that by (simp only: word_unat_eq_iff not_False_eq_True)
    then show ?thesis by (simp add: PerCpu_get_def Let_def idx_def)
  qed
  ultimately show ?thesis by blast
qed

lemma PerCpu_init_twice: "PerCpu_get p cpu = Some v \<Longrightarrow> PerCpu_init p cpu w = None"
  by (auto simp: PerCpu_init_def PerCpu_get_Some_iff Let_def)

lemma PerCpu_get_new [simp]: "PerCpu_get PerCpu_new cpu = None"
  by (auto simp: PerCpu_get_def PerCpu_new_def Let_def idx_def)

end
