(* ===== verification/Task_Types.thy ===== *)
theory Task_Types
  imports Prelude
begin

text \<open>
  The data the scheduler and the process manager share: task identifiers, task
  and thread lifecycle states, and the task and thread control blocks
  (task\_scheduler/task.rs, process\_manager/thread.rs).

  A \<^verbatim>\<open>Weak<IrqSpinLock<Thread>>\<close> is the key of a thread in a thread store; upgrading
  it is a lookup, and a dangling reference is a failed lookup.  The stack a task
  owns is recorded as the base address and the size of its allocation; the bytes
  are in the memory of the machine.
\<close>

record TaskId =
  slot_index :: usize
  slot_generation :: u8

definition TaskId_IDLE :: TaskId where
  "TaskId_IDLE = \<lparr>slot_index = 0, slot_generation = 0\<rparr>"

definition TaskId_PENDING :: TaskId where
  "TaskId_PENDING = \<lparr>slot_index = - 1, slot_generation = 0\<rparr>"

datatype TaskState = Ready | Running | Blocked | Dying | Dead

datatype ThreadState = ThActive | ThWaiting | ThDying | ThDead

type_synonym ThreadRef = nat
type_synonym ProcessRef = nat

record Task =
  t_id :: TaskId
  t_state :: TaskState
  t_saved_rsp :: u64
  t_kernel_stack_top :: u64
  t_is_user_task :: bool
  t_cr3 :: u64
  t_ticks_remaining :: u32
  t_ticks_executed :: u64
  t_thread :: ThreadRef
  t_stack_base :: u64
  t_stack_size :: usize

record Thread =
  th_id :: u64
  th_task_id :: "TaskId option"
  th_name :: string
  th_state :: ThreadState
  th_process :: ProcessRef

type_synonym ThreadStore = "ThreadRef \<rightharpoonup> Thread"

text \<open>The number of timer ticks a task runs before it is preempted (globals.rs).\<close>

definition TASK_QUANTUM_TICKS :: u32 where
  "TASK_QUANTUM_TICKS = 4"

datatype SchedulerError = QueueFull | TaskTableFull | UnknownTask

lemma IDLE_simps [simp]: "slot_index TaskId_IDLE = 0" "slot_generation TaskId_IDLE = 0"
  by (simp_all add: TaskId_IDLE_def)

lemma PENDING_not_IDLE [simp]: "TaskId_PENDING \<noteq> TaskId_IDLE"
  by (simp add: TaskId_PENDING_def TaskId_IDLE_def)

text \<open>
  The state word a thread mirrors: setting the state of the thread behind a weak
  reference, \<^term>\<open>None\<close> when the reference dangles and the unwrap panics.
\<close>

definition set_thread_state :: "ThreadStore \<Rightarrow> ThreadRef \<Rightarrow> ThreadState \<Rightarrow> ThreadStore option" where
  "set_thread_state ths r s = (case ths r of None \<Rightarrow> None | Some th \<Rightarrow> Some (ths(r \<mapsto> th\<lparr>th_state := s\<rparr>)))"

lemma set_thread_state_dom: "set_thread_state ths r s = Some ths' \<Longrightarrow> dom ths' = dom ths"
  by (auto simp: set_thread_state_def split: option.splits if_splits)

lemma set_thread_state_Some: "r \<in> dom ths \<Longrightarrow> \<exists>ths'. set_thread_state ths r s = Some ths'"
  by (auto simp: set_thread_state_def split: option.splits)

end
