(* ===== verification/Fifo.thy ===== *)
theory Fifo
  imports Prelude
begin

text \<open>
  The contract shared by the kernel's fixed-capacity queues (the per-CPU ready
  queue, the reaper and tombstone queues, the system task queue): a push either
  appends at the back or, exactly when the queue is full, fails and changes
  nothing; a pop removes the oldest entry and fails exactly on the empty queue.
  The outer \<^typ>\<open>'a option\<close> is the panic of an out-of-range array index, which the
  contract excludes.
  Clients rest on the lemmas below, proved once from the contract.
\<close>

locale bounded_fifo =
  fixes capacity :: nat
    and invar :: "'q \<Rightarrow> bool"
    and contents :: "'q \<Rightarrow> 'a list"
    and push :: "'q \<Rightarrow> 'a \<Rightarrow> ('e + 'q) option"
    and pop :: "'q \<Rightarrow> ('a option \<times> 'q) option"
  assumes contents_bound: "invar q \<Longrightarrow> length (contents q) \<le> capacity"
    and push_ok: "invar q \<Longrightarrow> length (contents q) < capacity \<Longrightarrow>
          \<exists>q'. push q x = Some (Inr q') \<and> invar q' \<and> contents q' = contents q @ [x]"
    and push_full: "invar q \<Longrightarrow> length (contents q) = capacity \<Longrightarrow> \<exists>e. push q x = Some (Inl e)"
    and pop_empty: "invar q \<Longrightarrow> contents q = [] \<Longrightarrow> pop q = Some (None, q)"
    and pop_cons: "invar q \<Longrightarrow> contents q = x # xs \<Longrightarrow>
          \<exists>q'. pop q = Some (Some x, q') \<and> invar q' \<and> contents q' = xs"
begin

lemma push_cases:
  assumes "invar q"
  obtains (ok) q' where "push q x = Some (Inr q')" "invar q'" "contents q' = contents q @ [x]"
      "length (contents q) < capacity"
    | (full) e where "push q x = Some (Inl e)" "length (contents q) = capacity"
proof (cases "length (contents q) = capacity")
  case True
  then obtain e where "push q x = Some (Inl e)" using push_full [OF assms] by blast
  then show thesis using full True by blast
next
  case False
  then have lt: "length (contents q) < capacity" using contents_bound [OF assms] by simp
  then obtain q' where "push q x = Some (Inr q')" "invar q'" "contents q' = contents q @ [x]"
    using push_ok [OF assms] by blast
  then show thesis using ok lt by blast
qed

lemma push_InrD:
  "invar q \<Longrightarrow> push q x = Some (Inr q') \<Longrightarrow> invar q' \<and> contents q' = contents q @ [x]"
  by (cases rule: push_cases [of q x]) auto

lemma push_Inl_iff:
  "invar q \<Longrightarrow> (\<exists>e. push q x = Some (Inl e)) \<longleftrightarrow> length (contents q) = capacity"
  by (cases rule: push_cases [of q x]) auto

lemma pop_SomeD:
  "invar q \<Longrightarrow> pop q = Some (Some x, q') \<Longrightarrow> invar q' \<and> contents q = x # contents q'"
  using pop_empty [of q] pop_cons [of q] by (cases "contents q") fastforce+

lemma pop_NoneD: "invar q \<Longrightarrow> pop q = Some (None, q') \<Longrightarrow> contents q = [] \<and> q' = q"
  using pop_empty [of q] pop_cons [of q] by (cases "contents q") fastforce+

lemma pop_total: "invar q \<Longrightarrow> \<exists>r q'. pop q = Some (r, q') \<and> invar q'"
  using pop_empty [of q] pop_cons [of q] by (cases "contents q") fastforce+

lemma push_total: "invar q \<Longrightarrow> \<exists>r. push q x = Some r"
  by (cases rule: push_cases [of q x]) auto

text \<open>Pushing a batch that fits succeeds and appends the batch in order.\<close>

fun push_all :: "'q \<Rightarrow> 'a list \<Rightarrow> ('e + 'q) option" where
  "push_all q [] = Some (Inr q)"
| "push_all q (x # xs) = (case push q x of None \<Rightarrow> None | Some (Inl e) \<Rightarrow> Some (Inl e)
     | Some (Inr q') \<Rightarrow> push_all q' xs)"

lemma push_all_ok:
  assumes "invar q" "length (contents q) + length xs \<le> capacity"
  shows "\<exists>q'. push_all q xs = Some (Inr q') \<and> invar q' \<and> contents q' = contents q @ xs"
  using assms
proof (induction xs arbitrary: q)
  case Nil
  then show ?case by simp
next
  case (Cons x xs)
  then obtain q1 where "push q x = Some (Inr q1)" "invar q1" "contents q1 = contents q @ [x]"
    using push_ok [of q x] by auto
  then show ?case using Cons.IH [of q1] Cons.prems by simp
qed

text \<open>Popping until the queue reports empty yields the contents, oldest first.\<close>

fun pop_n :: "nat \<Rightarrow> 'q \<Rightarrow> ('a list \<times> 'q) option" where
  "pop_n 0 q = Some ([], q)"
| "pop_n (Suc n) q = (case pop q of None \<Rightarrow> None | Some (None, q') \<Rightarrow> Some ([], q')
     | Some (Some x, q') \<Rightarrow>
         (case pop_n n q' of None \<Rightarrow> None | Some (xs, q'') \<Rightarrow> Some (x # xs, q'')))"

lemma pop_n_drains:
  assumes "invar q" "length (contents q) \<le> n"
  shows "\<exists>q'. pop_n n q = Some (contents q, q') \<and> invar q' \<and> contents q' = []"
  using assms
proof (induction n arbitrary: q)
  case 0
  then show ?case by simp
next
  case (Suc n)
  show ?case
  proof (cases "contents q")
    case Nil
    then show ?thesis using pop_empty [OF Suc.prems(1)] Suc.prems(1) by simp
  next
    case (Cons x xs)
    then obtain q1 where "pop q = Some (Some x, q1)" "invar q1" "contents q1 = xs"
      using pop_cons [OF Suc.prems(1)] by blast
    then show ?thesis using Suc.IH [of q1] Suc.prems Cons by auto
  qed
qed

text \<open>Draining a batch pushed onto an empty queue returns it in order.\<close>

lemma push_all_pop_n:
  assumes "invar q" "contents q = []" "length xs \<le> capacity" "push_all q xs = Some (Inr q')"
  shows "\<exists>q''. pop_n (length xs) q' = Some (xs, q'') \<and> contents q'' = []"
  using push_all_ok [of q xs] pop_n_drains [of q' "length xs"] assms by auto

end

end
