(* ===== verification/Ready_Queue.thy ===== *)
theory Ready_Queue
  imports Task_Types Fifo
begin

text \<open>
  The per-CPU ready queue (task\_scheduler/scheduler.rs, PerCpuQueue): a ring buffer
  of 256 task identifiers whose indices wrap with a mask.  The interpretation at
  the end shows that the ring implements the bounded FIFO contract.
\<close>

definition QUEUE_SIZE :: nat where
  "QUEUE_SIZE = 256"

definition QUEUE_MASK :: nat where
  "QUEUE_MASK = QUEUE_SIZE - 1"

record PerCpuQueue =
  pcq_queue :: "TaskId list"
  pcq_head :: nat
  pcq_tail :: nat
  pcq_queue_len :: nat

definition PerCpuQueue_new :: PerCpuQueue where
  "PerCpuQueue_new =
     \<lparr>pcq_queue = replicate QUEUE_SIZE TaskId_IDLE, pcq_head = 0, pcq_tail = 0, pcq_queue_len = 0\<rparr>"

definition PerCpuQueue_push :: "PerCpuQueue \<Rightarrow> TaskId \<Rightarrow> (SchedulerError + PerCpuQueue) option" where
  "PerCpuQueue_push q task_id =
     (if pcq_queue_len q = QUEUE_SIZE then Some (Inl QueueFull)
      else do {
        buf \<leftarrow> upd (pcq_queue q) (pcq_tail q) task_id;
        Some (Inr (q\<lparr>pcq_queue := buf,
                     pcq_tail := (pcq_tail q + 1) AND QUEUE_MASK,
                     pcq_queue_len := pcq_queue_len q + 1\<rparr>))
      })"

definition PerCpuQueue_pop :: "PerCpuQueue \<Rightarrow> (TaskId option \<times> PerCpuQueue) option" where
  "PerCpuQueue_pop q =
     (if pcq_queue_len q = 0 then Some (None, q)
      else do {
        task_id \<leftarrow> idx (pcq_queue q) (pcq_head q);
        Some (Some task_id,
              q\<lparr>pcq_head := (pcq_head q + 1) AND QUEUE_MASK,
                pcq_queue_len := pcq_queue_len q - 1\<rparr>)
      })"

section \<open>Invariant and abstraction\<close>

definition pcq_invar :: "PerCpuQueue \<Rightarrow> bool" where
  "pcq_invar q \<longleftrightarrow> ring_ok QUEUE_SIZE (pcq_queue q) (pcq_head q) (pcq_tail q) (pcq_queue_len q)"

definition pcq_contents :: "PerCpuQueue \<Rightarrow> TaskId list" where
  "pcq_contents q = ring_slice (pcq_queue q) (pcq_head q) (pcq_queue_len q)"

lemma and_QUEUE_MASK [mask_simps]: "n AND QUEUE_MASK = n mod QUEUE_SIZE"
  by (simp add: QUEUE_MASK_def QUEUE_SIZE_def nat_and_255)

lemma length_pcq_contents [simp]: "length (pcq_contents q) = pcq_queue_len q"
  by (simp add: pcq_contents_def)

lemma pcq_new [simp]: "pcq_invar PerCpuQueue_new" "pcq_contents PerCpuQueue_new = []"
  by (simp_all add: PerCpuQueue_new_def pcq_invar_def pcq_contents_def ring_ok_def QUEUE_SIZE_def)

lemma pcq_push_ok:
  assumes "pcq_invar q" "length (pcq_contents q) < QUEUE_SIZE"
  shows "\<exists>q'. PerCpuQueue_push q x = Some (Inr q') \<and> pcq_invar q' \<and> pcq_contents q' = pcq_contents q @ [x]"
proof -
  have ok: "ring_ok QUEUE_SIZE (pcq_queue q) (pcq_head q) (pcq_tail q) (pcq_queue_len q)"
    using assms(1) by (simp add: pcq_invar_def)
  have "ring_slice ((pcq_queue q)[pcq_tail q := x]) (pcq_head q) (pcq_queue_len q + 1)
        = pcq_contents q @ [x]"
    using ok assms(2) ring_slice_push [of "pcq_queue_len q" "pcq_queue q" "pcq_head q" x]
    by (simp add: ring_ok_def pcq_contents_def)
  then show ?thesis
    using assms(2) ring_ok_range [OF ok] ring_ok_push [OF ok, of x]
    by (simp add: PerCpuQueue_push_def pcq_invar_def pcq_contents_def mask_simps)
qed

lemma pcq_pop_cons:
  assumes "pcq_invar q" "pcq_contents q = x # xs"
  shows "\<exists>q'. PerCpuQueue_pop q = Some (Some x, q') \<and> pcq_invar q' \<and> pcq_contents q' = xs"
proof -
  have ok: "ring_ok QUEUE_SIZE (pcq_queue q) (pcq_head q) (pcq_tail q) (pcq_queue_len q)"
    using assms(1) by (simp add: pcq_invar_def)
  have n: "0 < pcq_queue_len q" using assms(2) by (metis length_pcq_contents length_greater_0_conv list.discI)
  show ?thesis
    using assms(2) n ring_ok_range [OF ok] ring_ok_pop [OF ok n, of "pcq_queue q"]
      ring_slice_pop [OF n, of "pcq_head q" "pcq_queue q"] ok
    by (simp add: PerCpuQueue_pop_def pcq_invar_def pcq_contents_def mask_simps ring_ok_def)
qed

interpretation ready_fifo:
  bounded_fifo QUEUE_SIZE pcq_invar pcq_contents PerCpuQueue_push PerCpuQueue_pop
proof unfold_locales
  show "length (pcq_contents q) \<le> QUEUE_SIZE" if "pcq_invar q" for q
    using that by (simp add: pcq_invar_def ring_ok_def)
  show "\<exists>e. PerCpuQueue_push q x = Some (Inl e)"
    if "pcq_invar q" "length (pcq_contents q) = QUEUE_SIZE" for q x
    using that by (simp add: PerCpuQueue_push_def)
  show "PerCpuQueue_pop q = Some (None, q)" if "pcq_invar q" "pcq_contents q = []" for q
    using that by (metis PerCpuQueue_pop_def length_pcq_contents list.size(3))
qed (simp_all add: pcq_push_ok pcq_pop_cons del: length_pcq_contents)

end
