(* ===== verification/Reaper_Queues.thy ===== *)
theory Reaper_Queues
  imports Task_Types Fifo
begin

text \<open>
  The two queues of the task death pipeline (task\_scheduler/reaper.rs): the reaper
  queue holds the tasks that are dying, the tombstone queue the tasks that are
  dead and whose stacks are to be freed on the next timer tick.  Both are rings
  of 64 optional task identifiers and implement the bounded FIFO contract.
\<close>

definition REAPER_QUEUE_SIZE :: nat where
  "REAPER_QUEUE_SIZE = 64"

definition REAPER_QUEUE_MASK :: nat where
  "REAPER_QUEUE_MASK = REAPER_QUEUE_SIZE - 1"

definition TOMBSTONE_QUEUE_SIZE :: nat where
  "TOMBSTONE_QUEUE_SIZE = 64"

definition TOMBSTONE_QUEUE_MASK :: nat where
  "TOMBSTONE_QUEUE_MASK = TOMBSTONE_QUEUE_SIZE - 1"

datatype ReaperError = ReaperQueueFull | TombstoneQueueFull | ReaperUnknownTask

record ReaperQueue =
  rpq_queue :: "TaskId option list"
  rpq_head :: nat
  rpq_tail :: nat
  rpq_queue_len :: nat

definition ReaperQueue_new :: ReaperQueue where
  "ReaperQueue_new = \<lparr>rpq_queue = replicate REAPER_QUEUE_SIZE None, rpq_head = 0, rpq_tail = 0, rpq_queue_len = 0\<rparr>"

definition ReaperQueue_push :: "ReaperQueue \<Rightarrow> TaskId \<Rightarrow> (ReaperError + ReaperQueue) option" where
  "ReaperQueue_push q task_id =
     (if rpq_queue_len q = REAPER_QUEUE_SIZE then Some (Inl ReaperQueueFull)
      else do {
        buf \<leftarrow> upd (rpq_queue q) (rpq_tail q) (Some task_id);
        Some (Inr (q\<lparr>rpq_queue := buf,
                     rpq_tail := (rpq_tail q + 1) AND REAPER_QUEUE_MASK,
                     rpq_queue_len := rpq_queue_len q + 1\<rparr>))
      })"

definition ReaperQueue_pop :: "ReaperQueue \<Rightarrow> (TaskId option \<times> ReaperQueue) option" where
  "ReaperQueue_pop q =
     (if rpq_queue_len q = 0 then Some (None, q)
      else do {
        task_id \<leftarrow> idx (rpq_queue q) (rpq_head q);
        buf \<leftarrow> upd (rpq_queue q) (rpq_head q) None;
        Some (task_id,
              q\<lparr>rpq_queue := buf,
                rpq_head := (rpq_head q + 1) AND REAPER_QUEUE_MASK,
                rpq_queue_len := rpq_queue_len q - 1\<rparr>)
      })"

record TombstoneQueue =
  tsq_queue :: "TaskId option list"
  tsq_head :: nat
  tsq_tail :: nat
  tsq_queue_len :: nat

definition TombstoneQueue_new :: TombstoneQueue where
  "TombstoneQueue_new = \<lparr>tsq_queue = replicate TOMBSTONE_QUEUE_SIZE None, tsq_head = 0, tsq_tail = 0, tsq_queue_len = 0\<rparr>"

definition TombstoneQueue_push :: "TombstoneQueue \<Rightarrow> TaskId \<Rightarrow> (ReaperError + TombstoneQueue) option" where
  "TombstoneQueue_push q task_id =
     (if tsq_queue_len q = TOMBSTONE_QUEUE_SIZE then Some (Inl TombstoneQueueFull)
      else do {
        buf \<leftarrow> upd (tsq_queue q) (tsq_tail q) (Some task_id);
        Some (Inr (q\<lparr>tsq_queue := buf,
                     tsq_tail := (tsq_tail q + 1) AND TOMBSTONE_QUEUE_MASK,
                     tsq_queue_len := tsq_queue_len q + 1\<rparr>))
      })"

definition TombstoneQueue_pop :: "TombstoneQueue \<Rightarrow> (TaskId option \<times> TombstoneQueue) option" where
  "TombstoneQueue_pop q =
     (if tsq_queue_len q = 0 then Some (None, q)
      else do {
        task_id \<leftarrow> idx (tsq_queue q) (tsq_head q);
        buf \<leftarrow> upd (tsq_queue q) (tsq_head q) None;
        Some (task_id,
              q\<lparr>tsq_queue := buf,
                tsq_head := (tsq_head q + 1) AND TOMBSTONE_QUEUE_MASK,
                tsq_queue_len := tsq_queue_len q - 1\<rparr>)
      })"

section \<open>Invariants and the FIFO contract\<close>

definition rpq_invar :: "ReaperQueue \<Rightarrow> bool" where
  "rpq_invar q \<longleftrightarrow> opt_ring_ok REAPER_QUEUE_SIZE (rpq_queue q) (rpq_head q) (rpq_tail q) (rpq_queue_len q)"

definition rpq_contents :: "ReaperQueue \<Rightarrow> TaskId list" where
  "rpq_contents q = map the (ring_slice (rpq_queue q) (rpq_head q) (rpq_queue_len q))"

lemma and_REAPER_QUEUE_MASK [mask_simps]: "n AND REAPER_QUEUE_MASK = n mod REAPER_QUEUE_SIZE"
  by (simp add: REAPER_QUEUE_MASK_def REAPER_QUEUE_SIZE_def nat_and_63)

lemma length_rpq_contents [simp]: "length (rpq_contents q) = rpq_queue_len q"
  by (simp add: rpq_contents_def)

lemma rpq_new [simp]: "rpq_invar ReaperQueue_new" "rpq_contents ReaperQueue_new = []"
  by (simp_all add: ReaperQueue_new_def rpq_invar_def rpq_contents_def opt_ring_ok_def ring_ok_def REAPER_QUEUE_SIZE_def)

interpretation reaper_fifo:
  bounded_fifo REAPER_QUEUE_SIZE rpq_invar rpq_contents ReaperQueue_push ReaperQueue_pop
proof unfold_locales
  fix q :: ReaperQueue and x xs
  assume inv: "rpq_invar q"
  then have ring: "opt_ring_ok REAPER_QUEUE_SIZE (rpq_queue q) (rpq_head q) (rpq_tail q) (rpq_queue_len q)"
    and rg: "rpq_tail q < length (rpq_queue q)" "rpq_head q < length (rpq_queue q)"
    by (auto simp: rpq_invar_def opt_ring_ok_def dest: ring_ok_range)
  show "length (rpq_contents q) \<le> REAPER_QUEUE_SIZE"
    using ring by (simp add: opt_ring_ok_def ring_ok_def)
  show "\<exists>e. ReaperQueue_push q x = Some (Inl e)" if "length (rpq_contents q) = REAPER_QUEUE_SIZE"
    using that by (simp add: ReaperQueue_push_def)
  show "ReaperQueue_pop q = Some (None, q)" if "rpq_contents q = []"
    using that by (metis ReaperQueue_pop_def length_rpq_contents list.size(3))
  show "\<exists>q'. ReaperQueue_push q x = Some (Inr q') \<and> rpq_invar q' \<and> rpq_contents q' = rpq_contents q @ [x]"
    if "length (rpq_contents q) < REAPER_QUEUE_SIZE"
    using that rg opt_ring_push [OF ring, of x]
    by (simp add: ReaperQueue_push_def rpq_invar_def rpq_contents_def mask_simps)
  show "\<exists>q'. ReaperQueue_pop q = Some (Some x, q') \<and> rpq_invar q' \<and> rpq_contents q' = xs"
    if "rpq_contents q = x # xs"
    using rg opt_ring_pop [OF ring that [unfolded rpq_contents_def]]
    by (simp add: ReaperQueue_pop_def rpq_invar_def rpq_contents_def mask_simps)
qed

definition tsq_invar :: "TombstoneQueue \<Rightarrow> bool" where
  "tsq_invar q \<longleftrightarrow> opt_ring_ok TOMBSTONE_QUEUE_SIZE (tsq_queue q) (tsq_head q) (tsq_tail q) (tsq_queue_len q)"

definition tsq_contents :: "TombstoneQueue \<Rightarrow> TaskId list" where
  "tsq_contents q = map the (ring_slice (tsq_queue q) (tsq_head q) (tsq_queue_len q))"

lemma and_TOMBSTONE_QUEUE_MASK [mask_simps]: "n AND TOMBSTONE_QUEUE_MASK = n mod TOMBSTONE_QUEUE_SIZE"
  by (simp add: TOMBSTONE_QUEUE_MASK_def TOMBSTONE_QUEUE_SIZE_def nat_and_63)

lemma length_tsq_contents [simp]: "length (tsq_contents q) = tsq_queue_len q"
  by (simp add: tsq_contents_def)

lemma tsq_new [simp]: "tsq_invar TombstoneQueue_new" "tsq_contents TombstoneQueue_new = []"
  by (simp_all add: TombstoneQueue_new_def tsq_invar_def tsq_contents_def opt_ring_ok_def ring_ok_def TOMBSTONE_QUEUE_SIZE_def)

interpretation tombstone_fifo:
  bounded_fifo TOMBSTONE_QUEUE_SIZE tsq_invar tsq_contents TombstoneQueue_push TombstoneQueue_pop
proof unfold_locales
  fix q :: TombstoneQueue and x xs
  assume inv: "tsq_invar q"
  then have ring: "opt_ring_ok TOMBSTONE_QUEUE_SIZE (tsq_queue q) (tsq_head q) (tsq_tail q) (tsq_queue_len q)"
    and rg: "tsq_tail q < length (tsq_queue q)" "tsq_head q < length (tsq_queue q)"
    by (auto simp: tsq_invar_def opt_ring_ok_def dest: ring_ok_range)
  show "length (tsq_contents q) \<le> TOMBSTONE_QUEUE_SIZE"
    using ring by (simp add: opt_ring_ok_def ring_ok_def)
  show "\<exists>e. TombstoneQueue_push q x = Some (Inl e)" if "length (tsq_contents q) = TOMBSTONE_QUEUE_SIZE"
    using that by (simp add: TombstoneQueue_push_def)
  show "TombstoneQueue_pop q = Some (None, q)" if "tsq_contents q = []"
    using that by (metis TombstoneQueue_pop_def length_tsq_contents list.size(3))
  show "\<exists>q'. TombstoneQueue_push q x = Some (Inr q') \<and> tsq_invar q' \<and> tsq_contents q' = tsq_contents q @ [x]"
    if "length (tsq_contents q) < TOMBSTONE_QUEUE_SIZE"
    using that rg opt_ring_push [OF ring, of x]
    by (simp add: TombstoneQueue_push_def tsq_invar_def tsq_contents_def mask_simps)
  show "\<exists>q'. TombstoneQueue_pop q = Some (Some x, q') \<and> tsq_invar q' \<and> tsq_contents q' = xs"
    if "tsq_contents q = x # xs"
    using rg opt_ring_pop [OF ring that [unfolded tsq_contents_def]]
    by (simp add: TombstoneQueue_pop_def tsq_invar_def tsq_contents_def mask_simps)
qed

end
