(* ===== verification/System_Task_Queue.thy ===== *)
theory System_Task_Queue
  imports Task_Types Fifo
begin

text \<open>
  The deferred work queue (system\_core/system\_task\_queue.rs): a ring of 32 optional
  system tasks.  A system task is a function pointer and its argument; the one
  routine the kernel ever queues is the task killer of system\_core/system\_tasks.rs,
  so a function pointer is a value of the datatype below and is resolved by the
  timer interrupt.
\<close>

definition MAX_SYSTEM_TASKS :: nat where
  "MAX_SYSTEM_TASKS = 32"

definition SYSTEM_TASKS_MASK :: nat where
  "SYSTEM_TASKS_MASK = MAX_SYSTEM_TASKS - 1"

datatype SystemFunction = Fn_task_killer

record SystemTask =
  st_function :: SystemFunction
  st_func_arg :: u64

record SystemTaskQueue =
  stq_system_tasks :: "SystemTask option list"
  stq_head :: nat
  stq_tail :: nat
  stq_queue_len :: nat

definition SystemTaskQueue_new :: SystemTaskQueue where
  "SystemTaskQueue_new = \<lparr>stq_system_tasks = replicate MAX_SYSTEM_TASKS None, stq_head = 0, stq_tail = 0, stq_queue_len = 0\<rparr>"

definition SystemTaskQueue_push :: "SystemTaskQueue \<Rightarrow> SystemTask \<Rightarrow> (string + SystemTaskQueue) option" where
  "SystemTaskQueue_push q task =
     (if stq_queue_len q = MAX_SYSTEM_TASKS then Some (Inl ''[SYSTEM_TASK] Queue full, dropping SystemTask'')
      else do {
        buf \<leftarrow> upd (stq_system_tasks q) (stq_tail q) (Some task);
        Some (Inr (q\<lparr>stq_system_tasks := buf,
                     stq_tail := (stq_tail q + 1) AND SYSTEM_TASKS_MASK,
                     stq_queue_len := stq_queue_len q + 1\<rparr>))
      })"

definition SystemTaskQueue_pop :: "SystemTaskQueue \<Rightarrow> (SystemTask option \<times> SystemTaskQueue) option" where
  "SystemTaskQueue_pop q =
     (if stq_queue_len q = 0 then Some (None, q)
      else do {
        task \<leftarrow> idx (stq_system_tasks q) (stq_head q);
        buf \<leftarrow> upd (stq_system_tasks q) (stq_head q) None;
        Some (task,
              q\<lparr>stq_system_tasks := buf,
                stq_head := (stq_head q + 1) AND SYSTEM_TASKS_MASK,
                stq_queue_len := stq_queue_len q - 1\<rparr>)
      })"

section \<open>Invariant and the FIFO contract\<close>

definition stq_invar :: "SystemTaskQueue \<Rightarrow> bool" where
  "stq_invar q \<longleftrightarrow> opt_ring_ok MAX_SYSTEM_TASKS (stq_system_tasks q) (stq_head q) (stq_tail q) (stq_queue_len q)"

definition stq_contents :: "SystemTaskQueue \<Rightarrow> SystemTask list" where
  "stq_contents q = map the (ring_slice (stq_system_tasks q) (stq_head q) (stq_queue_len q))"

lemma and_SYSTEM_TASKS_MASK [mask_simps]: "n AND SYSTEM_TASKS_MASK = n mod MAX_SYSTEM_TASKS"
  by (simp add: SYSTEM_TASKS_MASK_def MAX_SYSTEM_TASKS_def nat_and_31)

lemma length_stq_contents [simp]: "length (stq_contents q) = stq_queue_len q"
  by (simp add: stq_contents_def)

lemma stq_new [simp]: "stq_invar SystemTaskQueue_new" "stq_contents SystemTaskQueue_new = []"
  by (simp_all add: SystemTaskQueue_new_def stq_invar_def stq_contents_def opt_ring_ok_def ring_ok_def MAX_SYSTEM_TASKS_def)

interpretation system_fifo:
  bounded_fifo MAX_SYSTEM_TASKS stq_invar stq_contents SystemTaskQueue_push SystemTaskQueue_pop
proof unfold_locales
  fix q :: SystemTaskQueue and x xs
  assume inv: "stq_invar q"
  then have ring: "opt_ring_ok MAX_SYSTEM_TASKS (stq_system_tasks q) (stq_head q) (stq_tail q) (stq_queue_len q)"
    and rg: "stq_tail q < length (stq_system_tasks q)" "stq_head q < length (stq_system_tasks q)"
    by (auto simp: stq_invar_def opt_ring_ok_def dest: ring_ok_range)
  show "length (stq_contents q) \<le> MAX_SYSTEM_TASKS"
    using ring by (simp add: opt_ring_ok_def ring_ok_def)
  show "\<exists>e. SystemTaskQueue_push q x = Some (Inl e)" if "length (stq_contents q) = MAX_SYSTEM_TASKS"
    using that by (simp add: SystemTaskQueue_push_def)
  show "SystemTaskQueue_pop q = Some (None, q)" if "stq_contents q = []"
    using that by (metis SystemTaskQueue_pop_def length_stq_contents list.size(3))
  show "\<exists>q'. SystemTaskQueue_push q x = Some (Inr q') \<and> stq_invar q' \<and> stq_contents q' = stq_contents q @ [x]"
    if "length (stq_contents q) < MAX_SYSTEM_TASKS"
    using that rg opt_ring_push [OF ring, of x]
    by (simp add: SystemTaskQueue_push_def stq_invar_def stq_contents_def mask_simps)
  show "\<exists>q'. SystemTaskQueue_pop q = Some (Some x, q') \<and> stq_invar q' \<and> stq_contents q' = xs"
    if "stq_contents q = x # xs"
    using rg opt_ring_pop [OF ring that [unfolded stq_contents_def]]
    by (simp add: SystemTaskQueue_pop_def stq_invar_def stq_contents_def mask_simps)
qed

end
