(* ===== verification/Sleep_Queue.thy ===== *)
theory Sleep_Queue
  imports Task_Types
begin

text \<open>
  The sleep queue (task\_scheduler/sleep\_queue.rs): a fixed array that keeps, for
  each sleeping task, the ticks left after the entry before it.  The model
  follows the array operations; two abstractions explain them.  The first reads
  the array as the list of its entries, the second reads that list as the tasks
  with the absolute number of ticks until they wake.  Insertion is a sorted
  insertion of the second, and a tick subtracts one everywhere and wakes exactly
  the tasks that are due.
\<close>

definition MAX_SLEEP_ENTRIES :: nat where
  "MAX_SLEEP_ENTRIES = 256"

record SleepEntry =
  se_delta_ticks :: u64
  se_task_id :: TaskId

record SleepQueue =
  sq_entries :: "SleepEntry option list"
  sq_queue_len :: nat

definition SleepQueue_new :: SleepQueue where
  "SleepQueue_new = \<lparr>sq_entries = replicate MAX_SLEEP_ENTRIES None, sq_queue_len = 0\<rparr>"

section \<open>Insertion\<close>

text \<open>The search for the insertion point: the index and the ticks left there.\<close>

function sq_find :: "SleepEntry option list \<Rightarrow> nat \<Rightarrow> nat \<Rightarrow> u64 \<Rightarrow> (nat \<times> u64) option" where
  "sq_find es i len remaining =
     (if i < len then do {
        slot \<leftarrow> idx es i;
        entry \<leftarrow> slot;
        if remaining \<le> se_delta_ticks entry then Some (i, remaining)
        else sq_find es (i + 1) len (remaining - se_delta_ticks entry)
      } else Some (len, remaining))"
  by pat_completeness auto
termination by (relation "measure (\<lambda>(es, i, len, r). len - i)") auto

declare sq_find.simps [simp del]

text \<open>The loop that moves the entries behind the insertion point one slot right.\<close>

fun sq_shift_right :: "SleepEntry option list \<Rightarrow> nat \<Rightarrow> nat \<Rightarrow> SleepEntry option list option" where
  "sq_shift_right es i insert_pos =
     (if insert_pos < i then do {
        x \<leftarrow> idx es (i - 1);
        es1 \<leftarrow> upd es (i - 1) None;
        es2 \<leftarrow> upd es1 i x;
        sq_shift_right es2 (i - 1) insert_pos
      } else Some es)"

declare sq_shift_right.simps [simp del]

text \<open>The second component is what the function prints on the serial port.\<close>

definition SleepQueue_insert :: "SleepQueue \<Rightarrow> TaskId \<Rightarrow> u64 \<Rightarrow> (SleepQueue \<times> string list) option" where
  "SleepQueue_insert q task_id ticks =
     (if ticks = 0 then Some (q, [])
      else if sq_queue_len q = MAX_SLEEP_ENTRIES
      then Some (q, [''[SleepQueue] Failed to insert task sleep entry: queue full'' @ nl])
      else do {
        (insert_pos, remaining) \<leftarrow> sq_find (sq_entries q) 0 (sq_queue_len q) ticks;
        es \<leftarrow> sq_shift_right (sq_entries q) (sq_queue_len q) insert_pos;
        es \<leftarrow> upd es insert_pos (Some \<lparr>se_delta_ticks = remaining, se_task_id = task_id\<rparr>);
        let len = sq_queue_len q + 1;
        es \<leftarrow> (if insert_pos + 1 < len then do {
                  next_slot \<leftarrow> idx es (insert_pos + 1);
                  case next_slot of
                    Some nxt \<Rightarrow> upd es (insert_pos + 1)
                      (Some (nxt\<lparr>se_delta_ticks := se_delta_ticks nxt - remaining\<rparr>))
                  | None \<Rightarrow> Some es
                } else Some es);
        Some (\<lparr>sq_entries = es, sq_queue_len = len\<rparr>, [])
      })"

section \<open>Ticking\<close>

text \<open>The loop that closes the gap after the head entry was taken.\<close>

function sq_shift_left :: "SleepEntry option list \<Rightarrow> nat \<Rightarrow> nat \<Rightarrow> SleepEntry option list option" where
  "sq_shift_left es i n =
     (if i < n then do {
        x \<leftarrow> idx es (i + 1);
        es1 \<leftarrow> upd es (i + 1) None;
        es2 \<leftarrow> upd es1 i x;
        sq_shift_left es2 (i + 1) n
      } else Some es)"
  by pat_completeness auto
termination by (relation "measure (\<lambda>(es, i, n). n - i)") auto

declare sq_shift_left.simps [simp del]

text \<open>
  Waking is the scheduler's operation; the queue calls it for every expired
  entry on a state the queue does not own, and ignores its result.
\<close>

function sq_wake_expired ::
  "(TaskId \<Rightarrow> 's \<Rightarrow> 's option) \<Rightarrow> SleepQueue \<Rightarrow> 's \<Rightarrow> nat \<Rightarrow> (nat \<times> SleepQueue \<times> 's) option" where
  "sq_wake_expired wake q s woken =
     (if 0 < sq_queue_len q then do {
        slot \<leftarrow> idx (sq_entries q) 0;
        if (case slot of Some entry \<Rightarrow> se_delta_ticks entry | None \<Rightarrow> 1) \<noteq> 0
        then Some (woken, q, s)
        else do {
          entry \<leftarrow> slot;
          es \<leftarrow> upd (sq_entries q) 0 None;
          es \<leftarrow> sq_shift_left es 0 (sq_queue_len q - 1);
          s' \<leftarrow> wake (se_task_id entry) s;
          sq_wake_expired wake \<lparr>sq_entries = es, sq_queue_len = sq_queue_len q - 1\<rparr> s' (woken + 1)
        }
      } else Some (woken, q, s))"
  by pat_completeness auto
termination by (relation "measure (\<lambda>(wake, q, s, w). sq_queue_len q)") auto

declare sq_wake_expired.simps [simp del]

definition SleepQueue_tick ::
  "(TaskId \<Rightarrow> 's \<Rightarrow> 's option) \<Rightarrow> SleepQueue \<Rightarrow> 's \<Rightarrow> (nat \<times> SleepQueue \<times> 's) option" where
  "SleepQueue_tick wake q s =
     (if sq_queue_len q = 0 then Some (0, q, s)
      else do {
        slot \<leftarrow> idx (sq_entries q) 0;
        es \<leftarrow> (case slot of
                 Some head \<Rightarrow>
                   if 0 < se_delta_ticks head
                   then upd (sq_entries q) 0 (Some (head\<lparr>se_delta_ticks := se_delta_ticks head - 1\<rparr>))
                   else Some (sq_entries q)
               | None \<Rightarrow> Some (sq_entries q));
        sq_wake_expired wake (q\<lparr>sq_entries := es\<rparr>) s 0
      })"

section \<open>The array as a list of entries\<close>

definition sq_of :: "SleepEntry list \<Rightarrow> SleepQueue" where
  "sq_of L = \<lparr>sq_entries = map Some L @ replicate (MAX_SLEEP_ENTRIES - length L) None,
              sq_queue_len = length L\<rparr>"

definition sq_list :: "SleepQueue \<Rightarrow> SleepEntry list" where
  "sq_list q = map the (take (sq_queue_len q) (sq_entries q))"

definition sq_invar :: "SleepQueue \<Rightarrow> bool" where
  "sq_invar q \<longleftrightarrow> length (sq_list q) \<le> MAX_SLEEP_ENTRIES \<and> q = sq_of (sq_list q) \<and>
     (sq_list q \<noteq> [] \<longrightarrow> 0 < se_delta_ticks (hd (sq_list q)))"

lemma sq_list_of [simp]: "sq_list (sq_of L) = L"
  by (simp add: sq_list_def sq_of_def comp_def)

lemma sq_of_len [simp]: "sq_queue_len (sq_of L) = length L"
  by (simp add: sq_of_def)

lemma sq_invar_of:
  "sq_invar (sq_of L) \<longleftrightarrow> length L \<le> MAX_SLEEP_ENTRIES \<and> (L \<noteq> [] \<longrightarrow> 0 < se_delta_ticks (hd L))"
  by (simp add: sq_invar_def)

lemma sq_invarE:
  assumes "sq_invar q"
  obtains L where "q = sq_of L" "length L \<le> MAX_SLEEP_ENTRIES" "L \<noteq> [] \<Longrightarrow> 0 < se_delta_ticks (hd L)"
  using assms unfolding sq_invar_def by blast

lemma sq_new_of: "SleepQueue_new = sq_of []"
  by (simp add: SleepQueue_new_def sq_of_def)

text \<open>The two shifting loops, as list surgery on an array with a free slot.\<close>

lemma sq_shift_right_eq:
  assumes "p \<le> i" "i < length es" "es ! i = None"
  shows "sq_shift_right es i p = Some (take p es @ None # take (i - p) (drop p es) @ drop (Suc i) es)"
  using assms
proof (induction es i p rule: sq_shift_right.induct)
  case (1 es i p)
  show ?case
  proof (cases "p < i")
    case False
    then show ?thesis using "1.prems" id_take_nth_drop [of i es] by (simp add: sq_shift_right.simps)
  next
    case True
    then obtain j where j: "i = Suc j" "p \<le> j" by (cases i) auto
    let ?es = "es[j := None, i := es ! j]"
    have "sq_shift_right es i p = sq_shift_right ?es j p"
      using True j "1.prems" by (subst sq_shift_right.simps) simp
    also have "\<dots> = Some (take p ?es @ None # take (j - p) (drop p ?es) @ drop (Suc j) ?es)"
      using "1.IH" [of "es ! j" "es[j := None]" ?es] True j "1.prems" by simp
    also have "take (j - p) (drop p ?es) = take (j - p) (drop p es)"
      using j "1.prems" by (intro nth_equalityI) auto
    also have "drop (Suc j) ?es = es ! j # drop (Suc i) es"
      using j "1.prems" by (simp add: Cons_nth_drop_Suc [symmetric])
    also have "take (j - p) (drop p es) @ es ! j # drop (Suc i) es = take (i - p) (drop p es) @ drop (Suc i) es"
      using j "1.prems" by (simp add: Suc_diff_le take_Suc_conv_app_nth)
    finally show ?thesis using j by simp
  qed
qed

lemma sq_shift_left_eq:
  assumes "i \<le> n" "n < length es" "es ! i = None"
  shows "sq_shift_left es i n = Some (take i es @ take (n - i) (drop (Suc i) es) @ None # drop (Suc n) es)"
  using assms
proof (induction es i n rule: sq_shift_left.induct)
  case (1 es i n)
  show ?case
  proof (cases "i < n")
    case False
    then show ?thesis using "1.prems" id_take_nth_drop [of i es] by (simp add: sq_shift_left.simps)
  next
    case True
    let ?es = "es[Suc i := None, i := es ! Suc i]"
    have "sq_shift_left es i n = sq_shift_left ?es (Suc i) n"
      using True "1.prems" by (subst sq_shift_left.simps) simp
    also have "\<dots> = Some (take (Suc i) ?es @ take (n - Suc i) (drop (Suc (Suc i)) ?es) @ None # drop (Suc n) ?es)"
      using "1.IH" [of "es ! Suc i" "es[Suc i := None]" ?es] True "1.prems" by simp
    finally show ?thesis using True "1.prems" 
      by (simp add: take_Suc_conv_app_nth Suc_diff_Suc [symmetric] Cons_nth_drop_Suc [symmetric])
  qed
qed

section \<open>Insertion as a delta-list operation\<close>

fun dq_insert :: "TaskId \<Rightarrow> u64 \<Rightarrow> SleepEntry list \<Rightarrow> SleepEntry list" where
  "dq_insert i r [] = [\<lparr>se_delta_ticks = r, se_task_id = i\<rparr>]"
| "dq_insert i r (e # es) =
     (if r \<le> se_delta_ticks e
      then \<lparr>se_delta_ticks = r, se_task_id = i\<rparr> # e\<lparr>se_delta_ticks := se_delta_ticks e - r\<rparr> # es
      else e # dq_insert i (r - se_delta_ticks e) es)"

fun dq_find :: "u64 \<Rightarrow> SleepEntry list \<Rightarrow> nat \<times> u64" where
  "dq_find r [] = (0, r)"
| "dq_find r (e # es) =
     (if r \<le> se_delta_ticks e then (0, r)
      else let (p, r') = dq_find (r - se_delta_ticks e) es in (Suc p, r'))"

lemma length_dq_insert [simp]: "length (dq_insert i r L) = Suc (length L)"
  by (induction i r L rule: dq_insert.induct) auto

lemma dq_find_bound: "fst (dq_find r L) \<le> length L"
  by (induction r L rule: dq_find.induct) (auto simp: split_beta)

lemma sq_find_eq:
  assumes "es = map Some P @ map Some L @ Z"
  shows "sq_find es (length P) (length P + length L) r =
           (let (p, r') = dq_find r L in Some (length P + p, r'))"
  using assms
proof (induction r L arbitrary: P rule: dq_find.induct)
  case (1 r)
  then show ?case by (simp add: sq_find.simps)
next
  case (2 r e L)
  have "sq_find es (length (P @ [e])) (length (P @ [e]) + length L) (r - se_delta_ticks e) =
      (let (p, r') = dq_find (r - se_delta_ticks e) L in Some (length (P @ [e]) + p, r'))"
    if "\<not> r \<le> se_delta_ticks e"
    using 2 that by (intro "2.IH") auto
  then show ?case
    using "2.prems" by (subst sq_find.simps) (auto simp: nth_append split_beta Let_def)
qed

lemma dq_insert_split:
  "dq_insert i r L = (let (p, r') = dq_find r L in
     take p L @ \<lparr>se_delta_ticks = r', se_task_id = i\<rparr> #
       (case drop p L of [] \<Rightarrow> [] | e # es \<Rightarrow> e\<lparr>se_delta_ticks := se_delta_ticks e - r'\<rparr> # es))"
  by (induction i r L rule: dq_insert.induct) (auto split: prod.splits)

lemma SleepQueue_insert_of:
  assumes "length L < MAX_SLEEP_ENTRIES" "t \<noteq> 0"
  shows "SleepQueue_insert (sq_of L) i t = Some (sq_of (dq_insert i t L), [])"
proof -
  obtain p r where pr: "dq_find t L = (p, r)" by fastforce
  then have p: "p \<le> length L" using dq_find_bound [of t L] by simp
  define Z :: "SleepEntry option list" where "Z = replicate (MAX_SLEEP_ENTRIES - Suc (length L)) None"
  have es: "sq_entries (sq_of L) = map Some L @ None # Z"
    using assms(1) by (simp add: sq_of_def Z_def replicate_Suc [symmetric] Suc_diff_Suc del: replicate_Suc)
  have find: "sq_find (sq_entries (sq_of L)) 0 (length L) t = Some (p, r)"
    using sq_find_eq [of "sq_entries (sq_of L)" "[]" L "None # Z" t] es pr by simp
  have shift: "sq_shift_right (sq_entries (sq_of L)) (length L) p =
      Some (map Some (take p L) @ None # map Some (drop p L) @ Z)"
    using sq_shift_right_eq [OF p, of "sq_entries (sq_of L)"] p
    by (simp add: es nth_append take_map drop_map)
  have out: "\<lparr>sq_entries = map Some M @ Z, sq_queue_len = Suc (length L)\<rparr> = sq_of M"
    if "length M = Suc (length L)" for M
    using that by (simp add: sq_of_def Z_def)
  show ?thesis
  proof (cases "drop p L")
    case Nil
    then show ?thesis
      using assms find shift pr p out [of "dq_insert i t L"]
      by (simp add: SleepQueue_insert_def dq_insert_split [of i t L] list_update_append)
  next
    case (Cons e es')
    have "Suc (p + length es') = length L" using p arg_cong [OF Cons, of length] by simp
    then show ?thesis
      using assms find shift pr p Cons out [of "dq_insert i t L"]
      by (simp add: SleepQueue_insert_def dq_insert_split [of i t L] list_update_append nth_append)
  qed
qed

section \<open>Absolute wake times\<close>

fun wake_times :: "nat \<Rightarrow> SleepEntry list \<Rightarrow> (TaskId \<times> nat) list" where
  "wake_times b [] = []"
| "wake_times b (e # es) =
     (se_task_id e, b + unat (se_delta_ticks e)) # wake_times (b + unat (se_delta_ticks e)) es"

text \<open>The sleeping tasks with the ticks until each one wakes, in queue order.\<close>

definition sq_sleepers :: "SleepQueue \<Rightarrow> (TaskId \<times> nat) list" where
  "sq_sleepers q = wake_times 0 (sq_list q)"

lemma length_wake_times [simp]: "length (wake_times b L) = length L"
  by (induction b L rule: wake_times.induct) auto

lemma wake_times_ge: "x \<in> set (wake_times b L) \<Longrightarrow> b \<le> snd x"
  by (induction b L rule: wake_times.induct) auto

lemma sorted_wake_times: "sorted (map snd (wake_times b L))"
  by (induction b L rule: wake_times.induct) (auto dest: wake_times_ge)

lemma unat_diff_not_le: "\<not> (r::'a::len word) \<le> d \<Longrightarrow> unat (r - d) = unat r - unat d \<and> unat d < unat r"
  by (metis linorder_not_le order_less_imp_le unat_sub word_less_nat_alt)

lemma wake_times_dq_insert:
  "wake_times b (dq_insert i r L) = insort_key snd (i, b + unat r) (wake_times b L)"
proof (induction i r L arbitrary: b rule: dq_insert.induct)
  case (1 i r)
  then show ?case by simp
next
  case (2 i r e es)
  show ?case
  proof (cases "r \<le> se_delta_ticks e")
    case True
    then have le: "unat r \<le> unat (se_delta_ticks e)"
      and eq: "b + unat r + unat (se_delta_ticks e - r) = b + unat (se_delta_ticks e)"
      by (simp_all add: word_le_nat_alt unat_sub)
    show ?thesis using True le by (simp add: eq)
  next
    case False
    then show ?thesis using 2 [OF False, of "b + unat (se_delta_ticks e)"] unat_diff_not_le [OF False] by simp
  qed
qed

lemma hd_dq_insert_pos:
  "t \<noteq> 0 \<Longrightarrow> L \<noteq> [] \<longrightarrow> 0 < se_delta_ticks (hd L) \<Longrightarrow> 0 < se_delta_ticks (hd (dq_insert i t L))"
  by (cases L) (auto simp: word_gt_0)

lemma SleepQueue_insert_refines:
  assumes "sq_invar q" "t \<noteq> 0" "length (sq_sleepers q) < MAX_SLEEP_ENTRIES"
  shows "\<exists>q'. SleepQueue_insert q i t = Some (q', []) \<and> sq_invar q' \<and>
           sq_sleepers q' = insort_key snd (i, unat t) (sq_sleepers q)"
  using assms(1)
proof (rule sq_invarE)
  fix L
  assume L: "q = sq_of L" "length L \<le> MAX_SLEEP_ENTRIES" "L \<noteq> [] \<Longrightarrow> 0 < se_delta_ticks (hd L)"
  then show ?thesis
    using assms(2,3) SleepQueue_insert_of [of L t i] hd_dq_insert_pos [of t L i]
    by (simp add: sq_sleepers_def wake_times_dq_insert sq_invar_of)
qed

section \<open>Ticking on wake times\<close>

text \<open>Waking a list of tasks one after the other.\<close>

fun wake_all :: "(TaskId \<Rightarrow> 's \<Rightarrow> 's option) \<Rightarrow> TaskId list \<Rightarrow> 's \<Rightarrow> 's option" where
  "wake_all wake [] s = Some s"
| "wake_all wake (i # is) s = do { s' \<leftarrow> wake i s; wake_all wake is s' }"

definition expired :: "SleepEntry \<Rightarrow> bool" where
  "expired e \<longleftrightarrow> se_delta_ticks e = 0"

lemma sq_wake_expired_of:
  assumes "length L \<le> MAX_SLEEP_ENTRIES"
  shows "sq_wake_expired wake (sq_of L) s n =
    map_option (\<lambda>s'. (n + length (takeWhile expired L), sq_of (dropWhile expired L), s'))
      (wake_all wake (map se_task_id (takeWhile expired L)) s)"
  using assms
proof (induction L arbitrary: s n)
  case Nil
  then show ?case by (simp add: sq_wake_expired.simps)
next
  case (Cons e L)
  define Z :: "SleepEntry option list" where "Z = replicate (MAX_SLEEP_ENTRIES - Suc (length L)) None"
  have es: "sq_entries (sq_of (e # L)) = Some e # map Some L @ Z"
    by (simp add: sq_of_def Z_def)
  have shift: "sq_shift_left (None # map Some L @ Z) 0 (length L) = Some (map Some L @ None # Z)"
    using sq_shift_left_eq [of 0 "length L" "None # map Some L @ Z"] by simp
  have out: "\<lparr>sq_entries = map Some L @ None # Z, sq_queue_len = length L\<rparr> = sq_of L"
    using Cons.prems by (simp add: sq_of_def Z_def replicate_Suc [symmetric] Suc_diff_Suc del: replicate_Suc)
  show ?case
  proof (cases "expired e")
    case True
    have "sq_wake_expired wake (sq_of (e # L)) s n =
        do { s' \<leftarrow> wake (se_task_id e) s; sq_wake_expired wake (sq_of L) s' (n + 1) }"
      using True by (subst sq_wake_expired.simps) (simp add: es expired_def shift out)
    then show ?thesis using True Cons by (cases "wake (se_task_id e) s") auto
  next
    case False
    then show ?thesis by (subst sq_wake_expired.simps) (simp add: es expired_def)
  qed
qed

lemma wake_times_shift:
  "wake_times b L = map (\<lambda>(i, t). (i, t - 1)) (wake_times (Suc b) L)"
  by (induction b L rule: wake_times.induct) simp_all

lemma wake_times_dec:
  assumes "0 < se_delta_ticks e"
  shows "wake_times 0 (e\<lparr>se_delta_ticks := se_delta_ticks e - 1\<rparr> # L) =
           map (\<lambda>(i, t). (i, t - 1)) (wake_times 0 (e # L))"
proof -
  have "se_delta_ticks e \<noteq> 0" using assms by (simp add: word_gt_0)
  then obtain m where "unat (se_delta_ticks e) = Suc m" "unat (se_delta_ticks e - 1) = m"
    by (metis One_nat_def Suc_pred unat_gt_0 unat_minus_one)
  then show ?thesis using wake_times_shift [of m L] by simp
qed

lemma wake_times_expired:
  "map se_task_id (takeWhile expired L) = map fst (filter (\<lambda>x. snd x = 0) (wake_times 0 L))"
  "wake_times 0 (dropWhile expired L) = filter (\<lambda>x. snd x \<noteq> 0) (wake_times 0 L)"
proof (induction L)
  case (Cons e L)
  have pos: "filter (\<lambda>x. snd x = 0) (wake_times b L) = []"
    "filter (\<lambda>x. snd x \<noteq> 0) (wake_times b L) = wake_times b L" if "0 < b" for b
    using that by (fastforce simp: filter_empty_conv filter_id_conv dest: wake_times_ge)+
  { case 1 then show ?case using Cons pos by (cases "se_delta_ticks e = 0") (simp_all add: expired_def unat_gt_0) }
  { case 2 then show ?case using Cons pos by (cases "se_delta_ticks e = 0") (simp_all add: expired_def unat_gt_0) }
qed auto

lemma expired_after_dec:
  assumes "wake_times 0 L = map (\<lambda>(i, t). (i, t - 1)) T"
  shows "map se_task_id (takeWhile expired L) = map fst (filter (\<lambda>x. snd x \<le> 1) T)"
    and "length (takeWhile expired L) = length (filter (\<lambda>x. snd x \<le> 1) T)"
    and "wake_times 0 (dropWhile expired L) = map (\<lambda>(i, t). (i, t - 1)) (filter (\<lambda>x. 1 < snd x) T)"
proof -
  show ids: "map se_task_id (takeWhile expired L) = map fst (filter (\<lambda>x. snd x \<le> 1) T)"
    using wake_times_expired(1) [of L] assms by (simp add: filter_map comp_def split_beta)
  show "length (takeWhile expired L) = length (filter (\<lambda>x. snd x \<le> 1) T)"
    using arg_cong [OF ids, of length] by simp
  show "wake_times 0 (dropWhile expired L) = map (\<lambda>(i, t). (i, t - 1)) (filter (\<lambda>x. 1 < snd x) T)"
    using wake_times_expired(2) [of L] assms by (simp add: filter_map comp_def split_beta)
qed

lemma SleepQueue_tick_refines:
  assumes "sq_invar q"
  shows "\<exists>q'. SleepQueue_tick wake q s =
             map_option (\<lambda>s'. (length (filter (\<lambda>x. snd x \<le> 1) (sq_sleepers q)), q', s'))
               (wake_all wake (map fst (filter (\<lambda>x. snd x \<le> 1) (sq_sleepers q))) s)
           \<and> sq_invar q'
           \<and> sq_sleepers q' = map (\<lambda>(i, t). (i, t - 1)) (filter (\<lambda>x. 1 < snd x) (sq_sleepers q))"
  using assms
proof (rule sq_invarE)
  fix L
  assume L: "q = sq_of L" "length L \<le> MAX_SLEEP_ENTRIES" "L \<noteq> [] \<Longrightarrow> 0 < se_delta_ticks (hd L)"
  show ?thesis
  proof (cases L)
    case Nil
    then show ?thesis using L(1) assms by (simp add: SleepQueue_tick_def sq_sleepers_def)
  next
    case (Cons e K)
    let ?L = "e\<lparr>se_delta_ticks := se_delta_ticks e - 1\<rparr> # K"
    let ?T = "wake_times 0 L"
    have pos: "0 < se_delta_ticks e" using L(3) Cons by simp
    have T: "wake_times 0 ?L = map (\<lambda>(i, t). (i, t - 1)) ?T"
      by (simp only: wake_times_dec [OF pos] Cons)
    have tick: "SleepQueue_tick wake q s = sq_wake_expired wake (sq_of ?L) s 0"
      using L(1) pos Cons by (simp add: SleepQueue_tick_def sq_of_def)
    have hd: "dropWhile expired ?L \<noteq> [] \<Longrightarrow> 0 < se_delta_ticks (hd (dropWhile expired ?L))"
      using hd_dropWhile [of expired ?L] by (simp add: expired_def word_gt_0 del: dropWhile.simps)
    have bnd: "length (dropWhile expired ?L) \<le> MAX_SLEEP_ENTRIES"
      using length_dropWhile_le [of expired ?L] L(2) Cons by simp
    show ?thesis
      unfolding tick using sq_wake_expired_of [of ?L wake s 0] L(1,2) Cons expired_after_dec [OF T] hd bnd
      by (intro exI [of _ "sq_of (dropWhile expired ?L)"])
        (simp add: sq_invar_of sq_sleepers_def del: dropWhile.simps takeWhile.simps wake_times.simps)
  qed
qed

end
