(* ===== verification/Task_Table.thy ===== *)
theory Task_Table
  imports Task_Types Cells
begin

text \<open>
  The global task table (task\_scheduler/scheduler.rs, TaskSlot and GlobalScheduler):
  256 slots, each with a generation counter that is advanced when the slot is
  freed, so that identifiers of removed tasks no longer resolve.
\<close>

definition MAX_TASKS :: nat where
  "MAX_TASKS = 256"

record TaskSlot =
  ts_task :: "Task option"
  ts_slot_generation :: u8

definition TaskSlot_new :: TaskSlot where
  "TaskSlot_new = \<lparr>ts_task = None, ts_slot_generation = 0\<rparr>"

record GlobalScheduler =
  gs_tasks :: "TaskSlot list"

definition GlobalScheduler_new :: GlobalScheduler where
  "GlobalScheduler_new = \<lparr>gs_tasks = replicate MAX_TASKS TaskSlot_new\<rparr>"

definition insert_idle_task :: "GlobalScheduler \<Rightarrow> Task \<Rightarrow> GlobalScheduler option" where
  "insert_idle_task g idle_task = do {
     slots \<leftarrow> upd (gs_tasks g) 0 \<lparr>ts_task = Some idle_task, ts_slot_generation = 0\<rparr>;
     Some (g\<lparr>gs_tasks := slots\<rparr>)
   }"

text \<open>The search for the first free slot; \<^term>\<open>None\<close> when every slot is taken.\<close>

fun insert_task_from :: "nat \<Rightarrow> TaskSlot list \<Rightarrow> Task \<Rightarrow> (TaskId \<times> TaskSlot list) option" where
  "insert_task_from i [] task = None"
| "insert_task_from i (slot # slots) task =
     (if ts_task slot = None
      then let task_id = \<lparr>slot_index = of_nat i, slot_generation = ts_slot_generation slot\<rparr>
           in Some (task_id, slot\<lparr>ts_task := Some (task\<lparr>t_id := task_id, t_state := Ready\<rparr>)\<rparr> # slots)
      else case insert_task_from (i + 1) slots task of
             None \<Rightarrow> None
           | Some (task_id, slots') \<Rightarrow> Some (task_id, slot # slots'))"

definition insert_task :: "GlobalScheduler \<Rightarrow> Task \<Rightarrow> SchedulerError + (TaskId \<times> GlobalScheduler)" where
  "insert_task g task =
     (case insert_task_from 0 (gs_tasks g) task of
        None \<Rightarrow> Inl TaskTableFull
      | Some (task_id, slots) \<Rightarrow> Inr (task_id, g\<lparr>gs_tasks := slots\<rparr>))"

definition get_task :: "GlobalScheduler \<Rightarrow> TaskId \<Rightarrow> Task option" where
  "get_task g task_id =
     (case idx (gs_tasks g) (unat (slot_index task_id)) of
        None \<Rightarrow> None
      | Some slot \<Rightarrow>
          if ts_slot_generation slot = slot_generation task_id \<and> ts_task slot \<noteq> None
          then ts_task slot else None)"

text \<open>A store through the reference that \<^verbatim>\<open>get_task_mut\<close> returns.\<close>

definition set_task :: "GlobalScheduler \<Rightarrow> TaskId \<Rightarrow> Task \<Rightarrow> GlobalScheduler option" where
  "set_task g task_id task =
     (case get_task g task_id of
        None \<Rightarrow> None
      | Some _ \<Rightarrow> let i = unat (slot_index task_id) in
          Some (g\<lparr>gs_tasks := (gs_tasks g)[i := (gs_tasks g ! i)\<lparr>ts_task := Some task\<rparr>]\<rparr>))"

text \<open>
  Removal.  The last component is the dropped task, whose stack goes back to the
  heap; the whole operation is a no-op for an identifier that does not resolve and
  panics when the thread of the task is gone.
\<close>

definition remove_task ::
  "GlobalScheduler \<Rightarrow> ThreadStore \<Rightarrow> TaskId \<Rightarrow> (GlobalScheduler \<times> ThreadStore \<times> Task option) option" where
  "remove_task g ths task_id =
     (case get_task g task_id of
        None \<Rightarrow> Some (g, ths, None)
      | Some task \<Rightarrow> do {
          thread \<leftarrow> ths (t_thread task);
          let ths' = ths(t_thread task \<mapsto> thread\<lparr>th_task_id := None, th_state := ThDead\<rparr>);
          let i = unat (slot_index task_id);
          slot \<leftarrow> idx (gs_tasks g) i;
          slots \<leftarrow> upd (gs_tasks g) i
            (slot\<lparr>ts_task := None, ts_slot_generation := ts_slot_generation slot + 1\<rparr>);
          Some (g\<lparr>gs_tasks := slots\<rparr>, ths', Some task)
        })"

section \<open>Lookup\<close>

lemma get_task_Some_iff:
  "get_task g k = Some t \<longleftrightarrow> unat (slot_index k) < length (gs_tasks g) \<and>
     ts_slot_generation (gs_tasks g ! unat (slot_index k)) = slot_generation k \<and>
     ts_task (gs_tasks g ! unat (slot_index k)) = Some t"
  by (auto simp: get_task_def idx_def split: if_splits)

lemma TaskId_neq_slot:
  "(k'::TaskId) \<noteq> k \<Longrightarrow> unat (slot_index k') = unat (slot_index k) \<Longrightarrow> slot_generation k' \<noteq> slot_generation k"
  by (cases k; cases k') (auto dest: unsigned_word_eqI)

lemma set_task_Some_iff:
  "set_task g k t = Some g' \<longleftrightarrow> get_task g k \<noteq> None \<and>
     g' = g\<lparr>gs_tasks := (gs_tasks g)[unat (slot_index k) := (gs_tasks g ! unat (slot_index k))\<lparr>ts_task := Some t\<rparr>]\<rparr>"
  by (auto simp: set_task_def Let_def split: option.splits)

interpretation task_cells: cell_store get_task set_task
proof unfold_locales
  fix g g' :: GlobalScheduler and k k' v w
  show "\<exists>g'. set_task g k w = Some g'" if "get_task g k = Some v"
    using that by (simp add: set_task_Some_iff)
  assume set: "set_task g k w = Some g'"
  then show "get_task g k \<noteq> None" by (simp add: set_task_Some_iff)
  then show "get_task g' k = Some w"
    using set by (auto simp: set_task_Some_iff get_task_Some_iff)
  show "get_task g' k' = get_task g k'" if "k' \<noteq> k"
  proof (cases "unat (slot_index k') = unat (slot_index k)")
    case True
    then have "get_task g k' = None" "get_task g' k' = None"
      using TaskId_neq_slot [OF that True] \<open>get_task g k \<noteq> None\<close> set
      by (auto simp: set_task_Some_iff get_task_def idx_def split: if_splits)
    then show ?thesis by simp
  next
    case False
    then show ?thesis using set by (auto simp: set_task_Some_iff get_task_def idx_def)
  qed
qed

section \<open>Well-formed tables\<close>

text \<open>
  The table has 256 slots, and the task in a slot carries the identifier made of
  the slot's index and generation.
\<close>

definition slot_ok :: "nat \<Rightarrow> TaskSlot \<Rightarrow> bool" where
  "slot_ok i s \<longleftrightarrow> (case ts_task s of None \<Rightarrow> True
     | Some t \<Rightarrow> t_id t = \<lparr>slot_index = of_nat i, slot_generation = ts_slot_generation s\<rparr>)"

definition table_ok :: "GlobalScheduler \<Rightarrow> bool" where
  "table_ok g \<longleftrightarrow> length (gs_tasks g) = MAX_TASKS \<and> (\<forall>i < MAX_TASKS. slot_ok i (gs_tasks g ! i))"

lemma table_ok_upd:
  "table_ok g \<Longrightarrow> i < MAX_TASKS \<Longrightarrow> slot_ok i s \<Longrightarrow> table_ok (g\<lparr>gs_tasks := (gs_tasks g)[i := s]\<rparr>)"
  by (simp add: table_ok_def nth_list_update)

lemma table_ok_new [simp]: "table_ok GlobalScheduler_new"
  by (simp add: table_ok_def slot_ok_def GlobalScheduler_new_def TaskSlot_new_def)

lemma get_task_new [simp]: "get_task GlobalScheduler_new k = None"
  by (auto simp: get_task_def GlobalScheduler_new_def TaskSlot_new_def idx_def)

lemma get_task_id: "table_ok g \<Longrightarrow> get_task g k = Some t \<Longrightarrow> t_id t = k"
  by (cases k) (fastforce simp: table_ok_def slot_ok_def get_task_Some_iff)

lemma table_ok_length: "table_ok g \<Longrightarrow> length (gs_tasks g) = MAX_TASKS"
  by (simp add: table_ok_def)

lemma get_task_PENDING: "table_ok g \<Longrightarrow> get_task g TaskId_PENDING = None"
  using table_ok_length [of g]
  by (simp add: get_task_def idx_def MAX_TASKS_def TaskId_PENDING_def unsigned_minus_1_eq_mask mask_eq_exp_minus_1)

lemma table_ok_set_task:
  assumes "table_ok g" "set_task g k t = Some g'" "t_id t = k"
  shows "table_ok g'"
proof -
  obtain u where "get_task g k = Some u" using assms(2) by (auto simp: set_task_Some_iff)
  then have k: "unat (slot_index k) < MAX_TASKS"
    "ts_slot_generation (gs_tasks g ! unat (slot_index k)) = slot_generation k"
    using table_ok_length [OF assms(1)] by (simp_all add: get_task_Some_iff)
  then show ?thesis
    using assms table_ok_upd [OF assms(1) k(1)] by (auto simp: set_task_Some_iff slot_ok_def)
qed

section \<open>Insertion\<close>

lemma insert_task_from_None: "insert_task_from i ss t = None \<longleftrightarrow> (\<forall>s \<in> set ss. ts_task s \<noteq> None)"
  by (induction i ss t rule: insert_task_from.induct) (auto simp: Let_def split: option.splits)

lemma insert_task_from_Some:
  assumes "insert_task_from i ss t = Some (k, ss')"
  shows "\<exists>j < length ss. ts_task (ss ! j) = None \<and> (\<forall>l < j. ts_task (ss ! l) \<noteq> None) \<and>
     k = \<lparr>slot_index = of_nat (i + j), slot_generation = ts_slot_generation (ss ! j)\<rparr> \<and>
     ss' = ss[j := (ss ! j)\<lparr>ts_task := Some (t\<lparr>t_id := k, t_state := Ready\<rparr>)\<rparr>]"
  using assms
proof (induction i ss t arbitrary: ss' rule: insert_task_from.induct)
  case (2 i slot slots task)
  show ?case
  proof (cases "ts_task slot")
    case None
    then show ?thesis using "2.prems" by (intro exI [of _ 0]) (auto simp: Let_def)
  next
    case (Some u)
    then obtain ss1 where r: "insert_task_from (i + 1) slots task = Some (k, ss1)" "ss' = slot # ss1"
      using "2.prems" by (auto split: option.splits)
    then obtain j where "j < length slots" "ts_task (slots ! j) = None" "\<forall>l < j. ts_task (slots ! l) \<noteq> None"
      "k = \<lparr>slot_index = of_nat (i + 1 + j), slot_generation = ts_slot_generation (slots ! j)\<rparr>"
      "ss1 = slots[j := (slots ! j)\<lparr>ts_task := Some (task\<lparr>t_id := k, t_state := Ready\<rparr>)\<rparr>]"
      using "2.IH" [of ss1] Some by auto
    then show ?thesis using r Some
      by (intro exI [of _ "Suc j"]) (auto simp: less_Suc_eq_0_disj add.commute add.left_commute)
  qed
qed simp

lemma insert_task_full: "insert_task g t = Inl e \<longleftrightarrow> e = TaskTableFull \<and> (\<forall>s \<in> set (gs_tasks g). ts_task s \<noteq> None)"
  using insert_task_from_None [of 0 "gs_tasks g" t]
  by (auto simp: insert_task_def split: option.splits)

lemma insert_task_slot:
  assumes "table_ok g" "insert_task g t = Inr (k, g')"
  obtains j where "j < MAX_TASKS" "ts_task (gs_tasks g ! j) = None" "unat (slot_index k) = j"
    "slot_generation k = ts_slot_generation (gs_tasks g ! j)"
    "\<forall>l < j. ts_task (gs_tasks g ! l) \<noteq> None"
    "g' = g\<lparr>gs_tasks := (gs_tasks g)[j := (gs_tasks g ! j)\<lparr>ts_task := Some (t\<lparr>t_id := k, t_state := Ready\<rparr>)\<rparr>]\<rparr>"
proof -
  obtain ss where ss: "insert_task_from 0 (gs_tasks g) t = Some (k, ss)" "g' = g\<lparr>gs_tasks := ss\<rparr>"
    using assms(2) by (auto simp: insert_task_def split: option.splits)
  then obtain j where j: "j < length (gs_tasks g)" "ts_task (gs_tasks g ! j) = None"
    "\<forall>l < j. ts_task (gs_tasks g ! l) \<noteq> None"
    "k = \<lparr>slot_index = of_nat j, slot_generation = ts_slot_generation (gs_tasks g ! j)\<rparr>"
    "ss = (gs_tasks g)[j := (gs_tasks g ! j)\<lparr>ts_task := Some (t\<lparr>t_id := k, t_state := Ready\<rparr>)\<rparr>]"
    using insert_task_from_Some [OF ss(1)] by auto
  moreover have "j < MAX_TASKS" using j(1) assms(1) by (simp add: table_ok_def)
  moreover have "unat (slot_index k) = j" using j(4) calculation(6) by (simp add: unat_of_nat MAX_TASKS_def)
  ultimately show thesis using that ss(2) by simp
qed

lemma insert_task_ok:
  assumes "table_ok g" "insert_task g t = Inr (k, g')"
  shows "table_ok g'" "get_task g k = None" "get_task g' k = Some (t\<lparr>t_id := k, t_state := Ready\<rparr>)"
    "\<And>k'. k' \<noteq> k \<Longrightarrow> get_task g' k' = get_task g k'"
proof -
  obtain j where j: "j < MAX_TASKS" "ts_task (gs_tasks g ! j) = None" "unat (slot_index k) = j"
    "slot_generation k = ts_slot_generation (gs_tasks g ! j)" "\<forall>l < j. ts_task (gs_tasks g ! l) \<noteq> None"
    "g' = g\<lparr>gs_tasks := (gs_tasks g)[j := (gs_tasks g ! j)\<lparr>ts_task := Some (t\<lparr>t_id := k, t_state := Ready\<rparr>)\<rparr>]\<rparr>"
    by (rule insert_task_slot [OF assms])
  have len: "length (gs_tasks g) = MAX_TASKS" using assms(1) by (simp add: table_ok_def)
  have k: "k = \<lparr>slot_index = of_nat j, slot_generation = ts_slot_generation (gs_tasks g ! j)\<rparr>"
    using j(3,4) by (cases k) auto
  show "table_ok g'" unfolding j(6) by (rule table_ok_upd [OF assms(1) j(1)]) (simp add: slot_ok_def k)
  show "get_task g k = None" using j by (simp add: get_task_def idx_def)
  show "get_task g' k = Some (t\<lparr>t_id := k, t_state := Ready\<rparr>)"
    using j len by (simp add: get_task_Some_iff)
  show "get_task g' k' = get_task g k'" if "k' \<noteq> k" for k'
  proof (cases "unat (slot_index k') = j")
    case True
    then have "slot_generation k' \<noteq> slot_generation k" using TaskId_neq_slot [OF that] j(3) by simp
    then show ?thesis using True j len by (auto simp: get_task_def idx_def)
  next
    case False
    then show ?thesis using j(6) by (simp add: get_task_def idx_def)
  qed
qed

section \<open>Removal\<close>

lemma remove_task_stale: "get_task g k = None \<Longrightarrow> remove_task g ths k = Some (g, ths, None)"
  by (simp add: remove_task_def)

lemma remove_task_live:
  assumes "table_ok g" "get_task g k = Some t" "ths (t_thread t) = Some th"
  obtains g' where "remove_task g ths k =
      Some (g', ths(t_thread t \<mapsto> th\<lparr>th_task_id := None, th_state := ThDead\<rparr>), Some t)"
    "table_ok g'" "get_task g' k = None" "\<And>k'. k' \<noteq> k \<Longrightarrow> get_task g' k' = get_task g k'"
    "ts_slot_generation (gs_tasks g' ! unat (slot_index k)) = slot_generation k + 1"
proof -
  let ?i = "unat (slot_index k)"
  let ?s = "(gs_tasks g ! ?i)\<lparr>ts_task := None, ts_slot_generation := ts_slot_generation (gs_tasks g ! ?i) + 1\<rparr>"
  let ?g = "g\<lparr>gs_tasks := (gs_tasks g)[?i := ?s]\<rparr>"
  have k: "?i < length (gs_tasks g)" "ts_slot_generation (gs_tasks g ! ?i) = slot_generation k"
    using assms(2) by (simp_all add: get_task_Some_iff)
  have "remove_task g ths k = Some (?g, ths(t_thread t \<mapsto> th\<lparr>th_task_id := None, th_state := ThDead\<rparr>), Some t)"
    using assms k by (simp add: remove_task_def Let_def)
  moreover have "table_ok ?g"
    using k table_ok_length [OF assms(1)] by (intro table_ok_upd [OF assms(1)]) (simp_all add: slot_ok_def)
  moreover have "get_task ?g k = None" using k by (simp add: get_task_def)
  moreover have "get_task ?g k' = get_task g k'" if "k' \<noteq> k" for k'
  proof (cases "unat (slot_index k') = ?i")
    case True
    then have "slot_generation k' \<noteq> slot_generation k" using TaskId_neq_slot [OF that] by simp
    then show ?thesis using True k by (simp add: get_task_def)
  next
    case False
    then show ?thesis by (simp add: get_task_def idx_def)
  qed
  moreover have "ts_slot_generation (gs_tasks ?g ! ?i) = slot_generation k + 1" using k by simp
  ultimately show thesis by (rule that)
qed

end
