(* ===== verification/Memory.thy ===== *)
theory Memory
  imports Prelude
begin

text \<open>
  Byte-addressed memory with the little-endian 64-bit accesses the kernel makes
  through raw pointers.  Addresses are 64-bit words and wrap.
\<close>

type_synonym memory = "u64 \<Rightarrow> u8"

definition read_u64 :: "memory \<Rightarrow> u64 \<Rightarrow> u64" where
  "read_u64 m a = ucast (m a) OR push_bit 8 (ucast (m (a + 1))) OR push_bit 16 (ucast (m (a + 2)))
     OR push_bit 24 (ucast (m (a + 3))) OR push_bit 32 (ucast (m (a + 4))) OR push_bit 40 (ucast (m (a + 5)))
     OR push_bit 48 (ucast (m (a + 6))) OR push_bit 56 (ucast (m (a + 7)))"

definition write_u64 :: "memory \<Rightarrow> u64 \<Rightarrow> u64 \<Rightarrow> memory" where
  "write_u64 m a v = (\<lambda>x. if unat (x - a) < 8 then ucast (drop_bit (8 * unat (x - a)) v) else m x)"

definition read_u32 :: "memory \<Rightarrow> u64 \<Rightarrow> u32" where
  "read_u32 m a = ucast (m a) OR push_bit 8 (ucast (m (a + 1))) OR push_bit 16 (ucast (m (a + 2)))
     OR push_bit 24 (ucast (m (a + 3)))"

text \<open>Zeroing n bytes from an address.\<close>

definition zero_bytes :: "memory \<Rightarrow> u64 \<Rightarrow> nat \<Rightarrow> memory" where
  "zero_bytes m a n = (\<lambda>x. if unat (x - a) < n then 0 else m x)"

text \<open>Two 8-byte cells that do not share a byte.\<close>

definition disj8 :: "u64 \<Rightarrow> u64 \<Rightarrow> bool" where
  "disj8 a b \<longleftrightarrow> 8 \<le> unat (b - a) \<and> 8 \<le> unat (a - b)"

lemma disj8_sym: "disj8 a b \<Longrightarrow> disj8 b a"
  by (simp add: disj8_def)

lemma unat_uminus: "x \<noteq> 0 \<Longrightarrow> unat (- x) = 2 ^ LENGTH('a) - unat (x :: 'a::len word)"
  by (metis add_0 diff_0 unat_0 unat_sub_if' le_zero_eq unat_eq_zero)

lemma disj8_byte:
  assumes "disj8 a b" "i < 8"
  shows "8 \<le> unat (b + of_nat i - a)"
proof -
  let ?x = "b - a"
  have x: "8 \<le> unat ?x" "8 \<le> unat (- ?x)" using assms(1) by (simp_all add: disj8_def)
  have "?x \<noteq> 0" using x(1) by auto
  then have "unat (- ?x) = 2 ^ 64 - unat ?x" using unat_uminus [of ?x] by simp
  then have le: "unat ?x + 8 \<le> 2 ^ 64" using x(2) unsigned_less [of ?x] by simp
  have "unat (?x + of_nat i) = unat ?x + i"
    using le assms(2) by (subst unat_add_lem [THEN iffD1]) (simp_all add: unat_of_nat)
  moreover have "b + of_nat i - a = ?x + of_nat i" by simp
  ultimately show ?thesis using x(1) by (metis trans_le_add1)
qed

lemma write_u64_byte: "8 \<le> unat (x - a) \<Longrightarrow> write_u64 m a v x = m x"
  by (simp add: write_u64_def)

lemma read_write_other:
  assumes "disj8 a b"
  shows "read_u64 (write_u64 m a v) b = read_u64 m b"
proof -
  have "write_u64 m a v (b + of_nat i) = m (b + of_nat i)" if "i < 8" for i
    using disj8_byte [OF assms that] by (rule write_u64_byte)
  from this [of 0] this [of 1] this [of 2] this [of 3] this [of 4] this [of 5] this [of 6] this [of 7]
  show ?thesis by (simp add: read_u64_def)
qed

lemma bytes_of_u64:
  "(ucast (ucast v :: u8) :: u64) OR push_bit 8 (ucast (ucast (drop_bit 8 v) :: u8))
     OR push_bit 16 (ucast (ucast (drop_bit 16 v) :: u8)) OR push_bit 24 (ucast (ucast (drop_bit 24 v) :: u8))
     OR push_bit 32 (ucast (ucast (drop_bit 32 v) :: u8)) OR push_bit 40 (ucast (ucast (drop_bit 40 v) :: u8))
     OR push_bit 48 (ucast (ucast (drop_bit 48 v) :: u8)) OR push_bit 56 (ucast (ucast (drop_bit 56 v) :: u8)) = v"
  (is "?w = v")
proof (rule bit_word_eqI)
  fix n assume "n < LENGTH(64)"
  then consider "n < 8" | "8 \<le> n" "n < 16" | "16 \<le> n" "n < 24" | "24 \<le> n" "n < 32"
    | "32 \<le> n" "n < 40" | "40 \<le> n" "n < 48" | "48 \<le> n" "n < 56" | "56 \<le> n" "n < 64"
    by fastforce
  then show "bit ?w n = bit v n" by cases (simp_all add: bit_simps less_diff_conv2)
qed

lemma read_write_same [simp]: "read_u64 (write_u64 m a v) a = v"
  using bytes_of_u64 [of v] by (simp add: read_u64_def write_u64_def)

lemma disj8I:
  assumes "unat a + 8 \<le> unat b" "unat b + 8 \<le> 2 ^ 64"
  shows "disj8 a b"
proof -
  have ba: "unat (b - a) = unat b - unat a" using assms(1) by (simp add: unat_sub word_le_nat_alt)
  have "b - a \<noteq> 0" using assms(1) by auto
  then have "unat (a - b) = 2 ^ 64 - unat (b - a)"
    using unat_uminus [of "b - a"] by simp
  then show ?thesis unfolding disj8_def using assms ba by linarith
qed

text \<open>Reads depend only on the bytes they cover.\<close>

definition same_bytes :: "u64 \<Rightarrow> nat \<Rightarrow> memory \<Rightarrow> memory \<Rightarrow> bool" where
  "same_bytes a n m m' \<longleftrightarrow> (\<forall>x. unat (x - a) < n \<longrightarrow> m x = m' x)"

lemma same_bytesD: "same_bytes a n m m' \<Longrightarrow> unat (x - a) < n \<Longrightarrow> m x = m' x"
  by (simp add: same_bytes_def)

lemma same_bytes_trans: "same_bytes a n m m' \<Longrightarrow> same_bytes a n m' m'' \<Longrightarrow> same_bytes a n m m''"
  by (simp add: same_bytes_def)

lemma read_u64_cong:
  assumes "same_bytes a n m m'" "unat k + 8 \<le> n" "n \<le> 2 ^ 63"
  shows "read_u64 m (a + k) = read_u64 m' (a + k)"
proof -
  have "m (a + k + of_nat i) = m' (a + k + of_nat i)" if "i < 8" for i
  proof (rule same_bytesD [OF assms(1)])
    have "unat (k + of_nat i) = unat k + i"
      using that assms(2,3) by (subst unat_add_lem [THEN iffD1]) (simp_all add: unat_of_nat)
    then show "unat (a + k + of_nat i - a) < n" using that assms(2) by (simp add: add.assoc)
  qed
  from this [of 0] this [of 1] this [of 2] this [of 3] this [of 4] this [of 5] this [of 6] this [of 7]
  show ?thesis by (simp add: read_u64_def add.assoc)
qed

text \<open>Two byte ranges that share no address.\<close>

definition disj_range :: "u64 \<Rightarrow> nat \<Rightarrow> u64 \<Rightarrow> nat \<Rightarrow> bool" where
  "disj_range a n b k \<longleftrightarrow> (\<forall>x. unat (x - a) < n \<longrightarrow> k \<le> unat (x - b))"

lemma disj_rangeI:
  assumes "n \<le> unat (b - a)" "k \<le> unat (a - b)" "a \<noteq> b"
  shows "disj_range a n b k"
  unfolding disj_range_def
proof (intro allI impI)
  fix x assume x: "unat (x - a) < n"
  have ne: "b - a \<noteq> 0" using assms(3) by auto
  have "unat (a - b) = 2 ^ 64 - unat (b - a)" using unat_uminus [OF ne] by simp
  moreover have "unat ((x - a) - (b - a)) = 2 ^ 64 + unat (x - a) - unat (b - a)"
    using x assms(1) by (subst unat_sub_if') simp
  moreover have "(x - a) - (b - a) = x - b" by simp
  moreover have "unat (b - a) < 2 ^ 64" using unsigned_less [of "b - a"] by simp
  ultimately show "k \<le> unat (x - b)" using assms(2) by simp
qed

text \<open>The halves of an 8-byte cell.\<close>

lemma byte_bit: "8 \<le> k \<Longrightarrow> bit (b :: u8) k = False"
  using bit_imp_le_length [of b k] by auto

lemma read_u32_low: "read_u32 m a = ucast (read_u64 m a)"
proof (rule bit_word_eqI)
  fix n assume "n < LENGTH(32)"
  then consider "n < 8" | "8 \<le> n" "n < 16" | "16 \<le> n" "n < 24" | "24 \<le> n" "n < 32" by fastforce
  then show "bit (read_u32 m a) n = bit (ucast (read_u64 m a) :: u32) n"
    by cases (simp_all add: read_u32_def read_u64_def bit_simps less_diff_conv2 byte_bit)
qed

lemma read_u32_high: "read_u32 m (a + 4) = ucast (drop_bit 32 (read_u64 m a))"
proof (rule bit_word_eqI)
  fix n assume "n < LENGTH(32)"
  then consider "n < 8" | "8 \<le> n" "n < 16" | "16 \<le> n" "n < 24" | "24 \<le> n" "n < 32" by fastforce
  then show "bit (read_u32 m (a + 4)) n = bit (ucast (drop_bit 32 (read_u64 m a)) :: u32) n"
    by cases (simp_all add: read_u32_def read_u64_def bit_simps add.assoc byte_bit less_diff_conv2)
qed

lemma read_u64_zero [simp]: "read_u64 (\<lambda>_. 0) a = 0"
  by (simp add: read_u64_def)

lemma zero_bytes_inside: "unat (x - a) < n \<Longrightarrow> zero_bytes m a n x = 0"
  by (simp add: zero_bytes_def)

end
