(* ===== verification/Switcher.thy ===== *)
theory Switcher
  imports Memory
begin

text \<open>
  The context switcher (task\_scheduler/switcher.rs) as a sequence of pushes and
  pops on a register file and memory, and the contract it gives the scheduler: a
  context that was switched out and whose frame is left alone resumes with its
  callee-saved registers, its stack pointer and its return address.
\<close>

record cpu_regs =
  r_rbp :: u64
  r_rbx :: u64
  r_r12 :: u64
  r_r13 :: u64
  r_r14 :: u64
  r_r15 :: u64
  r_rdi :: u64
  r_rsp :: u64
  r_rip :: u64
  r_cr3 :: u64
  r_cs :: u64
  r_ss :: u64
  r_rflags :: u64

definition push64 :: "u64 \<Rightarrow> memory \<times> u64 \<Rightarrow> memory \<times> u64" where
  "push64 v ms = (case ms of (m, sp) \<Rightarrow> (write_u64 m (sp - 8) v, sp - 8))"

text \<open>
  The function is entered with the return address on top of the outgoing stack.
  The first component of the result is the value stored through
  \<^verbatim>\<open>old_rsp_ptr\<close>, the saved stack pointer of the outgoing task.
\<close>

definition switch_to :: "memory \<Rightarrow> cpu_regs \<Rightarrow> u64 \<Rightarrow> u64 \<Rightarrow> u64 \<times> memory \<times> cpu_regs" where
  "switch_to m r new_rsp new_cr3 =
     (let (m1, sp1) = push64 (r_r15 r) (push64 (r_r14 r) (push64 (r_r13 r) (push64 (r_r12 r)
                        (push64 (r_rbx r) (push64 (r_rbp r) (m, r_rsp r))))));
          old_rsp = sp1;
          sp = new_rsp;
          cr3 = (if new_cr3 = 0 then r_cr3 r else new_cr3)
      in (old_rsp, m1,
          r\<lparr>r_r15 := read_u64 m1 sp, r_r14 := read_u64 m1 (sp + 8), r_r13 := read_u64 m1 (sp + 16),
            r_r12 := read_u64 m1 (sp + 24), r_rbx := read_u64 m1 (sp + 32), r_rbp := read_u64 m1 (sp + 40),
            r_rip := read_u64 m1 (sp + 48), r_rsp := sp + 56, r_cr3 := cr3\<rparr>))"

section \<open>Frames\<close>

text \<open>
  A resumable frame: the six saved registers from the saved stack pointer upwards
  and the return address above them.
\<close>

definition frame_at :: "memory \<Rightarrow> u64 \<Rightarrow> cpu_regs \<Rightarrow> u64 \<Rightarrow> bool" where
  "frame_at m s r ret \<longleftrightarrow> read_u64 m s = r_r15 r \<and> read_u64 m (s + 8) = r_r14 r \<and>
     read_u64 m (s + 16) = r_r13 r \<and> read_u64 m (s + 24) = r_r12 r \<and> read_u64 m (s + 32) = r_rbx r \<and>
     read_u64 m (s + 40) = r_rbp r \<and> read_u64 m (s + 48) = ret"

definition same_callee_saved :: "cpu_regs \<Rightarrow> cpu_regs \<Rightarrow> bool" where
  "same_callee_saved r r' \<longleftrightarrow> r_rbp r = r_rbp r' \<and> r_rbx r = r_rbx r' \<and> r_r12 r = r_r12 r' \<and>
     r_r13 r = r_r13 r' \<and> r_r14 r = r_r14 r' \<and> r_r15 r = r_r15 r'"

text \<open>Offsets of one frame are disjoint cells.\<close>

lemma disj8_sub:
  "8 \<le> unat (j - i) \<Longrightarrow> 8 \<le> unat (i - j) \<Longrightarrow> disj8 (s - i) (s - j)"
  "8 \<le> unat i \<Longrightarrow> 8 \<le> unat (- i) \<Longrightarrow> disj8 (s - i) s"
  by (simp_all add: disj8_def)

lemma disj8_add:
  "8 \<le> unat (j - i) \<Longrightarrow> 8 \<le> unat (i - j) \<Longrightarrow> disj8 (s + i) (s + j)"
  "8 \<le> unat i \<Longrightarrow> 8 \<le> unat (- i) \<Longrightarrow> disj8 (s + i) s"
  "8 \<le> unat i \<Longrightarrow> 8 \<le> unat (- i) \<Longrightarrow> disj8 s (s + i)"
  by (simp_all add: disj8_def)

text \<open>The six pushes as one memory.\<close>

definition push_frame :: "memory \<Rightarrow> cpu_regs \<Rightarrow> memory" where
  "push_frame m r = write_u64 (write_u64 (write_u64 (write_u64 (write_u64 (write_u64 m
      (r_rsp r - 8) (r_rbp r)) (r_rsp r - 16) (r_rbx r)) (r_rsp r - 24) (r_r12 r))
      (r_rsp r - 32) (r_r13 r)) (r_rsp r - 40) (r_r14 r)) (r_rsp r - 48) (r_r15 r)"

lemma switch_to_push_frame:
  "switch_to m r new_rsp new_cr3 = (old_rsp, m', r') \<Longrightarrow> old_rsp = r_rsp r - 48 \<and> m' = push_frame m r"
  by (auto simp: switch_to_def push64_def push_frame_def)

lemma push_frame_frame: "frame_at (push_frame m r) (r_rsp r - 48) r (read_u64 m (r_rsp r))"
proof -
  have ad: "r_rsp r - 48 + k = r_rsp r - (48 - k)" for k by simp
  show ?thesis
    unfolding frame_at_def ad by (simp add: push_frame_def read_write_other disj8_sub)
qed

lemma switch_to_saves:
  assumes "switch_to m r new_rsp new_cr3 = (old_rsp, m', r')"
  shows "old_rsp = r_rsp r - 48" and "frame_at m' old_rsp r (read_u64 m (r_rsp r))"
  using switch_to_push_frame [OF assms] push_frame_frame [of m r] by simp_all

lemma switch_to_restores:
  assumes "switch_to m r s cr3 = (old_rsp, m', r')" "frame_at m' s q ret"
  shows "same_callee_saved r' q" "r_rsp r' = s + 56" "r_rip r' = ret"
    "r_cr3 r' = (if cr3 = 0 then r_cr3 r else cr3)"
  using assms by (auto simp: switch_to_def frame_at_def same_callee_saved_def split_beta Let_def)

section \<open>Resuming a suspended context\<close>

lemma push_frame_byte:
  assumes "48 \<le> unat (x - (r_rsp r - 48))"
  shows "push_frame m r x = m x"
proof -
  let ?y = "x - (r_rsp r - 48)"
  have y: "unat (?y - c) = unat ?y - unat c" if "unat c \<le> 48" for c
    using that assms by (intro unat_sub) (unfold word_le_nat_alt, linarith)
  have d: "x - (r_rsp r - (48 - c)) = ?y - c" for c by simp
  have "8 \<le> unat (x - (r_rsp r - (48 - c)))" if "unat c \<le> 40" for c
    unfolding d using y [of c] that assms by linarith
  from this [of 0] this [of 8] this [of 16] this [of 24] this [of 32] this [of 40]
  show ?thesis by (simp add: push_frame_def write_u64_byte)
qed

lemma frame_at_cong:
  assumes "same_bytes s 56 m m'" "frame_at m s r ret"
  shows "frame_at m' s r ret"
proof -
  have "read_u64 m' (s + k) = read_u64 m (s + k)" if "unat k \<le> 48" for k
    using read_u64_cong [OF assms(1), of k] that by simp
  from this [of 0] this [of 8] this [of 16] this [of 24] this [of 32] this [of 40] this [of 48]
  show ?thesis using assms(2) by (simp add: frame_at_def)
qed

text \<open>
  C3: a context that is switched out and later switched back in resumes where it
  called the switcher: with the callee-saved registers it had, with the return
  address of its call taken from its stack, and with the stack pointer just above
  that return address.  The 56 bytes of its frame must not have changed in
  between, and the context that switches back must not have its stack over them.
\<close>

theorem switch_to_round_trip:
  assumes "switch_to m r new_rsp new_cr3 = (saved, m1, r1)"
    and "same_bytes saved 56 m1 m2"
    and "disj_range saved 56 (r_rsp q - 48) 48"
    and "switch_to m2 q saved back_cr3 = (saved', m3, r')"
  shows "same_callee_saved r' r \<and> r_rip r' = read_u64 m (r_rsp r) \<and> r_rsp r' = r_rsp r + 8"
proof -
  have "same_bytes saved 56 m2 m3"
    using assms(3) switch_to_push_frame [OF assms(4)] push_frame_byte [of _ q m2]
    by (auto simp: same_bytes_def disj_range_def)
  then have "frame_at m3 saved r (read_u64 m (r_rsp r))"
    using switch_to_saves [OF assms(1)] assms(2) frame_at_cong same_bytes_trans by blast
  then show ?thesis
    using switch_to_restores [OF assms(4)] switch_to_saves(1) [OF assms(1)] by simp
qed

definition demo_regs :: "u64 \<Rightarrow> cpu_regs" where
  "demo_regs sp = \<lparr>r_rbp = 1, r_rbx = 2, r_r12 = 3, r_r13 = 4, r_r14 = 5, r_r15 = 6, r_rdi = 0,
     r_rsp = sp, r_rip = 7, r_cr3 = 0, r_cs = 0, r_ss = 0, r_rflags = 0\<rparr>"

theorem switch_to_round_trip_witness:
  "\<exists>saved m1 r1 saved' m3 r'.
     switch_to (\<lambda>_. 0) (demo_regs 0x10000) 0x20000 0 = (saved, m1, r1) \<and>
     switch_to m1 (demo_regs 0x30000) saved 0 = (saved', m3, r') \<and>
     same_callee_saved r' (demo_regs 0x10000) \<and> r_rsp r' = 0x10008"
proof -
  obtain saved m1 r1 where 1: "switch_to (\<lambda>_. 0) (demo_regs 0x10000) 0x20000 0 = (saved, m1, r1)"
    by (metis prod_cases3)
  obtain saved' m3 r' where 2: "switch_to m1 (demo_regs 0x30000) saved 0 = (saved', m3, r')"
    by (metis prod_cases3)
  have s: "saved = 0xFFD0" using switch_to_push_frame [OF 1] by (simp add: demo_regs_def)
  have "disj_range saved 56 (r_rsp (demo_regs 0x30000) - 48) 48"
    by (rule disj_rangeI) (simp_all add: s demo_regs_def)
  then have "same_callee_saved r' (demo_regs 0x10000) \<and> r_rsp r' = 0x10008"
    using switch_to_round_trip [OF 1 _ _ 2] by (simp add: same_bytes_def demo_regs_def)
  then show ?thesis using 1 2 by blast
qed

end
