(* ===== verification/Helpers.thy ===== *)
theory Helpers
  imports Task_Types Switcher
begin

text \<open>
  Small helpers of helper\_functions.rs: saving and restoring the interrupt flag,
  and packing a task identifier into the single 64-bit argument of a system task.
\<close>

section \<open>Interrupt flag\<close>

definition IF_BIT :: nat where
  "IF_BIT = 9"

text \<open>Returns the flags before interrupts were disabled.\<close>

definition disable_interrupts_save :: "cpu_regs \<Rightarrow> u64 \<times> cpu_regs" where
  "disable_interrupts_save r = (r_rflags r, r\<lparr>r_rflags := unset_bit IF_BIT (r_rflags r)\<rparr>)"

definition restore_interrupts :: "u64 \<Rightarrow> cpu_regs \<Rightarrow> cpu_regs" where
  "restore_interrupts flags r = r\<lparr>r_rflags := flags\<rparr>"

lemma interrupts_round_trip:
  "disable_interrupts_save r = (flags, r') \<Longrightarrow> \<not> bit (r_rflags r') IF_BIT \<and> restore_interrupts flags r' = r"
  by (auto simp: disable_interrupts_save_def restore_interrupts_def bit_unset_bit_iff)

section \<open>Task identifiers as arguments\<close>

definition compress_task_id :: "TaskId \<Rightarrow> u64" where
  "compress_task_id task_id = slot_index task_id OR push_bit 56 (ucast (slot_generation task_id))"

definition expand_task_id :: "u64 \<Rightarrow> TaskId" where
  "expand_task_id encoded =
     \<lparr>slot_index = drop_bit 8 (push_bit 8 encoded), slot_generation = ucast (drop_bit (64 - 8) encoded)\<rparr>"

lemma unat_less_not_bit:
  assumes "unat (x::'a::len word) < 2 ^ k" "k \<le> n"
  shows "\<not> bit x n"
proof -
  have "unat (take_bit k x) = unat x" using assms(1) by (simp add: unsigned_take_bit_eq take_bit_nat_eq_self)
  then have "take_bit k x = x" by (rule unsigned_word_eqI)
  then show ?thesis using assms(2) by (metis bit_take_bit_iff leD)
qed

text \<open>
  C6: a task identifier whose slot index fits in 56 bits survives the packing
  into the argument of a system task and back, so the killed task is the intended one.
\<close>

theorem expand_compress_task_id:
  assumes "unat (slot_index k) < 2 ^ 56"
  shows "expand_task_id (compress_task_id k) = k"
proof -
  have hi: "n < 56" if "bit (slot_index k) n" for n
    using unat_less_not_bit [OF assms, of n] that by (meson not_le)
  have "drop_bit 8 (push_bit 8 (slot_index k OR push_bit 56 (ucast (slot_generation k)))) = slot_index k"
    by (rule bit_word_eqI) (auto simp: bit_simps dest: hi)
  moreover have "(ucast (drop_bit 56 (slot_index k OR push_bit 56 (ucast (slot_generation k)))) :: u8)
      = slot_generation k"
    by (rule bit_word_eqI) (auto simp: bit_simps dest: hi)
  ultimately show ?thesis
    by (simp add: expand_task_id_def compress_task_id_def)
qed

theorem expand_compress_task_id_witness:
  "expand_task_id (compress_task_id \<lparr>slot_index = 255, slot_generation = 200\<rparr>)
     = \<lparr>slot_index = 255, slot_generation = 200\<rparr>"
  by (rule expand_compress_task_id) simp

end
