(* ===== verification/Kernel_State.thy ===== *)
theory Kernel_State
  imports Per_Cpu Ready_Queue Reaper_Queues System_Task_Queue Sleep_Queue Task_Table Helpers
begin

text \<open>
  The state the scheduler, the reaper, the sleep queue and the timer interrupt
  share: the statics of the Rust sources, the store of threads, and the machine
  the code runs on.  The queues are behind spinlocks in the sources; each access
  below is one critical section.
\<close>

record PerCpuScheduler =
  pcs_queue :: PerCpuQueue
  pcs_current :: TaskId

definition PerCpuScheduler_new :: PerCpuScheduler where
  "PerCpuScheduler_new = \<lparr>pcs_queue = PerCpuQueue_new, pcs_current = TaskId_IDLE\<rparr>"

text \<open>Serial output: a message, or a label with a number.\<close>

datatype serial_msg = Msg string | MsgField string u64

record kstate =
  ks_global :: GlobalScheduler
  ks_cpu_scheduler :: "PerCpuScheduler PerCpu"
  ks_ticks_remaining :: "u32 PerCpu"
  ks_force_reschedule :: "bool PerCpu"
  ks_tss_rsp0 :: "u64 PerCpu"
  ks_sleep_queue :: SleepQueue
  ks_reaper_queue :: ReaperQueue
  ks_tombstone_queue :: TombstoneQueue
  ks_system_task_queue :: SystemTaskQueue
  ks_threads :: ThreadStore
  ks_timer_ticks :: u64
  ks_kernel_init_complete :: bool
  ks_cpu :: CpuId
  ks_regs :: cpu_regs
  ks_mem :: memory
  ks_freed_stacks :: "(u64 \<times> usize) list"
  ks_serial :: "serial_msg list"

text \<open>
  The fields: the task table, the per-CPU ready queues with the running task, the
  per-CPU quantum counters, the per-CPU reschedule flags and the ring-0 stack
  pointers of the task state segments; the four queues; the live threads; the tick
  counter and the flag that kernel initialisation is over; the CPU that executes,
  its registers and the memory.  The last two fields record effects: the stack
  allocations given back to the heap, newest first, and the serial output.
\<close>

definition sprint :: "serial_msg \<Rightarrow> kstate \<Rightarrow> kstate" where
  "sprint msg st = st\<lparr>ks_serial := ks_serial st @ [msg]\<rparr>"

section \<open>Access to the per-CPU scheduler\<close>

definition get_current_task_id :: "kstate \<Rightarrow> TaskId option" where
  "get_current_task_id st = do {
     cs \<leftarrow> PerCpu_get (ks_cpu_scheduler st) (ks_cpu st);
     Some (pcs_current cs)
   }"

text \<open>Push to and pop from the ready queue of a CPU.\<close>

definition rq_push :: "kstate \<Rightarrow> CpuId \<Rightarrow> TaskId \<Rightarrow> ((SchedulerError + unit) \<times> kstate) option" where
  "rq_push st cpu task_id = do {
     cs \<leftarrow> PerCpu_get (ks_cpu_scheduler st) cpu;
     r \<leftarrow> PerCpuQueue_push (pcs_queue cs) task_id;
     case r of
       Inl e \<Rightarrow> Some (Inl e, st)
     | Inr q \<Rightarrow> do {
         p \<leftarrow> PerCpu_set (ks_cpu_scheduler st) cpu (cs\<lparr>pcs_queue := q\<rparr>);
         Some (Inr (), st\<lparr>ks_cpu_scheduler := p\<rparr>)
       }
   }"

definition rq_pop :: "kstate \<Rightarrow> CpuId \<Rightarrow> (TaskId option \<times> kstate) option" where
  "rq_pop st cpu = do {
     cs \<leftarrow> PerCpu_get (ks_cpu_scheduler st) cpu;
     (r, q) \<leftarrow> PerCpuQueue_pop (pcs_queue cs);
     p \<leftarrow> PerCpu_set (ks_cpu_scheduler st) cpu (cs\<lparr>pcs_queue := q\<rparr>);
     Some (r, st\<lparr>ks_cpu_scheduler := p\<rparr>)
   }"

text \<open>The store of the running task of a CPU.\<close>

definition set_current :: "kstate \<Rightarrow> CpuId \<Rightarrow> TaskId \<Rightarrow> kstate option" where
  "set_current st cpu task_id = do {
     cs \<leftarrow> PerCpu_get (ks_cpu_scheduler st) cpu;
     p \<leftarrow> PerCpu_set (ks_cpu_scheduler st) cpu (cs\<lparr>pcs_current := task_id\<rparr>);
     Some (st\<lparr>ks_cpu_scheduler := p\<rparr>)
   }"

definition set_task_in :: "kstate \<Rightarrow> TaskId \<Rightarrow> Task \<Rightarrow> kstate option" where
  "set_task_in st task_id task = do {
     g \<leftarrow> set_task (ks_global st) task_id task;
     Some (st\<lparr>ks_global := g\<rparr>)
   }"

text \<open>The ready queue of the executing CPU, as a list, and its running task.\<close>

definition ready_list :: "kstate \<Rightarrow> CpuId \<Rightarrow> TaskId list" where
  "ready_list st cpu = (case PerCpu_get (ks_cpu_scheduler st) cpu of None \<Rightarrow> [] | Some cs \<Rightarrow> pcq_contents (pcs_queue cs))"

abbreviation task_of :: "kstate \<Rightarrow> TaskId \<Rightarrow> Task option" where
  "task_of st k \<equiv> get_task (ks_global st) k"

end
