(* ===== verification/Task_Create.thy ===== *)
theory Task_Create
  imports Task_Types Switcher
begin

text \<open>
  Construction of tasks (task\_scheduler/task.rs): the initial stack frames, the two
  entry trampolines, and the constructors of the idle task, of kernel tasks and of
  user tasks.  The address the allocator returned for the stack is an argument, as
  are the link-time addresses of the trampolines.
\<close>

definition TASK_STACK_SIZE :: usize where
  "TASK_STACK_SIZE = 16 * 1024"

definition USER_RFLAGS :: u64 where
  "USER_RFLAGS = push_bit 9 1 OR push_bit 1 1"

text \<open>Segment selectors of ring 3 (processor\_control/gdt.rs).\<close>

definition USER_DS_RPL3 :: u64 where
  "USER_DS_RPL3 = 0x2B"

definition USER_CS_RPL3 :: u64 where
  "USER_CS_RPL3 = 0x33"

section \<open>Initial frames\<close>

record KernelInitialFrame =
  kf_r15 :: u64
  kf_r14 :: u64
  kf_r13 :: u64
  kf_r12 :: u64
  kf_rbx :: u64
  kf_rbp :: u64
  kf_rip :: u64

definition KernelInitialFrame_size :: usize where
  "KernelInitialFrame_size = 7 * 8"

definition write_KernelInitialFrame :: "memory \<Rightarrow> u64 \<Rightarrow> KernelInitialFrame \<Rightarrow> memory" where
  "write_KernelInitialFrame m p f =
     write_u64 (write_u64 (write_u64 (write_u64 (write_u64 (write_u64 (write_u64 m
       p (kf_r15 f)) (p + 8) (kf_r14 f)) (p + 16) (kf_r13 f)) (p + 24) (kf_r12 f))
       (p + 32) (kf_rbx f)) (p + 40) (kf_rbp f)) (p + 48) (kf_rip f)"

record UserInitialFrame = KernelInitialFrame +
  uf_iretq_rip :: u64
  uf_iretq_cs :: u64
  uf_iretq_rflags :: u64
  uf_iretq_rsp :: u64
  uf_iretq_ss :: u64

definition UserInitialFrame_size :: usize where
  "UserInitialFrame_size = 12 * 8"

definition write_UserInitialFrame :: "memory \<Rightarrow> u64 \<Rightarrow> UserInitialFrame \<Rightarrow> memory" where
  "write_UserInitialFrame m p f =
     write_u64 (write_u64 (write_u64 (write_u64 (write_u64
       (write_KernelInitialFrame m p (KernelInitialFrame.truncate f))
       (p + 56) (uf_iretq_rip f)) (p + 64) (uf_iretq_cs f)) (p + 72) (uf_iretq_rflags f))
       (p + 80) (uf_iretq_rsp f)) (p + 88) (uf_iretq_ss f)"

section \<open>Entry trampolines\<close>

text \<open>
  The trampoline of kernel tasks up to the call of the entry function;
  \<^verbatim>\<open>after_call\<close> is the address of the instruction behind the call.
\<close>

definition task_entry_stub :: "u64 \<Rightarrow> memory \<Rightarrow> cpu_regs \<Rightarrow> memory \<times> cpu_regs" where
  "task_entry_stub after_call m r =
     (let r = r\<lparr>r_rflags := r_rflags r OR push_bit 9 1\<rparr>;
          r = r\<lparr>r_rdi := r_r13 r\<rparr>;
          (m', sp) = push64 after_call (m, r_rsp r)
      in (m', r\<lparr>r_rsp := sp, r_rip := r_r12 r\<rparr>))"

text \<open>The trampoline of user tasks: enable interrupts and return to ring 3.\<close>

definition user_task_entry_stub :: "memory \<Rightarrow> cpu_regs \<Rightarrow> cpu_regs" where
  "user_task_entry_stub m r =
     (let r = r\<lparr>r_rflags := r_rflags r OR push_bit 9 1\<rparr>;
          sp = r_rsp r in
      r\<lparr>r_rip := read_u64 m sp, r_cs := read_u64 m (sp + 8), r_rflags := read_u64 m (sp + 16),
        r_rsp := read_u64 m (sp + 24), r_ss := read_u64 m (sp + 32)\<rparr>)"

section \<open>Constructors\<close>

definition Task_new_idle :: "ThreadRef \<Rightarrow> u64 \<Rightarrow> memory \<Rightarrow> Task \<times> memory" where
  "Task_new_idle thread base m =
     (\<lparr>t_id = TaskId_IDLE, t_state = Running, t_saved_rsp = 0, t_kernel_stack_top = 0,
       t_is_user_task = False, t_cr3 = 0, t_ticks_remaining = TASK_QUANTUM_TICKS,
       t_ticks_executed = 0, t_thread = thread, t_stack_base = base, t_stack_size = 16\<rparr>,
      zero_bytes m base 16)"

definition Task_new_kernel ::
  "u64 \<Rightarrow> u64 \<Rightarrow> u64 \<Rightarrow> ThreadRef \<Rightarrow> u64 \<Rightarrow> memory \<Rightarrow> Task \<times> memory" where
  "Task_new_kernel stub_addr entry arg thread base m =
     (let m = zero_bytes m base (unat TASK_STACK_SIZE);
          stack_top = (base + TASK_STACK_SIZE) AND NOT 0xF;
          frame_ptr = (stack_top - KernelInitialFrame_size) AND NOT 0xF;
          m = write_KernelInitialFrame m frame_ptr
                \<lparr>kf_r15 = 0, kf_r14 = 0, kf_r13 = arg, kf_r12 = entry, kf_rbx = 0, kf_rbp = 0,
                 kf_rip = stub_addr\<rparr>;
          saved_rsp = frame_ptr
      in (\<lparr>t_id = TaskId_PENDING, t_state = Ready, t_saved_rsp = saved_rsp,
           t_kernel_stack_top = stack_top, t_is_user_task = False, t_cr3 = 0,
           t_ticks_remaining = TASK_QUANTUM_TICKS, t_ticks_executed = 0, t_thread = thread,
           t_stack_base = base, t_stack_size = TASK_STACK_SIZE\<rparr>, m))"

definition Task_new_user ::
  "u64 \<Rightarrow> u64 \<Rightarrow> u64 \<Rightarrow> u64 \<Rightarrow> ThreadRef \<Rightarrow> u64 \<Rightarrow> memory \<Rightarrow> Task \<times> memory" where
  "Task_new_user stub_addr user_entry user_stack_top pml4_phys thread base m =
     (let m = zero_bytes m base (unat TASK_STACK_SIZE);
          kernel_stack_top = (base + TASK_STACK_SIZE) AND NOT 0xF;
          frame_ptr = (kernel_stack_top - UserInitialFrame_size) AND NOT 0xF;
          m = write_UserInitialFrame m frame_ptr
                \<lparr>kf_r15 = 0, kf_r14 = 0, kf_r13 = 0, kf_r12 = 0, kf_rbx = 0, kf_rbp = 0,
                 kf_rip = stub_addr, uf_iretq_rip = user_entry, uf_iretq_cs = USER_CS_RPL3,
                 uf_iretq_rflags = USER_RFLAGS, uf_iretq_rsp = user_stack_top,
                 uf_iretq_ss = USER_DS_RPL3\<rparr>
      in (\<lparr>t_id = TaskId_PENDING, t_state = Ready, t_saved_rsp = frame_ptr,
           t_kernel_stack_top = kernel_stack_top, t_is_user_task = True, t_cr3 = pml4_phys,
           t_ticks_remaining = TASK_QUANTUM_TICKS, t_ticks_executed = 0, t_thread = thread,
           t_stack_base = base, t_stack_size = TASK_STACK_SIZE\<rparr>, m))"

section \<open>Geometry of the frames\<close>

lemma aligned_top:
  assumes "unat base + 16384 < 2 ^ 64"
  defines "tp \<equiv> (base + TASK_STACK_SIZE) AND NOT 0xF"
  shows "unat tp mod 16 = 0" "unat base + 16368 < unat tp" "unat tp \<le> unat base + 16384"
proof -
  have "unat (base + TASK_STACK_SIZE) = unat base + 16384"
    using assms(1) by (subst unat_add_lem [THEN iffD1]) (simp_all add: TASK_STACK_SIZE_def)
  then have tp: "unat tp = unat base + 16384 - (unat base + 16384) mod 16"
    by (simp only: tp_def unat_and_not_15)
  show "unat tp mod 16 = 0" unfolding tp by (metis minus_mod_eq_mult_div mod_mult_self1_is_0)
  show "unat base + 16368 < unat tp" "unat tp \<le> unat base + 16384"
    unfolding tp using mod_less_divisor [of 16 "unat base + 16384"] by linarith+
qed

lemma aligned_frame:
  assumes "unat t mod 16 = 0" "16 * j \<le> unat (t::u64)" "unat s + e = 16 * j" "e < 16"
  shows "unat ((t - s) AND NOT 0xF) = unat t - 16 * j"
proof -
  obtain k where k: "unat t = 16 * k" using assms(1) by (metis mod_0_imp_dvd dvdE)
  have "unat (t - s) = unat t - unat s" using assms by (subst unat_sub) (simp_all add: word_le_nat_alt)
  then have ts: "unat (t - s) = 16 * (k - j) + e" using assms k by simp
  show ?thesis unfolding unat_and_not_15 ts using assms(4) k by simp
qed

lemma KernelInitialFrame_reads:
  "frame_at (write_KernelInitialFrame m p f) p
     (q\<lparr>r_r15 := kf_r15 f, r_r14 := kf_r14 f, r_r13 := kf_r13 f, r_r12 := kf_r12 f,
        r_rbx := kf_rbx f, r_rbp := kf_rbp f\<rparr>) (kf_rip f)"
  by (simp add: frame_at_def write_KernelInitialFrame_def read_write_other disj8_add)

lemma Task_new_kernel_geometry:
  assumes "unat base + 16384 < 2 ^ 64" "Task_new_kernel stub entry arg th base m = (t, m1)"
  shows "unat base \<le> unat (t_saved_rsp t)" "unat (t_saved_rsp t) + 64 = unat (t_kernel_stack_top t)"
    "unat (t_kernel_stack_top t) \<le> unat base + 16384" "unat (t_kernel_stack_top t) mod 16 = 0"
proof -
  let ?top = "(base + TASK_STACK_SIZE) AND NOT 0xF"
  note tp = aligned_top [OF assms(1)]
  have "t_kernel_stack_top t = ?top" "t_saved_rsp t = (?top - KernelInitialFrame_size) AND NOT 0xF"
    using assms(2) by (auto simp: Task_new_kernel_def Let_def)
  moreover have "unat ((?top - KernelInitialFrame_size) AND NOT 0xF) = unat ?top - 64"
    using aligned_frame [of ?top 4 KernelInitialFrame_size 8] tp by (simp add: KernelInitialFrame_size_def)
  ultimately show "unat base \<le> unat (t_saved_rsp t)" "unat (t_saved_rsp t) + 64 = unat (t_kernel_stack_top t)"
    "unat (t_kernel_stack_top t) \<le> unat base + 16384" "unat (t_kernel_stack_top t) mod 16 = 0"
    using tp by simp_all
qed

lemma Task_new_kernel_frame:
  assumes "Task_new_kernel stub entry arg th base m = (t, m1)"
  shows "frame_at m1 (t_saved_rsp t)
     (q\<lparr>r_r15 := 0, r_r14 := 0, r_r13 := arg, r_r12 := entry, r_rbx := 0, r_rbp := 0\<rparr>) stub"
  using assms KernelInitialFrame_reads
    [of _ _ "\<lparr>kf_r15 = 0, kf_r14 = 0, kf_r13 = arg, kf_r12 = entry, kf_rbx = 0, kf_rbp = 0, kf_rip = stub\<rparr>" q]
  by (auto simp: Task_new_kernel_def Let_def)

text \<open>Resuming any context whose frame is intact.\<close>

lemma switch_to_frame:
  assumes "frame_at m1 s f ret" "same_bytes s 56 m1 m2" "disj_range s 56 (r_rsp q - 48) 48"
    "switch_to m2 q s cr3 = (old, m3, r1)"
  shows "same_callee_saved r1 f" "r_rsp r1 = s + 56" "r_rip r1 = ret"
    "r_cr3 r1 = (if cr3 = 0 then r_cr3 q else cr3)" "same_bytes s 56 m2 m3"
proof -
  show b: "same_bytes s 56 m2 m3"
    using assms(3) switch_to_push_frame [OF assms(4)] push_frame_byte [of _ q m2]
    by (auto simp: same_bytes_def disj_range_def)
  have "frame_at m3 s f ret" using assms(1,2) b frame_at_cong same_bytes_trans by blast
  then show "same_callee_saved r1 f" "r_rsp r1 = s + 56" "r_rip r1 = ret"
    "r_cr3 r1 = (if cr3 = 0 then r_cr3 q else cr3)"
    using switch_to_restores [OF assms(4)] by simp_all
qed



section \<open>User tasks\<close>

lemma UserInitialFrame_reads:
  fixes f :: UserInitialFrame and p m
  defines "m' \<equiv> write_UserInitialFrame m p f"
  shows "frame_at m' p (q\<lparr>r_r15 := kf_r15 f, r_r14 := kf_r14 f, r_r13 := kf_r13 f,
           r_r12 := kf_r12 f, r_rbx := kf_rbx f, r_rbp := kf_rbp f\<rparr>) (kf_rip f)"
    and "read_u64 m' (p + 56) = uf_iretq_rip f" "read_u64 m' (p + 64) = uf_iretq_cs f"
    "read_u64 m' (p + 72) = uf_iretq_rflags f" "read_u64 m' (p + 80) = uf_iretq_rsp f"
    "read_u64 m' (p + 88) = uf_iretq_ss f"
  by (simp_all add: m'_def frame_at_def write_UserInitialFrame_def write_KernelInitialFrame_def
        KernelInitialFrame.truncate_def read_write_other disj8_add)

lemma Task_new_user_geometry:
  assumes "unat base + 16384 < 2 ^ 64" "Task_new_user stub entry ustk pml4 th base m = (t, m1)"
  shows "unat base \<le> unat (t_saved_rsp t)" "unat (t_saved_rsp t) + 96 = unat (t_kernel_stack_top t)"
    "unat (t_kernel_stack_top t) \<le> unat base + 16384" "unat (t_kernel_stack_top t) mod 16 = 0"
proof -
  let ?top = "(base + TASK_STACK_SIZE) AND NOT 0xF"
  note tp = aligned_top [OF assms(1)]
  have "t_kernel_stack_top t = ?top" "t_saved_rsp t = (?top - UserInitialFrame_size) AND NOT 0xF"
    using assms(2) by (auto simp: Task_new_user_def Let_def)
  moreover have "unat ((?top - UserInitialFrame_size) AND NOT 0xF) = unat ?top - 96"
    using aligned_frame [of ?top 6 UserInitialFrame_size 0] tp by (simp add: UserInitialFrame_size_def)
  ultimately show "unat base \<le> unat (t_saved_rsp t)" "unat (t_saved_rsp t) + 96 = unat (t_kernel_stack_top t)"
    "unat (t_kernel_stack_top t) \<le> unat base + 16384" "unat (t_kernel_stack_top t) mod 16 = 0"
    using tp by simp_all
qed

lemma Task_new_user_frame:
  assumes "Task_new_user stub entry ustk pml4 th base m = (t, m1)"
  shows "frame_at m1 (t_saved_rsp t)
     (q\<lparr>r_r15 := 0, r_r14 := 0, r_r13 := 0, r_r12 := 0, r_rbx := 0, r_rbp := 0\<rparr>) stub"
    "read_u64 m1 (t_saved_rsp t + 56) = entry" "read_u64 m1 (t_saved_rsp t + 64) = USER_CS_RPL3"
    "read_u64 m1 (t_saved_rsp t + 72) = USER_RFLAGS" "read_u64 m1 (t_saved_rsp t + 80) = ustk"
    "read_u64 m1 (t_saved_rsp t + 88) = USER_DS_RPL3"
proof -
  let ?f = "\<lparr>kf_r15 = 0, kf_r14 = 0, kf_r13 = 0, kf_r12 = 0, kf_rbx = 0, kf_rbp = 0, kf_rip = stub,
    uf_iretq_rip = entry, uf_iretq_cs = USER_CS_RPL3, uf_iretq_rflags = USER_RFLAGS,
    uf_iretq_rsp = ustk, uf_iretq_ss = USER_DS_RPL3\<rparr>"
  obtain m0 where m1: "m1 = write_UserInitialFrame m0 (t_saved_rsp t) ?f"
    using assms by (auto simp: Task_new_user_def Let_def)
  show "frame_at m1 (t_saved_rsp t)
     (q\<lparr>r_r15 := 0, r_r14 := 0, r_r13 := 0, r_r12 := 0, r_rbx := 0, r_rbp := 0\<rparr>) stub"
    "read_u64 m1 (t_saved_rsp t + 56) = entry" "read_u64 m1 (t_saved_rsp t + 64) = USER_CS_RPL3"
    "read_u64 m1 (t_saved_rsp t + 72) = USER_RFLAGS" "read_u64 m1 (t_saved_rsp t + 80) = ustk"
    "read_u64 m1 (t_saved_rsp t + 88) = USER_DS_RPL3"
    unfolding m1 using UserInitialFrame_reads(1) [where f = ?f and m = m0 and p = "t_saved_rsp t" and q = q]
      UserInitialFrame_reads(2-) [where f = ?f and m = m0 and p = "t_saved_rsp t"] by simp_all
qed

lemma same_bytes_le: "same_bytes a n m m' \<Longrightarrow> k \<le> n \<Longrightarrow> same_bytes a k m m'"
  by (simp add: same_bytes_def)

lemma disj_range_le: "disj_range a n b k \<Longrightarrow> j \<le> n \<Longrightarrow> disj_range a j b k"
  by (simp add: disj_range_def)

text \<open>
  C5: the first time a new user task is switched to, its page table root is
  loaded, control reaches the user trampoline, and the interrupt return there
  enters ring 3: at the entry point, with the ring-3 code and stack selectors,
  with interrupts enabled and with the stack pointer at the top of the user stack.
\<close>

theorem new_user_first_run:
  assumes "Task_new_user stub entry ustk pml4 th base m = (t, m1)" "pml4 \<noteq> 0"
    and "same_bytes (t_saved_rsp t) 96 m1 m2"
    and "disj_range (t_saved_rsp t) 96 (r_rsp q - 48) 48"
    and "switch_to m2 q (t_saved_rsp t) (t_cr3 t) = (old, m3, r1)"
  shows "r_rip r1 = stub \<and> r_cr3 r1 = pml4 \<and>
    (let u = user_task_entry_stub m3 r1 in r_rip u = entry \<and> r_rsp u = ustk \<and> r_cs u = 0x33 \<and>
       r_ss u = 0x2B \<and> bit (r_rflags u) 9 \<and> r_cr3 u = pml4)"
proof -
  note fr = Task_new_user_frame [OF assms(1)]
  note r1 = switch_to_frame [OF fr(1) same_bytes_le [OF assms(3)] disj_range_le [OF assms(4)] assms(5)]
  have "t_cr3 t = pml4" using assms(1) by (auto simp: Task_new_user_def Let_def)
  then have sw: "r_rip r1 = stub" "r_cr3 r1 = pml4" "r_rsp r1 = t_saved_rsp t + 56"
    using r1 assms(2) by simp_all
  have "same_bytes (t_saved_rsp t) 96 m2 m3"
    using assms(4) switch_to_push_frame [OF assms(5)] push_frame_byte [of _ q m2]
    by (auto simp: same_bytes_def disj_range_def)
  then have "same_bytes (t_saved_rsp t) 96 m1 m3" by (rule same_bytes_trans [OF assms(3)])
  then have rd: "read_u64 m3 (t_saved_rsp t + k) = read_u64 m1 (t_saved_rsp t + k)" if "unat k \<le> 88" for k
    using read_u64_cong [of "t_saved_rsp t" 96 m1 m3 k] that by simp
  show ?thesis
    using sw rd [of 56] rd [of 64] rd [of 72] rd [of 80] rd [of 88] fr
    by (simp add: user_task_entry_stub_def Let_def add.assoc USER_CS_RPL3_def USER_DS_RPL3_def USER_RFLAGS_def bit_simps)
qed

theorem new_user_first_run_witness:
  "\<exists>t m1 old m3 r1. Task_new_user 0x5000 0x400000 0x800000 0x7000 0 0x100000 (\<lambda>_. 0) = (t, m1) \<and>
     switch_to m1 (demo_regs 0x30000) (t_saved_rsp t) (t_cr3 t) = (old, m3, r1) \<and>
     r_rip (user_task_entry_stub m3 r1) = 0x400000 \<and> r_cs (user_task_entry_stub m3 r1) = 0x33"
proof -
  obtain t m1 where 1: "Task_new_user 0x5000 0x400000 0x800000 0x7000 0 0x100000 (\<lambda>_. 0) = (t, m1)" by fastforce
  obtain old m3 r1 where 2: "switch_to m1 (demo_regs 0x30000) (t_saved_rsp t) (t_cr3 t) = (old, m3, r1)"
    by (metis prod_cases3)
  have "t_saved_rsp t = 0x103FA0"
    using 1 by (auto simp: Task_new_user_def TASK_STACK_SIZE_def UserInitialFrame_size_def Let_def)
  then have "disj_range (t_saved_rsp t) 96 (r_rsp (demo_regs 0x30000) - 48) 48"
    by (intro disj_rangeI) (simp_all add: demo_regs_def)
  then show ?thesis
    using new_user_first_run [OF 1 _ _ _ 2] 1 2 by (force simp: same_bytes_def Let_def)
qed

end
