(* ===== verification/Scheduler.thy ===== *)
theory Scheduler
  imports Kernel_State Task_Create
begin

text \<open>
  The scheduler's operations (task\_scheduler/scheduler.rs, the exit path of
  task\_scheduler/task.rs): initialisation, insertion, the context switch, the timer
  tick, blocking, waking, killing and sleeping.  Every operation is a function on
  the kernel state; \<^term>\<open>None\<close> is a panic.
\<close>

definition BSP :: CpuId where
  "BSP = 0"

section \<open>Initialisation and insertion\<close>

text \<open>The stack placeholder of the idle task is the allocation at \<^verbatim>\<open>base\<close>.\<close>

definition init_idle :: "kstate \<Rightarrow> ThreadRef \<Rightarrow> u64 \<Rightarrow> kstate option" where
  "init_idle st thread base = do {
     let cpu = ks_cpu st;
     sched \<leftarrow> PerCpu_init (ks_cpu_scheduler st) cpu PerCpuScheduler_new;
     ticks \<leftarrow> PerCpu_init (ks_ticks_remaining st) cpu TASK_QUANTUM_TICKS;
     force \<leftarrow> PerCpu_init (ks_force_reschedule st) cpu False;
     let (idle_task, m) = Task_new_idle thread base (ks_mem st);
     g \<leftarrow> insert_idle_task (ks_global st) idle_task;
     set_current (st\<lparr>ks_cpu_scheduler := sched, ks_ticks_remaining := ticks,
                    ks_force_reschedule := force, ks_mem := m, ks_global := g\<rparr>) cpu TaskId_IDLE
   }"

definition insert_and_queue_task :: "kstate \<Rightarrow> Task \<Rightarrow> ((SchedulerError + TaskId) \<times> kstate) option" where
  "insert_and_queue_task st task =
     (case insert_task (ks_global st) task of
        Inl e \<Rightarrow> Some (Inl e, st)
      | Inr (task_id, g) \<Rightarrow> do {
          (r, st) \<leftarrow> rq_push (st\<lparr>ks_global := g\<rparr>) BSP task_id;
          case r of Inl _ \<Rightarrow> None | Inr _ \<Rightarrow> Some (Inr task_id, st)
        })"

section \<open>The context switch\<close>

text \<open>
  The candidate loop: pop until an identifier resolves to a Ready task, which is
  marked Running; the idle task when the queue runs out.
\<close>

definition rq_len :: "kstate \<Rightarrow> CpuId \<Rightarrow> nat" where
  "rq_len st cpu = (case PerCpu_get (ks_cpu_scheduler st) cpu of None \<Rightarrow> 0 | Some cs \<Rightarrow> pcq_queue_len (pcs_queue cs))"

lemma rq_pop_less: "rq_pop st cpu = Some (Some k, st') \<Longrightarrow> rq_len st' cpu < rq_len st cpu"
  by (auto simp: rq_pop_def rq_len_def bind_eq_Some_conv PerCpuQueue_pop_def per_cpu_cells.get_put_same
      split: if_splits option.splits)

function pick_next :: "kstate \<Rightarrow> CpuId \<Rightarrow> (TaskId \<times> kstate) option" where
  "pick_next st cpu =
     (case rq_pop st cpu of
        None \<Rightarrow> None
      | Some (None, st') \<Rightarrow> Some (TaskId_IDLE, st')
      | Some (Some candidate, st') \<Rightarrow>
          (case get_task (ks_global st') candidate of
             Some task \<Rightarrow>
               if t_state task = Ready then do {
                 st'' \<leftarrow> set_task_in st' candidate (task\<lparr>t_state := Running\<rparr>);
                 Some (candidate, st'')
               } else pick_next st' cpu
           | None \<Rightarrow> pick_next st' cpu))"
  by pat_completeness auto
termination by (relation "measure (\<lambda>(st, cpu). rq_len st cpu)") (auto intro: rq_pop_less)

declare pick_next.simps [simp del]

text \<open>The outgoing task, when it is still Running, goes back to the tail of the queue.\<close>

definition requeue_outgoing :: "kstate \<Rightarrow> CpuId \<Rightarrow> TaskId \<Rightarrow> kstate option" where
  "requeue_outgoing st cpu outgoing_id =
     (case get_task (ks_global st) outgoing_id of
        None \<Rightarrow> Some st
      | Some outgoing \<Rightarrow>
          if t_state outgoing = Running then do {
            st \<leftarrow> set_task_in st outgoing_id (outgoing\<lparr>t_state := Ready\<rparr>);
            let queue_idle = \<not> ks_kernel_init_complete st;
            if outgoing_id \<noteq> TaskId_IDLE \<or> queue_idle then do {
              (r, st) \<leftarrow> rq_push st cpu outgoing_id;
              case r of
                Inl _ \<Rightarrow> Some (sprint (Msg (nl @ ''[SCHEDULER] Failed to re-enqueue outgoing '' @ nl @ replicate 32 (CHR '' '')
                             @ ''task: ready queue full'' @ nl)) st)
              | Inr _ \<Rightarrow> Some st
            } else Some st
          } else Some st)"

definition set_kernel_stack :: "kstate \<Rightarrow> u64 \<Rightarrow> kstate option" where
  "set_kernel_stack st stack_top = do {
     tss \<leftarrow> PerCpu_set (ks_tss_rsp0 st) (ks_cpu st) stack_top;
     Some (st\<lparr>ks_tss_rsp0 := tss\<rparr>)
   }"

text \<open>
  The outcome: control returned to the caller without a switch, or control is in
  the context of the incoming task (whose own call then restores its flags).
  The registers of the state are those at the entry of the switcher.
\<close>

datatype sched_result = NoSwitch | Switched

lemma case_sched_result_Some_conv [some_conv]:
  "(case x of NoSwitch \<Rightarrow> f | Switched \<Rightarrow> g) = Some y \<longleftrightarrow> (x = NoSwitch \<and> f = Some y) \<or> (x = Switched \<and> g = Some y)"
  by (cases x) auto

definition schedule :: "kstate \<Rightarrow> (sched_result \<times> kstate) option" where
  "schedule st = do {
     let st = st\<lparr>ks_regs := snd (disable_interrupts_save (ks_regs st))\<rparr>;
     let cpu = ks_cpu st;
     (next_id, st) \<leftarrow> pick_next st cpu;
     cs \<leftarrow> PerCpu_get (ks_cpu_scheduler st) cpu;
     let outgoing_id = pcs_current cs;
     st \<leftarrow> requeue_outgoing st cpu outgoing_id;
     st \<leftarrow> set_current st cpu next_id;
     let outgoing_task = get_task (ks_global st) outgoing_id;
     next_task \<leftarrow> get_task (ks_global st) next_id;
     st \<leftarrow> (if t_is_user_task next_task then set_kernel_stack st (t_kernel_stack_top next_task) else Some st);
     let new_rsp = t_saved_rsp next_task;
     let new_cr3 = t_cr3 next_task;
     ticks \<leftarrow> PerCpu_set (ks_ticks_remaining st) cpu (t_ticks_remaining next_task);
     let st = st\<lparr>ks_ticks_remaining := ticks\<rparr>;
     case outgoing_task of
       None \<Rightarrow> Some (NoSwitch, sprint (Msg (nl @ ''[SCHEDULER] Outgoing old RSP pointer is null...'' @ nl)) st)
     | Some outgoing \<Rightarrow>
         if new_rsp = 0
         then Some (NoSwitch, sprint (Msg (nl @ ''[SCHEDULER] Incoming new RSP is zero...'' @ nl)) st)
         else do {
           let (old_rsp, m, regs) = switch_to (ks_mem st) (ks_regs st) new_rsp new_cr3;
           st \<leftarrow> set_task_in st outgoing_id (outgoing\<lparr>t_saved_rsp := old_rsp\<rparr>);
           Some (Switched, st\<lparr>ks_mem := m, ks_regs := regs\<rparr>)
         }
   }"

section \<open>Blocking and waking\<close>

text \<open>Give a task a fresh quantum and mark it and its thread as waiting.\<close>

definition block_task :: "kstate \<Rightarrow> TaskId \<Rightarrow> kstate option" where
  "block_task st current_id =
     (case get_task (ks_global st) current_id of
        None \<Rightarrow> Some st
      | Some task \<Rightarrow> do {
          st \<leftarrow> set_task_in st current_id
                  (task\<lparr>t_ticks_remaining := TASK_QUANTUM_TICKS, t_state := Blocked\<rparr>);
          ths \<leftarrow> set_thread_state (ks_threads st) (t_thread task) ThWaiting;
          Some (st\<lparr>ks_threads := ths\<rparr>)
        })"

definition yield_blocked :: "kstate \<Rightarrow> (sched_result \<times> kstate) option" where
  "yield_blocked st = do {
     current_id \<leftarrow> get_current_task_id st;
     st \<leftarrow> block_task st current_id;
     schedule st
   }"

definition wake :: "kstate \<Rightarrow> TaskId \<Rightarrow> ((SchedulerError + unit) \<times> kstate) option" where
  "wake st task_id =
     (case get_task (ks_global st) task_id of
        None \<Rightarrow> Some (Inl UnknownTask, st)
      | Some task \<Rightarrow>
          if t_state task = Blocked then do {
            st \<leftarrow> set_task_in st task_id (task\<lparr>t_state := Ready\<rparr>);
            ths \<leftarrow> set_thread_state (ks_threads st) (t_thread task) ThActive;
            rq_push (st\<lparr>ks_threads := ths\<rparr>) BSP task_id
          } else Some (Inr (), st))"

section \<open>The timer tick\<close>

text \<open>The sleep queue wakes its tasks through this; the result of the wake is ignored.\<close>

definition wake_ignoring :: "TaskId \<Rightarrow> kstate \<Rightarrow> kstate option" where
  "wake_ignoring task_id st = do { (_, st) \<leftarrow> wake st task_id; Some st }"

definition tick_sleep_queue :: "kstate \<Rightarrow> (nat \<times> kstate) option" where
  "tick_sleep_queue st = do {
     (woken, q, st) \<leftarrow> SleepQueue_tick wake_ignoring (ks_sleep_queue st) st;
     Some (woken, st\<lparr>ks_sleep_queue := q\<rparr>)
   }"

definition on_timer_tick :: "kstate \<Rightarrow> (bool \<times> kstate) option" where
  "on_timer_tick st = do {
     (_, st) \<leftarrow> tick_sleep_queue st;
     let cpu = ks_cpu st;
     remaining \<leftarrow> PerCpu_get (ks_ticks_remaining st) cpu;
     current_id \<leftarrow> get_current_task_id st;
     st \<leftarrow> (case get_task (ks_global st) current_id of
              None \<Rightarrow> Some st
            | Some task \<Rightarrow> set_task_in st current_id (task\<lparr>t_ticks_executed := t_ticks_executed task + 1\<rparr>));
     if remaining \<le> 1 then do {
       ticks \<leftarrow> PerCpu_set (ks_ticks_remaining st) cpu TASK_QUANTUM_TICKS;
       Some (True, st\<lparr>ks_ticks_remaining := ticks\<rparr>)
     } else do {
       ticks \<leftarrow> PerCpu_set (ks_ticks_remaining st) cpu (remaining - 1);
       Some (False, st\<lparr>ks_ticks_remaining := ticks\<rparr>)
     }
   }"

section \<open>Death of a task\<close>

definition queue_task_reaper :: "kstate \<Rightarrow> TaskId \<Rightarrow> ((ReaperError + unit) \<times> kstate) option" where
  "queue_task_reaper st task_id = do {
     r \<leftarrow> ReaperQueue_push (ks_reaper_queue st) task_id;
     case r of
       Inl e \<Rightarrow> Some (Inl e, st)
     | Inr q \<Rightarrow> Some (Inr (), st\<lparr>ks_reaper_queue := q\<rparr>)
   }"

text \<open>Queue the reaper, printing a message when its queue is full.\<close>

definition queue_reaper_or_log :: "kstate \<Rightarrow> TaskId \<Rightarrow> kstate option" where
  "queue_reaper_or_log st task_id = do {
     (r, st) \<leftarrow> queue_task_reaper st task_id;
     case r of
       Inl _ \<Rightarrow> Some (sprint (Msg (nl @ ''[REAPER] Failed to queue task reaper...'' @ nl)) st)
     | Inr _ \<Rightarrow> Some st
   }"

text \<open>Mark a task and its thread as dying.\<close>

definition mark_dying :: "kstate \<Rightarrow> TaskId \<Rightarrow> Task \<Rightarrow> kstate option" where
  "mark_dying st task_id task = do {
     st \<leftarrow> set_task_in st task_id (task\<lparr>t_state := Dying\<rparr>);
     ths \<leftarrow> set_thread_state (ks_threads st) (t_thread task) ThDying;
     Some (st\<lparr>ks_threads := ths\<rparr>)
   }"

definition kill_task :: "kstate \<Rightarrow> u64 \<Rightarrow> kstate option" where
  "kill_task st task_id_u64 = do {
     let task_id = expand_task_id task_id_u64;
     current_id \<leftarrow> get_current_task_id st;
     (is_current, st) \<leftarrow> (case get_task (ks_global st) task_id of
         None \<Rightarrow> Some (False, st)
       | Some task \<Rightarrow> do {
           st \<leftarrow> mark_dying st task_id task;
           Some (task_id = current_id, st)
         });
     st \<leftarrow> queue_reaper_or_log st task_id;
     if is_current then do {
       force \<leftarrow> PerCpu_set (ks_force_reschedule st) (ks_cpu st) True;
       Some (st\<lparr>ks_force_reschedule := force\<rparr>)
     } else Some st
   }"

definition kill_current_task :: "kstate \<Rightarrow> kstate option" where
  "kill_current_task st = do {
     current_id \<leftarrow> get_current_task_id st;
     case get_task (ks_global st) current_id of
       None \<Rightarrow> Some st
     | Some task \<Rightarrow> do {
         st \<leftarrow> mark_dying st current_id task;
         queue_reaper_or_log st current_id
       }
   }"

text \<open>
  The exit of a task whose entry function returned.  The switch never comes back
  to a dying task; a return of the scheduler is the \<^verbatim>\<open>unreachable!\<close> panic.
\<close>

definition task_exit :: "kstate \<Rightarrow> kstate option" where
  "task_exit st = do {
     let st = st\<lparr>ks_regs := snd (disable_interrupts_save (ks_regs st))\<rparr>;
     st \<leftarrow> kill_current_task st;
     (r, st) \<leftarrow> schedule st;
     case r of NoSwitch \<Rightarrow> None | Switched \<Rightarrow> Some st
   }"

section \<open>Sleeping\<close>

definition sleep :: "kstate \<Rightarrow> u32 \<Rightarrow> (sched_result \<times> kstate) option" where
  "sleep st seconds = do {
     task_id \<leftarrow> get_current_task_id st;
     if seconds = 0 then schedule st
     else do {
       current_id \<leftarrow> get_current_task_id st;
       (q, out) \<leftarrow> SleepQueue_insert (ks_sleep_queue st) task_id (ucast (seconds * 1000));
       let st = fold (\<lambda>m. sprint (Msg m)) out (st\<lparr>ks_sleep_queue := q\<rparr>);
       st \<leftarrow> block_task st current_id;
       schedule st
     }
   }"

end
