(* ===== verification/Timer.thy ===== *)
theory Timer
  imports Scheduler
begin

text \<open>
  What the interrupts run: the reaper and the tombstone cleanup
  (task\_scheduler/reaper.rs), the drain of the deferred work queue
  (system\_core/system\_task\_queue.rs, system\_core/system\_tasks.rs), the timer
  interrupt and the triage of task faults (processor\_control/idt.rs).
\<close>

section \<open>Reaper and tombstone cleanup\<close>

lemma ReaperQueue_pop_less: "ReaperQueue_pop q = Some (Some k, q') \<Longrightarrow> rpq_queue_len q' < rpq_queue_len q"
  by (auto simp: ReaperQueue_pop_def bind_eq_Some_conv split: if_splits)

lemma TombstoneQueue_pop_less: "TombstoneQueue_pop q = Some (Some k, q') \<Longrightarrow> tsq_queue_len q' < tsq_queue_len q"
  by (auto simp: TombstoneQueue_pop_def bind_eq_Some_conv split: if_splits)

lemma SystemTaskQueue_pop_less: "SystemTaskQueue_pop q = Some (Some k, q') \<Longrightarrow> stq_queue_len q' < stq_queue_len q"
  by (auto simp: SystemTaskQueue_pop_def bind_eq_Some_conv split: if_splits)

text \<open>What the reaper does with one identifier it popped.\<close>

definition reap_one :: "kstate \<Rightarrow> TaskId \<Rightarrow> kstate option" where
  "reap_one st task_id =
     (case get_task (ks_global st) task_id of
        Some task \<Rightarrow>
          if t_state task = Dying then do {
            st \<leftarrow> set_task_in st task_id (task\<lparr>t_state := Dead\<rparr>);
            r \<leftarrow> TombstoneQueue_push (ks_tombstone_queue st) task_id;
            case r of
              Inl _ \<Rightarrow> Some (sprint (Msg (''[REAPER] Failed to queue tombstone cleanup...'' @ nl)) st)
            | Inr q \<Rightarrow> Some (st\<lparr>ks_tombstone_queue := q\<rparr>)
          } else Some st
      | None \<Rightarrow> Some st)"

lemma reap_one_reaper_queue: "reap_one st k = Some st' \<Longrightarrow> ks_reaper_queue st' = ks_reaper_queue st"
  by (auto simp: reap_one_def set_task_in_def sprint_def some_conv)

function reap_loop :: "kstate \<Rightarrow> kstate option" where
  "reap_loop st =
     (case ReaperQueue_pop (ks_reaper_queue st) of
        None \<Rightarrow> None
      | Some (None, q) \<Rightarrow> Some (st\<lparr>ks_reaper_queue := q\<rparr>)
      | Some (Some task_id, q) \<Rightarrow>
          (case reap_one (st\<lparr>ks_reaper_queue := q\<rparr>) task_id of
             None \<Rightarrow> None
           | Some st' \<Rightarrow> reap_loop st'))"
  by pat_completeness auto
termination
  by (relation "measure (\<lambda>st. rpq_queue_len (ks_reaper_queue st))")
    (auto dest!: ReaperQueue_pop_less reap_one_reaper_queue)

declare reap_loop.simps [simp del]

definition reap_dying_tasks :: "kstate \<Rightarrow> kstate option" where
  "reap_dying_tasks st = (if rpq_queue_len (ks_reaper_queue st) = 0 then Some st else reap_loop st)"

text \<open>Removing one dead task: its stack allocation goes back to the heap.\<close>

definition bury_one :: "kstate \<Rightarrow> TaskId \<Rightarrow> kstate option" where
  "bury_one st task_id = do {
     (g, ths, dropped) \<leftarrow> remove_task (ks_global st) (ks_threads st) task_id;
     Some (st\<lparr>ks_global := g, ks_threads := ths,
              ks_freed_stacks := (case dropped of None \<Rightarrow> ks_freed_stacks st
                | Some t \<Rightarrow> (t_stack_base t, t_stack_size t) # ks_freed_stacks st)\<rparr>)
   }"

lemma bury_one_tombstone_queue: "bury_one st k = Some st' \<Longrightarrow> ks_tombstone_queue st' = ks_tombstone_queue st"
  by (auto simp: bury_one_def bind_eq_Some_conv)

function bury_loop :: "kstate \<Rightarrow> kstate option" where
  "bury_loop st =
     (case TombstoneQueue_pop (ks_tombstone_queue st) of
        None \<Rightarrow> None
      | Some (None, q) \<Rightarrow> Some (st\<lparr>ks_tombstone_queue := q\<rparr>)
      | Some (Some task_id, q) \<Rightarrow>
          (case bury_one (st\<lparr>ks_tombstone_queue := q\<rparr>) task_id of
             None \<Rightarrow> None
           | Some st' \<Rightarrow> bury_loop st'))"
  by pat_completeness auto
termination
  by (relation "measure (\<lambda>st. tsq_queue_len (ks_tombstone_queue st))")
    (auto dest!: TombstoneQueue_pop_less bury_one_tombstone_queue)

declare bury_loop.simps [simp del]

text \<open>The build's debug level is INFO, so the count is always printed.\<close>

definition tombstone_cleanup :: "kstate \<Rightarrow> kstate option" where
  "tombstone_cleanup st = (let dead_task_count = tsq_queue_len (ks_tombstone_queue st) in
     if dead_task_count = 0 then Some st
     else do {
       st \<leftarrow> bury_loop st;
       Some (sprint (MsgField (nl @ ''[REAPER] Tombstone cleanup reaped dead task(s): '') (of_nat dead_task_count)) st)
     })"

section \<open>Deferred work\<close>

definition queue_system_task :: "kstate \<Rightarrow> SystemFunction \<Rightarrow> u64 \<Rightarrow> kstate option" where
  "queue_system_task st func func_arg = do {
     r \<leftarrow> SystemTaskQueue_push (ks_system_task_queue st) \<lparr>st_function = func, st_func_arg = func_arg\<rparr>;
     case r of
       Inl error_message \<Rightarrow> Some (sprint (Msg nl) (sprint (Msg error_message) st))
     | Inr q \<Rightarrow> Some (st\<lparr>ks_system_task_queue := q\<rparr>)
   }"

definition task_killer :: "kstate \<Rightarrow> u64 \<Rightarrow> kstate option" where
  "task_killer st task_id_u64 = kill_task st task_id_u64"

definition run_system_task :: "kstate \<Rightarrow> SystemTask \<Rightarrow> kstate option" where
  "run_system_task st task = (case st_function task of Fn_task_killer \<Rightarrow> task_killer st (st_func_arg task))"

lemma kill_task_system_queue: "kill_task st k = Some st' \<Longrightarrow> ks_system_task_queue st' = ks_system_task_queue st"
  by (auto simp: kill_task_def mark_dying_def queue_reaper_or_log_def queue_task_reaper_def set_task_in_def sprint_def
      some_conv Let_def)

function drain_system_tasks :: "kstate \<Rightarrow> kstate option" where
  "drain_system_tasks st =
     (case SystemTaskQueue_pop (ks_system_task_queue st) of
        None \<Rightarrow> None
      | Some (None, q) \<Rightarrow> Some (st\<lparr>ks_system_task_queue := q\<rparr>)
      | Some (Some task, q) \<Rightarrow>
          (case run_system_task (st\<lparr>ks_system_task_queue := q\<rparr>) task of
             None \<Rightarrow> None
           | Some st' \<Rightarrow> drain_system_tasks st'))"
  by pat_completeness auto
termination
  by (relation "measure (\<lambda>st. stq_queue_len (ks_system_task_queue st))")
    (auto simp: run_system_task_def task_killer_def split: SystemFunction.splits
      dest!: SystemTaskQueue_pop_less kill_task_system_queue)

declare drain_system_tasks.simps [simp del]

section \<open>Interrupt handlers\<close>

text \<open>
  The APIC timer interrupt.  Signalling the end of the interrupt to the APIC is a
  device register write without effect on this state.
\<close>

definition handler_apic_timer :: "kstate \<Rightarrow> kstate option" where
  "handler_apic_timer st = do {
     let st = st\<lparr>ks_timer_ticks := ks_timer_ticks st + 1\<rparr>;
     (should_schedule, st) \<leftarrow> on_timer_tick st;
     st \<leftarrow> drain_system_tasks st;
     st \<leftarrow> tombstone_cleanup st;
     st \<leftarrow> reap_dying_tasks st;
     force_flag \<leftarrow> PerCpu_get (ks_force_reschedule st) (ks_cpu st);
     (should_schedule, st) \<leftarrow> (if force_flag then do {
         force \<leftarrow> PerCpu_set (ks_force_reschedule st) (ks_cpu st) False;
         Some (True, st\<lparr>ks_force_reschedule := force\<rparr>)
       } else Some (should_schedule, st));
     if should_schedule then do { (_, st) \<leftarrow> schedule st; Some st } else Some st
   }"

text \<open>
  The triage of recoverable faults: a fault of the idle task halts the machine, a
  fault of another task kills it and switches away.  The printed fault report is
  reduced to its first line.
\<close>

datatype fault_result = Halted kstate | TaskKilled kstate

definition try_kill_current_task :: "kstate \<Rightarrow> string \<Rightarrow> fault_result option" where
  "try_kill_current_task st reason = do {
     task_id \<leftarrow> get_current_task_id st;
     if task_id \<noteq> TaskId_IDLE then do {
       let st = sprint (MsgField (nl @ ''[TASK FAULT] Task '') (slot_index task_id)) st;
       let st = sprint (Msg ('' killed due to: '' @ reason @ nl)) st;
       st \<leftarrow> kill_current_task st;
       (r, st) \<leftarrow> schedule st;
       case r of NoSwitch \<Rightarrow> None | Switched \<Rightarrow> Some (TaskKilled st)
     } else Some (Halted (sprint (Msg (nl @ ''[KERNEL FAULT] '' @ reason
                    @ '' in kernel context. Halting...'' @ nl)) st))
   }"

end
