(* ===== verification/Scheduler_Facts.thy ===== *)
theory Scheduler_Facts
  imports Timer
begin

text \<open>
  The ready queue and the running task of a CPU as abstract data, what the queue
  accesses do to them, the choice of the next task, and the invariant of the
  kernel state with the operations that keep it.
\<close>

section \<open>The scheduler of one CPU, abstractly\<close>

definition sched_at :: "kstate \<Rightarrow> CpuId \<Rightarrow> TaskId \<Rightarrow> TaskId list \<Rightarrow> bool" where
  "sched_at st cpu c Q \<longleftrightarrow> (\<exists>cs. PerCpu_get (ks_cpu_scheduler st) cpu = Some cs \<and> pcq_invar (pcs_queue cs) \<and>
     pcs_current cs = c \<and> pcq_contents (pcs_queue cs) = Q)"

lemma sched_at_length: "sched_at st cpu c Q \<Longrightarrow> length Q \<le> QUEUE_SIZE"
  using ready_fifo.contents_bound by (fastforce simp: sched_at_def simp del: length_pcq_contents)

lemma sched_at_current: "sched_at st (ks_cpu st) c Q \<Longrightarrow> get_current_task_id st = Some c"
  by (auto simp: sched_at_def get_current_task_id_def)

lemma sched_at_ready_list: "sched_at st cpu c Q \<Longrightarrow> ready_list st cpu = Q"
  by (auto simp: sched_at_def ready_list_def)

lemma sched_at_put:
  assumes "PerCpu_get (ks_cpu_scheduler st) cpu = Some cs" "pcq_invar (pcs_queue cs')"
  shows "\<exists>p. PerCpu_set (ks_cpu_scheduler st) cpu cs' = Some p \<and>
    sched_at (st\<lparr>ks_cpu_scheduler := p\<rparr>) cpu (pcs_current cs') (pcq_contents (pcs_queue cs'))"
proof -
  obtain p where p: "PerCpu_set (ks_cpu_scheduler st) cpu cs' = Some p"
    using per_cpu_cells.put_present [OF assms(1)] by blast
  then show ?thesis using per_cpu_cells.get_put_same [OF p] assms(2) by (auto simp: sched_at_def)
qed

lemma rq_pop_Nil:
  assumes "sched_at st cpu c []"
  shows "\<exists>p. rq_pop st cpu = Some (None, st\<lparr>ks_cpu_scheduler := p\<rparr>) \<and> sched_at (st\<lparr>ks_cpu_scheduler := p\<rparr>) cpu c []"
proof -
  obtain cs where cs: "PerCpu_get (ks_cpu_scheduler st) cpu = Some cs" "pcq_invar (pcs_queue cs)"
    "pcs_current cs = c" "pcq_contents (pcs_queue cs) = []"
    using assms by (auto simp: sched_at_def)
  then show ?thesis
    using sched_at_put [OF cs(1), of cs] ready_fifo.pop_empty [OF cs(2,4)] by (auto simp: rq_pop_def)
qed

lemma rq_pop_Cons:
  assumes "sched_at st cpu c (x # Q)"
  shows "\<exists>p. rq_pop st cpu = Some (Some x, st\<lparr>ks_cpu_scheduler := p\<rparr>) \<and> sched_at (st\<lparr>ks_cpu_scheduler := p\<rparr>) cpu c Q"
proof -
  obtain cs where cs: "PerCpu_get (ks_cpu_scheduler st) cpu = Some cs" "pcq_invar (pcs_queue cs)"
    "pcs_current cs = c" "pcq_contents (pcs_queue cs) = x # Q"
    using assms by (auto simp: sched_at_def)
  obtain q where q: "PerCpuQueue_pop (pcs_queue cs) = Some (Some x, q)" "pcq_invar q" "pcq_contents q = Q"
    using ready_fifo.pop_cons [OF cs(2,4)] by blast
  then show ?thesis
    using sched_at_put [OF cs(1), of "cs\<lparr>pcs_queue := q\<rparr>"] cs by (auto simp: rq_pop_def)
qed

lemma rq_push_ok:
  assumes "sched_at st cpu c Q" "length Q < QUEUE_SIZE"
  shows "\<exists>p. rq_push st cpu x = Some (Inr (), st\<lparr>ks_cpu_scheduler := p\<rparr>) \<and>
    sched_at (st\<lparr>ks_cpu_scheduler := p\<rparr>) cpu c (Q @ [x])"
proof -
  obtain cs where cs: "PerCpu_get (ks_cpu_scheduler st) cpu = Some cs" "pcq_invar (pcs_queue cs)"
    "pcs_current cs = c" "pcq_contents (pcs_queue cs) = Q"
    using assms(1) by (auto simp: sched_at_def)
  obtain q where q: "PerCpuQueue_push (pcs_queue cs) x = Some (Inr q)" "pcq_invar q" "pcq_contents q = Q @ [x]"
    using ready_fifo.push_ok [OF cs(2), of x] assms(2) cs(4) by auto
  then show ?thesis
    using sched_at_put [OF cs(1), of "cs\<lparr>pcs_queue := q\<rparr>"] cs by (auto simp: rq_push_def)
qed

lemma rq_push_full:
  assumes "sched_at st cpu c Q" "length Q = QUEUE_SIZE"
  shows "rq_push st cpu x = Some (Inl QueueFull, st)"
  using assms by (auto simp: sched_at_def rq_push_def PerCpuQueue_push_def)

lemma rq_push_cases:
  assumes "sched_at st cpu c Q"
  obtains p r where "rq_push st cpu x = Some (r, st\<lparr>ks_cpu_scheduler := p\<rparr>)"
    "sched_at (st\<lparr>ks_cpu_scheduler := p\<rparr>) cpu c (if length Q < QUEUE_SIZE then Q @ [x] else Q)"
    "r = (if length Q < QUEUE_SIZE then Inr () else Inl QueueFull)"
proof (cases "length Q < QUEUE_SIZE")
  case True
  then show thesis using rq_push_ok [OF assms True, of x] that by fastforce
next
  case False
  then have "length Q = QUEUE_SIZE" using sched_at_length [OF assms] by simp
  then show thesis
    using rq_push_full [OF assms] assms that [of "Inl QueueFull" "ks_cpu_scheduler st"] by simp
qed

lemma set_current_ok:
  assumes "sched_at st cpu c Q"
  shows "\<exists>p. set_current st cpu k = Some (st\<lparr>ks_cpu_scheduler := p\<rparr>) \<and> sched_at (st\<lparr>ks_cpu_scheduler := p\<rparr>) cpu k Q"
proof -
  obtain cs where cs: "PerCpu_get (ks_cpu_scheduler st) cpu = Some cs" "pcq_invar (pcs_queue cs)"
    "pcq_contents (pcs_queue cs) = Q"
    using assms by (auto simp: sched_at_def)
  then show ?thesis
    using sched_at_put [OF cs(1), of "cs\<lparr>pcs_current := k\<rparr>"] by (auto simp: set_current_def)
qed

text \<open>The abstract view reads only the per-CPU scheduler storage.\<close>

lemma sched_at_frame [simp]:
  "sched_at (st\<lparr>ks_global := g\<rparr>) = sched_at st" "sched_at (st\<lparr>ks_threads := ths\<rparr>) = sched_at st"
  "sched_at (st\<lparr>ks_regs := r\<rparr>) = sched_at st" "sched_at (st\<lparr>ks_mem := m\<rparr>) = sched_at st"
  "sched_at (st\<lparr>ks_ticks_remaining := t\<rparr>) = sched_at st" "sched_at (st\<lparr>ks_tss_rsp0 := u\<rparr>) = sched_at st"
  "sched_at (st\<lparr>ks_force_reschedule := f\<rparr>) = sched_at st" "sched_at (sprint msg st) = sched_at st"
  "sched_at (st\<lparr>ks_reaper_queue := rq\<rparr>) = sched_at st" "sched_at (st\<lparr>ks_tombstone_queue := tq\<rparr>) = sched_at st"
  "sched_at (st\<lparr>ks_sleep_queue := sq\<rparr>) = sched_at st" "sched_at (st\<lparr>ks_system_task_queue := stq\<rparr>) = sched_at st"
  "sched_at (st\<lparr>ks_timer_ticks := n\<rparr>) = sched_at st" "sched_at (st\<lparr>ks_freed_stacks := fr\<rparr>) = sched_at st"
  by (simp_all add: fun_eq_iff sched_at_def sprint_def)

section \<open>The choice of the next task\<close>

definition is_ready :: "GlobalScheduler \<Rightarrow> TaskId \<Rightarrow> bool" where
  "is_ready g k = (case get_task g k of None \<Rightarrow> False | Some t \<Rightarrow> t_state t = Ready)"

lemma pick_next_none:
  assumes "sched_at st cpu c Q" "\<forall>k \<in> set Q. \<not> is_ready (ks_global st) k"
  shows "\<exists>p. pick_next st cpu = Some (TaskId_IDLE, st\<lparr>ks_cpu_scheduler := p\<rparr>) \<and>
    sched_at (st\<lparr>ks_cpu_scheduler := p\<rparr>) cpu c []"
  using assms
proof (induction Q arbitrary: st)
  case Nil
  then show ?case using rq_pop_Nil [OF Nil(1)] by (auto simp: pick_next.simps)
next
  case (Cons x Q)
  obtain p where p: "rq_pop st cpu = Some (Some x, st\<lparr>ks_cpu_scheduler := p\<rparr>)"
    "sched_at (st\<lparr>ks_cpu_scheduler := p\<rparr>) cpu c Q"
    using rq_pop_Cons [OF Cons.prems(1)] by blast
  have "pick_next st cpu = pick_next (st\<lparr>ks_cpu_scheduler := p\<rparr>) cpu"
    using p Cons.prems(2) by (subst pick_next.simps) (auto simp: is_ready_def split: option.splits)
  then show ?case using Cons.IH [OF p(2)] Cons.prems(2) by auto
qed

lemma pick_next_first:
  assumes "sched_at st cpu c (xs @ k # Q)" "\<forall>x \<in> set xs. \<not> is_ready (ks_global st) x"
    "get_task (ks_global st) k = Some t" "t_state t = Ready"
    "set_task (ks_global st) k (t\<lparr>t_state := Running\<rparr>) = Some g'"
  shows "\<exists>p. pick_next st cpu = Some (k, st\<lparr>ks_cpu_scheduler := p, ks_global := g'\<rparr>) \<and>
    sched_at (st\<lparr>ks_cpu_scheduler := p\<rparr>) cpu c Q"
  using assms
proof (induction xs arbitrary: st)
  case Nil
  obtain p where p: "rq_pop st cpu = Some (Some k, st\<lparr>ks_cpu_scheduler := p\<rparr>)"
    "sched_at (st\<lparr>ks_cpu_scheduler := p\<rparr>) cpu c Q"
    using rq_pop_Cons [of st cpu c k Q] Nil.prems(1) by auto
  then show ?case using Nil.prems by (subst pick_next.simps) (auto simp: set_task_in_def)
next
  case (Cons x xs)
  obtain p where p: "rq_pop st cpu = Some (Some x, st\<lparr>ks_cpu_scheduler := p\<rparr>)"
    "sched_at (st\<lparr>ks_cpu_scheduler := p\<rparr>) cpu c (xs @ k # Q)"
    using rq_pop_Cons [of st cpu c x "xs @ k # Q"] Cons.prems(1) by auto
  have "pick_next st cpu = pick_next (st\<lparr>ks_cpu_scheduler := p\<rparr>) cpu"
    using p Cons.prems(2) by (subst pick_next.simps) (auto simp: is_ready_def split: option.splits)
  then show ?case using Cons.IH [OF p(2)] Cons.prems by auto
qed

section \<open>Simulation between kernel states\<close>

text \<open>
  A step that only moves tasks between Ready, Running and Blocked: identifiers,
  threads, stacks and saved stack pointers of all tasks stay, no task dies or comes
  back to life, and apart from the ready queue, the sleep queue and the thread states
  nothing else of the kernel state changes.
\<close>

definition alive :: "Task \<Rightarrow> bool" where
  "alive t \<longleftrightarrow> t_state t \<noteq> Dying \<and> t_state t \<noteq> Dead"

definition task_sim :: "Task \<Rightarrow> Task \<Rightarrow> bool" where
  "task_sim t t' \<longleftrightarrow> t_id t' = t_id t \<and> t_thread t' = t_thread t \<and> alive t' = alive t \<and>
     t_saved_rsp t' = t_saved_rsp t \<and> t_stack_base t' = t_stack_base t \<and> t_stack_size t' = t_stack_size t"

definition ksim :: "kstate \<Rightarrow> kstate \<Rightarrow> bool" where
  "ksim st st' \<longleftrightarrow> (\<forall>k. rel_option task_sim (task_of st k) (task_of st' k)) \<and>
     (table_ok (ks_global st) \<longrightarrow> table_ok (ks_global st')) \<and>
     dom (ks_threads st') = dom (ks_threads st) \<and>
     ks_cpu st' = ks_cpu st \<and> r_rsp (ks_regs st') = r_rsp (ks_regs st) \<and>
     (sq_invar (ks_sleep_queue st) \<longrightarrow> sq_invar (ks_sleep_queue st')) \<and> ks_reaper_queue st' = ks_reaper_queue st \<and>
     ks_tombstone_queue st' = ks_tombstone_queue st \<and> ks_system_task_queue st' = ks_system_task_queue st \<and>
     ks_force_reschedule st' = ks_force_reschedule st \<and> ks_freed_stacks st' = ks_freed_stacks st \<and>
     (\<forall>c. (PerCpu_get (ks_ticks_remaining st') c = None) = (PerCpu_get (ks_ticks_remaining st) c = None)) \<and>
     (\<forall>c. (PerCpu_get (ks_tss_rsp0 st') c = None) = (PerCpu_get (ks_tss_rsp0 st) c = None))"

lemma task_sim_refl [simp]: "task_sim t t"
  by (simp add: task_sim_def)

lemma task_sim_trans: "task_sim t u \<Longrightarrow> task_sim u v \<Longrightarrow> task_sim t v"
  by (simp add: task_sim_def)

lemma rel_task_sim_refl [simp]: "rel_option task_sim x x"
  by (cases x) auto

lemma rel_task_sim_trans: "rel_option task_sim x y \<Longrightarrow> rel_option task_sim y z \<Longrightarrow> rel_option task_sim x z"
  by (cases x; cases y; cases z) (auto intro: task_sim_trans)

lemma ksim_refl [simp]: "ksim st st"
  by (simp add: ksim_def)

lemma ksim_trans [trans]: "ksim st st1 \<Longrightarrow> ksim st1 st2 \<Longrightarrow> ksim st st2"
  unfolding ksim_def by (auto intro: rel_task_sim_trans)

lemma ksim_task:
  assumes "ksim st st'" "task_of st k = Some t"
  obtains t' where "task_of st' k = Some t'" "task_sim t t'"
  using assms unfolding ksim_def by (metis option.rel_cases option.distinct(1) option.inject)

lemma ksim_task_back:
  assumes "ksim st st'" "task_of st' k = Some t'"
  obtains t where "task_of st k = Some t" "task_sim t t'"
  using assms unfolding ksim_def by (metis option.rel_cases option.distinct(1) option.inject)

text \<open>The elementary steps.\<close>

lemma ksim_set_task:
  assumes "set_task_in st k t' = Some st'" "task_of st k = Some t" "task_sim t t'"
  shows "ksim st st'"
proof -
  obtain g where g: "set_task (ks_global st) k t' = Some g" "st' = st\<lparr>ks_global := g\<rparr>"
    using assms(1) by (auto simp: set_task_in_def some_conv)
  have "rel_option task_sim (task_of st j) (get_task g j)" for j
    using task_cells.get_put [OF g(1), of j] assms(2,3) by simp
  moreover have "table_ok g" if "table_ok (ks_global st)"
    using table_ok_set_task [OF that g(1)] get_task_id [OF that assms(2)] assms(3) by (simp add: task_sim_def)
  ultimately show ?thesis by (simp add: ksim_def g(2))
qed

lemma ksim_simple [simp]:
  "ksim st (st\<lparr>ks_cpu_scheduler := p\<rparr>)" "ksim st (sprint msg st)"
  "ksim st (st\<lparr>ks_regs := snd (disable_interrupts_save (ks_regs st))\<rparr>)"
  "ksim st (st\<lparr>ks_timer_ticks := n\<rparr>)"
  by (simp_all add: ksim_def sprint_def disable_interrupts_save_def)

lemma ksim_threads: "set_thread_state (ks_threads st) r s = Some ths \<Longrightarrow> ksim st (st\<lparr>ks_threads := ths\<rparr>)"
  by (simp add: ksim_def set_thread_state_dom)

lemma ksim_ticks: "PerCpu_set (ks_ticks_remaining st) c v = Some p \<Longrightarrow> ksim st (st\<lparr>ks_ticks_remaining := p\<rparr>)"
  using per_cpu_cells.same_cells_put by (fastforce simp: ksim_def)

lemma ksim_tss: "set_kernel_stack st v = Some st' \<Longrightarrow> ksim st st'"
  using per_cpu_cells.same_cells_put by (fastforce simp: ksim_def set_kernel_stack_def some_conv)

lemma set_task_in_ok:
  "task_of st k = Some t \<Longrightarrow> \<exists>g. set_task (ks_global st) k t' = Some g \<and> set_task_in st k t' = Some (st\<lparr>ks_global := g\<rparr>)"
  using task_cells.put_present by (fastforce simp: set_task_in_def)

lemma task_of_set:
  "set_task (ks_global st) k t' = Some g \<Longrightarrow> get_task g j = (if j = k then Some t' else task_of st j)"
  by (rule task_cells.get_put)

section \<open>Operations that only move tasks\<close>

lemma pick_next_sim:
  assumes "sched_at st cpu c Q" "task_of st TaskId_IDLE = Some t0"
  shows "\<exists>k st1 Q1 t. pick_next st cpu = Some (k, st1) \<and> ksim st st1 \<and> sched_at st1 cpu c Q1 \<and>
    task_of st1 k = Some t \<and> (k = TaskId_IDLE \<or> t_state t = Running)"
proof (cases "\<forall>k \<in> set Q. \<not> is_ready (ks_global st) k")
  case True
  then show ?thesis using pick_next_none [OF assms(1) True] assms(2)
    by (metis (no_types, lifting) kstate.simps(1) kstate.surjective kstate.update_convs(2) ksim_simple(1))
next
  case False
  then obtain xs k R where Q: "Q = xs @ k # R" "is_ready (ks_global st) k"
    "\<forall>x \<in> set xs. \<not> is_ready (ks_global st) x"
    using split_list_first_prop [of Q "is_ready (ks_global st)"] by blast
  then obtain t where t: "task_of st k = Some t" "t_state t = Ready"
    by (auto simp: is_ready_def split: option.splits)
  obtain g where g: "set_task (ks_global st) k (t\<lparr>t_state := Running\<rparr>) = Some g"
    "set_task_in st k (t\<lparr>t_state := Running\<rparr>) = Some (st\<lparr>ks_global := g\<rparr>)"
    using set_task_in_ok [OF t(1)] by blast
  obtain p where p: "pick_next st cpu = Some (k, st\<lparr>ks_cpu_scheduler := p, ks_global := g\<rparr>)"
    "sched_at (st\<lparr>ks_cpu_scheduler := p\<rparr>) cpu c R"
    using pick_next_first [OF _ Q(3) t g(1)] assms(1) Q(1) by blast
  have "ksim st (st\<lparr>ks_global := g\<rparr>)"
    by (rule ksim_set_task [OF g(2) t(1)]) (simp add: task_sim_def alive_def t(2))
  also have "ksim \<dots> (st\<lparr>ks_global := g, ks_cpu_scheduler := p\<rparr>)" by simp
  also have "st\<lparr>ks_global := g, ks_cpu_scheduler := p\<rparr> = st\<lparr>ks_cpu_scheduler := p, ks_global := g\<rparr>" by simp
  finally have "ksim st (st\<lparr>ks_cpu_scheduler := p, ks_global := g\<rparr>)" .
  moreover have "sched_at (st\<lparr>ks_cpu_scheduler := p, ks_global := g\<rparr>) cpu c R"
    using p(2) sched_at_frame(1) [where st = "st\<lparr>ks_cpu_scheduler := p\<rparr>"] by simp
  ultimately show ?thesis using p(1) task_of_set [OF g(1), of k] by fastforce
qed

lemma requeue_sim:
  assumes "sched_at st cpu c Q"
  shows "\<exists>st1 Q1. requeue_outgoing st cpu c = Some st1 \<and> ksim st st1 \<and> sched_at st1 cpu c Q1"
proof (cases "task_of st c")
  case None
  then show ?thesis using assms by (auto simp: requeue_outgoing_def)
next
  case (Some t)
  show ?thesis
  proof (cases "t_state t = Running")
    case True
    obtain g where g: "set_task_in st c (t\<lparr>t_state := Ready\<rparr>) = Some (st\<lparr>ks_global := g\<rparr>)"
      using set_task_in_ok [OF Some] by blast
    have sim: "ksim st (st\<lparr>ks_global := g\<rparr>)"
      by (rule ksim_set_task [OF g Some]) (simp add: task_sim_def alive_def True)
    have "sched_at (st\<lparr>ks_global := g\<rparr>) cpu c Q" using assms by simp
    then obtain p r where p: "rq_push (st\<lparr>ks_global := g\<rparr>) cpu c = Some (r, st\<lparr>ks_global := g, ks_cpu_scheduler := p\<rparr>)"
      "sched_at (st\<lparr>ks_global := g, ks_cpu_scheduler := p\<rparr>) cpu c (if length Q < QUEUE_SIZE then Q @ [c] else Q)"
      "r = (if length Q < QUEUE_SIZE then Inr () else Inl QueueFull)"
      by (rule rq_push_cases)
    have sim': "ksim st (st\<lparr>ks_global := g, ks_cpu_scheduler := p\<rparr>)"
      by (rule ksim_trans [OF sim ksim_simple(1)])
    show ?thesis
      using Some True g p sim sim' assms ksim_trans [OF sim' ksim_simple(2)]
      by (cases r) (auto simp: requeue_outgoing_def)
  qed (use assms Some in \<open>auto simp: requeue_outgoing_def\<close>)
qed

lemma wake_sim:
  assumes "sched_at st BSP c Q" "\<And>t. task_of st k = Some t \<Longrightarrow> t_thread t \<in> dom (ks_threads st)"
  shows "\<exists>r st' Q'. wake st k = Some (r, st') \<and> ksim st st' \<and> sched_at st' BSP c Q'"
proof (cases "task_of st k")
  case None
  then show ?thesis using assms by (auto simp: wake_def)
next
  case (Some t)
  show ?thesis
  proof (cases "t_state t = Blocked")
    case True
    obtain g where g: "set_task_in st k (t\<lparr>t_state := Ready\<rparr>) = Some (st\<lparr>ks_global := g\<rparr>)"
      using set_task_in_ok [OF Some] by blast
    obtain ths where ths: "set_thread_state (ks_threads st) (t_thread t) ThActive = Some ths"
      using set_thread_state_Some assms(2) [OF Some] by blast
    have "ksim st (st\<lparr>ks_global := g\<rparr>)"
      by (rule ksim_set_task [OF g Some]) (simp add: task_sim_def alive_def True)
    also have "ksim \<dots> (st\<lparr>ks_global := g, ks_threads := ths\<rparr>)"
      using ksim_threads [where st = "st\<lparr>ks_global := g\<rparr>"] ths by simp
    finally have sim: "ksim st (st\<lparr>ks_global := g, ks_threads := ths\<rparr>)" .
    have at: "sched_at (st\<lparr>ks_global := g, ks_threads := ths\<rparr>) BSP c Q"
      using assms(1) sched_at_frame(2) [where st = "st\<lparr>ks_global := g\<rparr>"] by simp
    obtain p r where p: "rq_push (st\<lparr>ks_global := g, ks_threads := ths\<rparr>) BSP k =
        Some (r, st\<lparr>ks_global := g, ks_threads := ths, ks_cpu_scheduler := p\<rparr>)"
      "sched_at (st\<lparr>ks_global := g, ks_threads := ths, ks_cpu_scheduler := p\<rparr>) BSP c
         (if length Q < QUEUE_SIZE then Q @ [k] else Q)"
      "r = (if length Q < QUEUE_SIZE then Inr () else Inl QueueFull)"
      using at by (rule rq_push_cases)
    show ?thesis
      using Some True g ths p(1,2) ksim_trans [OF sim ksim_simple(1)] by (auto simp: wake_def)
  qed (use assms Some in \<open>auto simp: wake_def\<close>)
qed

lemma block_sim:
  assumes "task_of st k = Some t" "alive t" "t_thread t \<in> dom (ks_threads st)"
  shows "\<exists>st'. block_task st k = Some st' \<and> ksim st st' \<and> ks_cpu_scheduler st' = ks_cpu_scheduler st"
proof -
  let ?t = "t\<lparr>t_ticks_remaining := TASK_QUANTUM_TICKS, t_state := Blocked\<rparr>"
  obtain g where g: "set_task_in st k ?t = Some (st\<lparr>ks_global := g\<rparr>)"
    using set_task_in_ok [OF assms(1)] by blast
  obtain ths where ths: "set_thread_state (ks_threads st) (t_thread t) ThWaiting = Some ths"
    using set_thread_state_Some assms(3) by blast
  have "ksim st (st\<lparr>ks_global := g\<rparr>)"
    by (rule ksim_set_task [OF g assms(1)]) (use assms(2) in \<open>simp add: task_sim_def alive_def\<close>)
  also have "ksim \<dots> (st\<lparr>ks_global := g, ks_threads := ths\<rparr>)"
    using ksim_threads [where st = "st\<lparr>ks_global := g\<rparr>"] ths by simp
  finally show ?thesis using assms(1) g ths by (simp add: block_task_def)
qed

end
