(* ===== verification/Kernel_Invariant.thy ===== *)
theory Kernel_Invariant
  imports Scheduler_Facts
begin

text \<open>
  The invariant of the kernel state and its preservation by the scheduler, the
  death pipeline and the timer interrupt.  Its central part is about the life of
  tasks: identifiers in the tombstone queue belong to dead tasks, the running task
  is alive, and so the cleanup never frees the stack the CPU runs on.
\<close>

section \<open>The invariant\<close>

text \<open>
  One CPU with APIC identifier 0 executes.  The parts of the invariant that do not
  mention the running task: a well-formed table, initialised per-CPU slots,
  well-formed queues, live thread references, an idle task that is alive and that
  no queued system task is about to kill.
\<close>

definition kbase :: "kstate \<Rightarrow> bool" where
  "kbase st \<longleftrightarrow> ks_cpu st = BSP \<and> table_ok (ks_global st) \<and>
     PerCpu_get (ks_ticks_remaining st) BSP \<noteq> None \<and> PerCpu_get (ks_force_reschedule st) BSP \<noteq> None \<and>
     PerCpu_get (ks_tss_rsp0 st) BSP \<noteq> None \<and>
     sq_invar (ks_sleep_queue st) \<and> rpq_invar (ks_reaper_queue st) \<and> tsq_invar (ks_tombstone_queue st) \<and>
     stq_invar (ks_system_task_queue st) \<and>
     (\<forall>k t. task_of st k = Some t \<longrightarrow> t_thread t \<in> dom (ks_threads st)) \<and>
     (\<exists>t. task_of st TaskId_IDLE = Some t \<and> alive t) \<and>
     (\<forall>e \<in> set (stq_contents (ks_system_task_queue st)). expand_task_id (st_func_arg e) \<noteq> TaskId_IDLE)"

text \<open>Every task but the running one has a frame to resume from.\<close>

definition saved_ok :: "kstate \<Rightarrow> TaskId \<Rightarrow> bool" where
  "saved_ok st c \<longleftrightarrow> (\<forall>k t. task_of st k = Some t \<longrightarrow> k \<noteq> c \<longrightarrow> t_saved_rsp t \<noteq> 0)"

definition tomb_ok :: "kstate \<Rightarrow> bool" where
  "tomb_ok st \<longleftrightarrow> (\<forall>k \<in> set (tsq_contents (ks_tombstone_queue st)). \<exists>t. task_of st k = Some t \<and> \<not> alive t)"

definition runs :: "kstate \<Rightarrow> TaskId \<Rightarrow> bool" where
  "runs st c \<longleftrightarrow> (\<exists>Q. sched_at st BSP c Q)"

definition kinv :: "kstate \<Rightarrow> bool" where
  "kinv st \<longleftrightarrow> kbase st \<and> tomb_ok st \<and>
     (\<exists>c t. runs st c \<and> task_of st c = Some t \<and> alive t \<and> saved_ok st c)"

section \<open>Steps that decide no task's fate\<close>

text \<open>Like the simulation of the scheduler facts, but saved stack pointers may change.\<close>

definition task_fate :: "Task \<Rightarrow> Task \<Rightarrow> bool" where
  "task_fate t t' \<longleftrightarrow> t_thread t' = t_thread t \<and> alive t' = alive t \<and>
     t_stack_base t' = t_stack_base t \<and> t_stack_size t' = t_stack_size t"

definition fate :: "kstate \<Rightarrow> kstate \<Rightarrow> bool" where
  "fate st st' \<longleftrightarrow> (\<forall>k. rel_option task_fate (task_of st k) (task_of st' k)) \<and>
     (table_ok (ks_global st) \<longrightarrow> table_ok (ks_global st')) \<and>
     dom (ks_threads st') = dom (ks_threads st) \<and> ks_cpu st' = ks_cpu st \<and>
     (sq_invar (ks_sleep_queue st) \<longrightarrow> sq_invar (ks_sleep_queue st')) \<and> ks_reaper_queue st' = ks_reaper_queue st \<and>
     ks_tombstone_queue st' = ks_tombstone_queue st \<and> ks_system_task_queue st' = ks_system_task_queue st \<and>
     ks_force_reschedule st' = ks_force_reschedule st \<and> ks_freed_stacks st' = ks_freed_stacks st \<and>
     (\<forall>c. (PerCpu_get (ks_ticks_remaining st') c = None) = (PerCpu_get (ks_ticks_remaining st) c = None)) \<and>
     (\<forall>c. (PerCpu_get (ks_tss_rsp0 st') c = None) = (PerCpu_get (ks_tss_rsp0 st) c = None))"

lemma rel_task_sim_fate: "rel_option task_sim x y \<Longrightarrow> rel_option task_fate x y"
  by (cases x; cases y) (auto simp: task_sim_def task_fate_def)

lemma rel_task_fate_trans: "rel_option task_fate x y \<Longrightarrow> rel_option task_fate y z \<Longrightarrow> rel_option task_fate x z"
  by (cases x; cases y; cases z) (auto simp: task_fate_def)

lemma ksim_fate: "ksim st st' \<Longrightarrow> fate st st'"
  unfolding ksim_def fate_def using rel_task_sim_fate by simp

lemma fate_trans [trans]: "fate st st1 \<Longrightarrow> fate st1 st2 \<Longrightarrow> fate st st2"
  unfolding fate_def by (auto intro: rel_task_fate_trans)

lemma fate_task:
  assumes "fate st st'" "task_of st k = Some t"
  obtains t' where "task_of st' k = Some t'" "task_fate t t'"
  using assms unfolding fate_def by (metis option.rel_cases option.distinct(1) option.inject)

lemma fate_task_back:
  assumes "fate st st'" "task_of st' k = Some t'"
  obtains t where "task_of st k = Some t" "task_fate t t'"
  using assms unfolding fate_def by (metis option.rel_cases option.distinct(1) option.inject)

lemma fate_alive:
  assumes "fate st st'" "task_of st k = Some t" "alive t = b"
  shows "\<exists>t'. task_of st' k = Some t' \<and> alive t' = b"
  by (rule fate_task [OF assms(1,2)]) (use assms(3) in \<open>auto simp: task_fate_def\<close>)

lemma fate_thread:
  assumes "fate st st'" "\<forall>k t. task_of st k = Some t \<longrightarrow> t_thread t \<in> dom (ks_threads st)" "task_of st' k = Some t'"
  shows "t_thread t' \<in> dom (ks_threads st')"
  by (rule fate_task_back [OF assms(1,3)]) (use assms(1,2) in \<open>auto simp: task_fate_def fate_def\<close>)

lemma kbase_fate:
  assumes "kbase st" "fate st st'"
  shows "kbase st'"
proof -
  obtain t where t: "task_of st TaskId_IDLE = Some t" "alive t" using assms(1) by (auto simp: kbase_def)
  have "\<exists>t. task_of st' TaskId_IDLE = Some t \<and> alive t"
    using fate_alive [OF assms(2) t(1), of True] t(2) by simp
  moreover have "\<forall>k t. task_of st' k = Some t \<longrightarrow> t_thread t \<in> dom (ks_threads st')"
    using assms(1) fate_thread [OF assms(2)] by (simp add: kbase_def)
  moreover have "table_ok (ks_global st')" "ks_cpu st' = BSP"
    "PerCpu_get (ks_ticks_remaining st') BSP \<noteq> None" "PerCpu_get (ks_tss_rsp0 st') BSP \<noteq> None"
    "ks_force_reschedule st' = ks_force_reschedule st" "sq_invar (ks_sleep_queue st')"
    "ks_reaper_queue st' = ks_reaper_queue st" "ks_tombstone_queue st' = ks_tombstone_queue st"
    "ks_system_task_queue st' = ks_system_task_queue st"
    using assms by (simp_all only: kbase_def fate_def simp_thms)
  ultimately show ?thesis using assms(1) unfolding kbase_def by simp
qed

lemma tomb_ok_fate:
  assumes "tomb_ok st" "fate st st'"
  shows "tomb_ok st'"
proof -
  have "ks_tombstone_queue st' = ks_tombstone_queue st" using assms(2) by (simp add: fate_def)
  then show ?thesis using assms(1) fate_alive [OF assms(2)] unfolding tomb_ok_def by fastforce
qed

lemma saved_ok_sim: "saved_ok st c \<Longrightarrow> ksim st st' \<Longrightarrow> saved_ok st' c"
  unfolding saved_ok_def by (auto elim!: ksim_task_back simp: task_sim_def)

lemma kbase_sim: "kbase st \<Longrightarrow> ksim st st' \<Longrightarrow> kbase st'"
  using kbase_fate ksim_fate by blast

lemma tomb_ok_sim: "tomb_ok st \<Longrightarrow> ksim st st' \<Longrightarrow> tomb_ok st'"
  using tomb_ok_fate ksim_fate by blast

section \<open>The scheduler keeps the invariant\<close>

text \<open>The part of a switch before the registers change.\<close>

lemma set_kernel_stack_sim:
  assumes "ks_cpu st = BSP" "PerCpu_get (ks_tss_rsp0 st) BSP \<noteq> None"
  shows "\<exists>st'. (if b then set_kernel_stack st v else Some st) = Some st' \<and> ksim st st' \<and>
    ks_global st' = ks_global st \<and> ks_cpu_scheduler st' = ks_cpu_scheduler st \<and> ks_regs st' = ks_regs st \<and> ks_mem st' = ks_mem st"
proof (cases b)
  case True
  obtain p where p: "PerCpu_set (ks_tss_rsp0 st) BSP v = Some p"
    using per_cpu_cells.put_present assms(2) by (metis not_None_eq)
  then have "set_kernel_stack st v = Some (st\<lparr>ks_tss_rsp0 := p\<rparr>)" using assms(1) by (simp add: set_kernel_stack_def)
  then show ?thesis using True ksim_tss by fastforce
qed simp

definition schedule_prefix :: "kstate \<Rightarrow> TaskId \<Rightarrow> TaskId \<Rightarrow> kstate \<Rightarrow> bool" where
  "schedule_prefix st c k st5 \<longleftrightarrow> (\<exists>st1 st2 st3 st4 cs t tk.
     pick_next (st\<lparr>ks_regs := snd (disable_interrupts_save (ks_regs st))\<rparr>) (ks_cpu st) = Some (k, st1) \<and>
     PerCpu_get (ks_cpu_scheduler st1) (ks_cpu st) = Some cs \<and> pcs_current cs = c \<and>
     requeue_outgoing st1 (ks_cpu st) c = Some st2 \<and> set_current st2 (ks_cpu st) k = Some st3 \<and>
     task_of st3 k = Some t \<and>
     (if t_is_user_task t then set_kernel_stack st3 (t_kernel_stack_top t) else Some st3) = Some st4 \<and>
     PerCpu_set (ks_ticks_remaining st4) (ks_cpu st) (t_ticks_remaining t) = Some tk \<and>
     st5 = st4\<lparr>ks_ticks_remaining := tk\<rparr> \<and> ks_global st4 = ks_global st3)"

lemma schedule_of_prefix:
  assumes "schedule_prefix st c k st5" "task_of st5 c = Some tc" "task_of st5 k = Some t"
  shows "schedule st =
    (if t_saved_rsp t = 0
     then Some (NoSwitch, sprint (Msg (nl @ ''[SCHEDULER] Incoming new RSP is zero...'' @ nl)) st5)
     else let (old_rsp, m, regs) = switch_to (ks_mem st5) (ks_regs st5) (t_saved_rsp t) (t_cr3 t)
          in do { st' \<leftarrow> set_task_in st5 c (tc\<lparr>t_saved_rsp := old_rsp\<rparr>);
                  Some (Switched, st'\<lparr>ks_mem := m, ks_regs := regs\<rparr>) })"
  using assms unfolding schedule_prefix_def
  by (auto simp: schedule_def Let_def)

lemma schedule_prefix_sim:
  assumes "kbase st" "sched_at st BSP c Q"
  shows "\<exists>k st5 Q' t. schedule_prefix st c k st5 \<and> ksim st st5 \<and> sched_at st5 BSP k Q' \<and>
    task_of st5 k = Some t \<and> alive t"
proof -
  let ?st0 = "st\<lparr>ks_regs := snd (disable_interrupts_save (ks_regs st))\<rparr>"
  obtain ti where ti: "task_of st TaskId_IDLE = Some ti" "alive ti" and cpu: "ks_cpu st = BSP"
    using assms(1) by (auto simp: kbase_def)
  obtain k st1 Q1 t1 where pick: "pick_next ?st0 BSP = Some (k, st1)" "ksim ?st0 st1" "sched_at st1 BSP c Q1"
    "task_of st1 k = Some t1" "k = TaskId_IDLE \<or> t_state t1 = Running"
    using pick_next_sim [of ?st0 BSP c Q ti] assms(2) ti(1) by auto
  have s1: "ksim st st1" by (rule ksim_trans [OF ksim_simple(3) pick(2)])
  have al: "alive t1"
    using pick(4,5) ti by (auto elim!: ksim_task [OF s1] simp: task_sim_def alive_def)
  obtain cs where cs: "PerCpu_get (ks_cpu_scheduler st1) BSP = Some cs" "pcs_current cs = c"
    using pick(3) by (auto simp: sched_at_def)
  obtain st2 Q2 where rq: "requeue_outgoing st1 BSP c = Some st2" "ksim st1 st2" "sched_at st2 BSP c Q2"
    using requeue_sim [OF pick(3)] by blast
  obtain p where p: "set_current st2 BSP k = Some (st2\<lparr>ks_cpu_scheduler := p\<rparr>)"
    "sched_at (st2\<lparr>ks_cpu_scheduler := p\<rparr>) BSP k Q2"
    using set_current_ok [OF rq(3)] by blast
  let ?st3 = "st2\<lparr>ks_cpu_scheduler := p\<rparr>"
  obtain t where t: "task_of ?st3 k = Some t" "alive t"
    by (rule ksim_task [OF rq(2) pick(4)]) (use al in \<open>auto simp: task_sim_def\<close>)
  have s3: "ksim st ?st3" by (rule ksim_trans [OF ksim_trans [OF s1 rq(2)] ksim_simple(1)])
  have b3: "kbase ?st3" by (rule kbase_sim [OF assms(1) s3])
  obtain st4 where st4: "(if t_is_user_task t then set_kernel_stack ?st3 (t_kernel_stack_top t) else Some ?st3) = Some st4"
    "ksim ?st3 st4" "ks_global st4 = ks_global ?st3" "ks_cpu_scheduler st4 = ks_cpu_scheduler ?st3"
    using set_kernel_stack_sim [of ?st3] b3 unfolding kbase_def by blast
  have "PerCpu_get (ks_ticks_remaining st4) BSP \<noteq> None"
    using kbase_sim [OF b3 st4(2)] by (simp add: kbase_def)
  then obtain tk where tk: "PerCpu_set (ks_ticks_remaining st4) BSP (t_ticks_remaining t) = Some tk"
    using per_cpu_cells.put_present by (metis not_None_eq)
  let ?st5 = "st4\<lparr>ks_ticks_remaining := tk\<rparr>"
  have "schedule_prefix st c k ?st5"
    unfolding schedule_prefix_def using pick(1) cs rq(1) p(1) t(1) st4(1,3) tk cpu by fastforce
  moreover have "ksim st ?st5" by (rule ksim_trans [OF ksim_trans [OF s3 st4(2)] ksim_ticks [OF tk]])
  moreover have "sched_at ?st5 BSP k Q2" using p(2) st4(4) by (simp add: sched_at_def)
  moreover have "task_of ?st5 k = Some t" using t(1) st4(3) by simp
  ultimately show ?thesis using t(2) by blast
qed

lemma switch_final:
  fixes m :: memory and regs :: cpu_regs
  assumes "set_task_in st5 c (tc\<lparr>t_saved_rsp := old\<rparr>) = Some st6" "task_of st5 c = Some tc" "table_ok (ks_global st5)"
    "saved_ok st5 c" "old \<noteq> 0" "task_of st5 k = Some t" "alive t" "sched_at st5 BSP k Q"
  defines "st' \<equiv> st6\<lparr>ks_mem := m, ks_regs := regs\<rparr>"
  shows "fate st5 st'" "sched_at st' BSP k Q" "\<exists>t'. task_of st' k = Some t' \<and> alive t'" "saved_ok st' k"
proof -
  obtain g where g: "set_task (ks_global st5) c (tc\<lparr>t_saved_rsp := old\<rparr>) = Some g" "st6 = st5\<lparr>ks_global := g\<rparr>"
    using assms(1) by (auto simp: set_task_in_def some_conv)
  have st': "st' = st5\<lparr>ks_global := g, ks_mem := m, ks_regs := regs\<rparr>" by (simp add: st'_def g(2))
  note get = task_of_set [OF g(1)]
  have "rel_option task_fate (task_of st5 j) (get_task g j)" for j
    using get [of j] assms(2) by (cases "task_of st5 j") (auto simp: task_fate_def alive_def)
  moreover have "table_ok g"
    using table_ok_set_task [OF assms(3) g(1)] get_task_id [OF assms(3,2)] by simp
  ultimately show "fate st5 st'" by (simp add: fate_def st')
  show "sched_at st' BSP k Q" using assms(8) by (simp add: st' sched_at_def)
  show "\<exists>t'. task_of st' k = Some t' \<and> alive t'"
    using get [of k] assms(2,6,7) by (auto simp: st' alive_def)
  show "saved_ok st' k" using get assms(4,5) by (auto simp: saved_ok_def st')
qed

lemma schedule_core:
  assumes "kbase st" "sched_at st BSP c Q" "task_of st c = Some tc" "saved_ok st c" "r_rsp (ks_regs st) \<noteq> 48"
  shows "\<exists>r st' k Q' t. schedule st = Some (r, st') \<and> fate st st' \<and> sched_at st' BSP k Q' \<and>
    task_of st' k = Some t \<and> alive t \<and> saved_ok st' k \<and> (r = NoSwitch \<longrightarrow> k = c)"
proof -
  obtain k st5 Q' t where pre: "schedule_prefix st c k st5" "ksim st st5" "sched_at st5 BSP k Q'"
    "task_of st5 k = Some t" "alive t"
    using schedule_prefix_sim [OF assms(1,2)] by blast
  obtain t5 where t5: "task_of st5 c = Some t5" by (rule ksim_task [OF pre(2) assms(3)])
  note sv = saved_ok_sim [OF assms(4) pre(2)]
  have tb: "table_ok (ks_global st5)" using kbase_sim [OF assms(1) pre(2)] by (simp add: kbase_def)
  note sch = schedule_of_prefix [OF pre(1) t5 pre(4)]
  show ?thesis
  proof (cases "t_saved_rsp t = 0")
    case True
    then have kc: "k = c" using sv pre(4) by (auto simp: saved_ok_def)
    let ?st' = "sprint (Msg (nl @ ''[SCHEDULER] Incoming new RSP is zero...'' @ nl)) st5"
    have "fate st ?st'" by (rule ksim_fate [OF ksim_trans [OF pre(2) ksim_simple(2)]])
    moreover have "task_of ?st' k = Some t" "saved_ok ?st' k"
      using pre(4) sv kc by (simp_all add: sprint_def saved_ok_def)
    ultimately show ?thesis using sch True pre kc by fastforce
  next
    case False
    obtain old m regs where sw: "switch_to (ks_mem st5) (ks_regs st5) (t_saved_rsp t) (t_cr3 t) = (old, m, regs)"
      by (metis prod_cases3)
    have old: "old \<noteq> 0"
      using switch_to_push_frame [OF sw] assms(5) pre(2) by (simp add: ksim_def)
    obtain g where g: "set_task_in st5 c (t5\<lparr>t_saved_rsp := old\<rparr>) = Some (st5\<lparr>ks_global := g\<rparr>)"
      using set_task_in_ok [OF t5] by blast
    note fin = switch_final [OF g t5 tb sv old pre(4,5,3), where m = m and regs = regs]
    have "schedule st = Some (Switched, st5\<lparr>ks_global := g, ks_mem := m, ks_regs := regs\<rparr>)"
      using sch False sw g by simp
    moreover have "fate st (st5\<lparr>ks_global := g, ks_mem := m, ks_regs := regs\<rparr>)"
      by (rule fate_trans [OF ksim_fate [OF pre(2)] fin(1)])
    ultimately show ?thesis using fin(2-4) by blast
  qed
qed

end
