(* ===== verification/Timer_Invariant.thy ===== *)
theory Timer_Invariant
  imports Kernel_Invariant
begin

text \<open>
  The timer interrupt keeps the kernel invariant and never panics.  The proof
  follows the interrupt through its phases: the tick, the drain of the deferred
  work, the tombstone cleanup, the reaper, and the switch.
\<close>

section \<open>The state between the phases\<close>

definition kst :: "kstate \<Rightarrow> TaskId \<Rightarrow> bool" where
  "kst st c \<longleftrightarrow> kbase st \<and> runs st c \<and> task_of st c \<noteq> None \<and> saved_ok st c \<and> r_rsp (ks_regs st) \<noteq> 48"

text \<open>The running task is alive, or the interrupt will switch away from it.\<close>

definition runs_or_leaves :: "kstate \<Rightarrow> TaskId \<Rightarrow> bool" where
  "runs_or_leaves st c \<longleftrightarrow> (\<exists>t. task_of st c = Some t \<and> alive t) \<or> PerCpu_get (ks_force_reschedule st) BSP = Some True"

lemma kst_cpu: "kst st c \<Longrightarrow> ks_cpu st = BSP"
  by (simp add: kst_def kbase_def)

lemma kst_current: "kst st c \<Longrightarrow> get_current_task_id st = Some c"
  using sched_at_current [of st c] by (auto simp: kst_def kbase_def runs_def)

lemma kst_sim:
  assumes "kst st c" "ksim st st'" "runs st' c"
  shows "kst st' c"
proof -
  obtain t where "task_of st c = Some t" using assms(1) by (auto simp: kst_def)
  then obtain t' where "task_of st' c = Some t'" by (rule ksim_task [OF assms(2)])
  moreover have "r_rsp (ks_regs st') = r_rsp (ks_regs st)" using assms(2) by (simp add: ksim_def)
  ultimately show ?thesis
    using assms kbase_sim [of st st'] saved_ok_sim [of st c st'] by (simp add: kst_def)
qed

lemma runs_or_leaves_sim:
  assumes "runs_or_leaves st c" "ksim st st'"
  shows "runs_or_leaves st' c"
proof -
  have f: "ks_force_reschedule st' = ks_force_reschedule st" using assms(2) by (simp add: ksim_def)
  show ?thesis using assms(1) fate_alive [OF ksim_fate [OF assms(2)], of c _ True]
    unfolding runs_or_leaves_def f by blast
qed

section \<open>The tick\<close>

lemma ksim_sleep_queue: "sq_invar q \<Longrightarrow> ksim st (st\<lparr>ks_sleep_queue := q\<rparr>)"
  by (simp add: ksim_def)

lemma wake_all_sim:
  assumes "kbase st" "sched_at st BSP c Q"
  shows "\<exists>st' Q'. wake_all wake_ignoring ids st = Some st' \<and> ksim st st' \<and> sched_at st' BSP c Q'"
  using assms
proof (induction ids arbitrary: st Q)
  case Nil
  then show ?case by auto
next
  case (Cons i ids)
  have "\<And>t. task_of st i = Some t \<Longrightarrow> t_thread t \<in> dom (ks_threads st)"
    using Cons.prems(1) by (simp add: kbase_def)
  then obtain r st1 Q1 where w: "wake st i = Some (r, st1)" "ksim st st1" "sched_at st1 BSP c Q1"
    using wake_sim [OF Cons.prems(2)] by blast
  obtain st2 Q2 where "wake_all wake_ignoring ids st1 = Some st2" "ksim st1 st2" "sched_at st2 BSP c Q2"
    using Cons.IH [OF kbase_sim [OF Cons.prems(1) w(2)] w(3)] by blast
  moreover have "wake_ignoring i st = Some st1" using w(1) by (simp add: wake_ignoring_def)
  ultimately show ?case using ksim_trans [OF w(2)] by auto
qed

lemma tick_sleep_queue_sim:
  assumes "kbase st" "sched_at st BSP c Q"
  shows "\<exists>n st' Q'. tick_sleep_queue st = Some (n, st') \<and> ksim st st' \<and> sched_at st' BSP c Q'"
proof -
  let ?ids = "map fst (filter (\<lambda>x. snd x \<le> 1) (sq_sleepers (ks_sleep_queue st)))"
  obtain st1 Q1 where w: "wake_all wake_ignoring ?ids st = Some st1" "ksim st st1" "sched_at st1 BSP c Q1"
    using wake_all_sim [OF assms] by blast
  have "sq_invar (ks_sleep_queue st)" using assms(1) by (simp add: kbase_def)
  then obtain q where q: "SleepQueue_tick wake_ignoring (ks_sleep_queue st) st = Some (length ?ids, q, st1)" "sq_invar q"
    using SleepQueue_tick_refines [of "ks_sleep_queue st" wake_ignoring st] w(1) by auto
  then show ?thesis
    using w(3) ksim_trans [OF w(2) ksim_sleep_queue [OF q(2)]] by (fastforce simp: tick_sleep_queue_def)
qed

lemma on_timer_tick_core:
  assumes "kst st c"
  shows "\<exists>b st'. on_timer_tick st = Some (b, st') \<and> ksim st st' \<and> kst st' c"
proof -
  obtain Q where at: "sched_at st BSP c Q" and kb: "kbase st" using assms by (auto simp: kst_def runs_def)
  obtain n st1 Q1 where s1: "tick_sleep_queue st = Some (n, st1)" "ksim st st1" "sched_at st1 BSP c Q1"
    using tick_sleep_queue_sim [OF kb at] by blast
  have k1: "kst st1 c" using kst_sim [OF assms s1(2)] s1(3) by (auto simp: runs_def)
  obtain t where t: "task_of st1 c = Some t" using k1 by (auto simp: kst_def)
  let ?t = "t\<lparr>t_ticks_executed := t_ticks_executed t + 1\<rparr>"
  obtain g where g: "set_task_in st1 c ?t = Some (st1\<lparr>ks_global := g\<rparr>)"
    using set_task_in_ok [OF t] by blast
  have s2: "ksim st1 (st1\<lparr>ks_global := g\<rparr>)"
    by (rule ksim_set_task [OF g t]) (simp add: task_sim_def alive_def)
  obtain rem where rem: "PerCpu_get (ks_ticks_remaining st1) BSP = Some rem"
    using k1 by (auto simp: kst_def kbase_def)
  obtain tk where tk: "PerCpu_set (ks_ticks_remaining st1) BSP (if rem \<le> 1 then TASK_QUANTUM_TICKS else rem - 1) = Some tk"
    using per_cpu_cells.put_present [OF rem] by blast
  let ?st' = "st1\<lparr>ks_global := g, ks_ticks_remaining := tk\<rparr>"
  have s3: "ksim (st1\<lparr>ks_global := g\<rparr>) ?st'"
    using ksim_ticks [where st = "st1\<lparr>ks_global := g\<rparr>"] tk by simp
  have sim: "ksim st ?st'" by (rule ksim_trans [OF ksim_trans [OF s1(2) s2] s3])
  have "on_timer_tick st = Some (rem \<le> 1, ?st')"
    using s1(1) rem t g tk kst_cpu [OF k1] kst_current [OF k1]
    by (auto simp: on_timer_tick_def)
  moreover have "runs ?st' c" using s1(3) by (auto simp: runs_def sched_at_def)
  ultimately show ?thesis using sim kst_sim [OF assms sim] by blast
qed

section \<open>Deferred kills\<close>

lemma queue_reaper_or_log_ok:
  assumes "rpq_invar (ks_reaper_queue st)"
  shows "\<exists>q out. queue_reaper_or_log st k = Some (st\<lparr>ks_reaper_queue := q, ks_serial := out\<rparr>) \<and> rpq_invar q \<and>
     (rpq_queue_len (ks_reaper_queue st) < REAPER_QUEUE_SIZE \<longrightarrow>
        rpq_contents q = rpq_contents (ks_reaper_queue st) @ [k])"
  using assms
proof (cases rule: reaper_fifo.push_cases [of "ks_reaper_queue st" k])
  case (ok q')
  then have "queue_reaper_or_log st k = Some (st\<lparr>ks_reaper_queue := q', ks_serial := ks_serial st\<rparr>)"
    by (simp add: queue_reaper_or_log_def queue_task_reaper_def)
  then show ?thesis using ok by blast
next
  case (full e)
  let ?msg = "Msg (nl @ ''[REAPER] Failed to queue task reaper...'' @ nl)"
  have "queue_reaper_or_log st k = Some (st\<lparr>ks_reaper_queue := ks_reaper_queue st, ks_serial := ks_serial st @ [?msg]\<rparr>)"
    using full by (simp add: queue_reaper_or_log_def queue_task_reaper_def sprint_def)
  then show ?thesis using full assms by fastforce
qed

lemma mark_dying_ok:
  assumes "task_of st k = Some t" "t_thread t \<in> dom (ks_threads st)"
  shows "\<exists>g ths. mark_dying st k t = Some (st\<lparr>ks_global := g, ks_threads := ths\<rparr>) \<and>
    set_task (ks_global st) k (t\<lparr>t_state := Dying\<rparr>) = Some g \<and> dom ths = dom (ks_threads st)"
proof -
  obtain g where g: "set_task (ks_global st) k (t\<lparr>t_state := Dying\<rparr>) = Some g"
    "set_task_in st k (t\<lparr>t_state := Dying\<rparr>) = Some (st\<lparr>ks_global := g\<rparr>)"
    using set_task_in_ok [OF assms(1)] by blast
  obtain ths where ths: "set_thread_state (ks_threads st) (t_thread t) ThDying = Some ths"
    using set_thread_state_Some assms(2) by blast
  then show ?thesis using g set_thread_state_dom [OF ths] by (auto simp: mark_dying_def)
qed

text \<open>
  The state after a task other than the idle task was marked as dying and queued
  for the reaper.
\<close>

lemma kst_mark_dying:
  fixes out :: "serial_msg list"
  assumes "kst st c" "task_of st k = Some t" "k \<noteq> TaskId_IDLE"
    "set_task (ks_global st) k (t\<lparr>t_state := Dying\<rparr>) = Some g" "dom ths = dom (ks_threads st)" "rpq_invar q"
    "PerCpu_get f BSP \<noteq> None"
  defines "st' \<equiv> st\<lparr>ks_global := g, ks_threads := ths, ks_reaper_queue := q, ks_serial := out, ks_force_reschedule := f\<rparr>"
  shows "kst st' c" "tomb_ok st \<Longrightarrow> tomb_ok st'"
proof -
  note get = task_of_set [OF assms(4)]
  have tb: "table_ok (ks_global st)" using assms(1) by (simp add: kst_def kbase_def)
  then have "table_ok g" using table_ok_set_task [OF tb assms(4)] get_task_id [OF tb assms(2)] by simp
  then have "kbase st'"
    using assms(1,2,3,5,6,7) get unfolding kst_def kbase_def by (simp add: st'_def)
  moreover have "saved_ok st' c"
    using assms(1,2) get by (auto simp: kst_def saved_ok_def st'_def)
  moreover have "runs st' c" using assms(1) by (auto simp: kst_def runs_def sched_at_def st'_def)
  ultimately show "kst st' c" using assms(1) get by (auto simp: kst_def st'_def)
  show "tomb_ok st'" if "tomb_ok st"
    using that get by (auto simp: tomb_ok_def st'_def alive_def)
qed

lemma kst_reaper_queue:
  "kst st c \<Longrightarrow> rpq_invar q \<Longrightarrow> kst (st\<lparr>ks_reaper_queue := q, ks_serial := out\<rparr>) c"
  by (auto simp: kst_def kbase_def runs_def sched_at_def saved_ok_def)

definition stack_of :: "Task \<Rightarrow> u64 \<times> usize" where
  "stack_of t = (t_stack_base t, t_stack_size t)"

definition drains :: "kstate \<Rightarrow> kstate \<Rightarrow> bool" where
  "drains st st' \<longleftrightarrow> ks_tombstone_queue st' = ks_tombstone_queue st \<and> ks_freed_stacks st' = ks_freed_stacks st \<and>
     (\<forall>k. map_option stack_of (task_of st' k) = map_option stack_of (task_of st k))"

lemma kill_core:
  assumes "kst st c" "tomb_ok st" "runs_or_leaves st c" "expand_task_id a \<noteq> TaskId_IDLE"
  shows "\<exists>st'. kill_task st a = Some st' \<and> kst st' c \<and> tomb_ok st' \<and> runs_or_leaves st' c \<and> drains st st'"
proof -
  let ?k = "expand_task_id a"
  have kb: "kbase st" using assms(1) by (simp add: kst_def)
  then have rq: "rpq_invar (ks_reaper_queue st)" and cpu: "ks_cpu st = BSP" by (auto simp: kbase_def)
  show ?thesis
  proof (cases "task_of st ?k")
    case None
    obtain q out where q: "queue_reaper_or_log st ?k = Some (st\<lparr>ks_reaper_queue := q, ks_serial := out\<rparr>)" "rpq_invar q"
      using queue_reaper_or_log_ok [OF rq] by blast
    then have "kill_task st a = Some (st\<lparr>ks_reaper_queue := q, ks_serial := out\<rparr>)"
      using None kst_current [OF assms(1)] by (simp add: kill_task_def Let_def)
    then show ?thesis
      using kst_reaper_queue [OF assms(1) q(2), of out] assms(2,3) by (simp add: tomb_ok_def runs_or_leaves_def drains_def)
  next
    case (Some t)
    obtain g ths where m: "mark_dying st ?k t = Some (st\<lparr>ks_global := g, ks_threads := ths\<rparr>)"
      "set_task (ks_global st) ?k (t\<lparr>t_state := Dying\<rparr>) = Some g" "dom ths = dom (ks_threads st)"
      using mark_dying_ok [OF Some] kb Some by (auto simp: kbase_def)
    obtain q out where q: "queue_reaper_or_log (st\<lparr>ks_global := g, ks_threads := ths\<rparr>) ?k =
        Some (st\<lparr>ks_global := g, ks_threads := ths, ks_reaper_queue := q, ks_serial := out\<rparr>)" "rpq_invar q"
      using queue_reaper_or_log_ok [of "st\<lparr>ks_global := g, ks_threads := ths\<rparr>" ?k] rq by auto
    obtain f0 where f0: "PerCpu_get (ks_force_reschedule st) BSP = Some f0" using kb by (auto simp: kbase_def)
    obtain f1 where f1: "PerCpu_set (ks_force_reschedule st) BSP True = Some f1"
      using per_cpu_cells.put_present [OF f0, of True] by blast
    define f where "f = (if ?k = c then f1 else ks_force_reschedule st)"
    let ?st' = "st\<lparr>ks_global := g, ks_threads := ths, ks_reaper_queue := q, ks_serial := out, ks_force_reschedule := f\<rparr>"
    have fp: "PerCpu_get f BSP \<noteq> None" using f0 per_cpu_cells.get_put_same [OF f1] unfolding f_def by auto
    have "kill_task st a = Some ?st'"
      using Some m(1) q(1) f1 cpu kst_current [OF assms(1)] by (simp add: kill_task_def Let_def f_def)
    moreover note kst_mark_dying [OF assms(1) Some assms(4) m(2,3) q(2) fp, of out]
    moreover have "runs_or_leaves ?st' c"
      using assms(3) per_cpu_cells.get_put_same [OF f1] task_of_set [OF m(2), of c]
      by (auto simp: runs_or_leaves_def f_def)
    moreover have "drains st ?st'"
      using task_of_set [OF m(2)] Some by (auto simp: drains_def stack_of_def)
    ultimately show ?thesis using assms(2) by blast
  qed
qed

lemma drain_core:
  assumes "kst st c" "tomb_ok st" "runs_or_leaves st c"
  shows "\<exists>st'. drain_system_tasks st = Some st' \<and> kst st' c \<and> tomb_ok st' \<and> runs_or_leaves st' c \<and> drains st st'"
  using assms
proof (induction "stq_contents (ks_system_task_queue st)" arbitrary: st)
  case Nil
  have iv: "stq_invar (ks_system_task_queue st)" using Nil.prems(1) by (simp add: kst_def kbase_def)
  show ?case
    using Nil system_fifo.pop_empty [OF iv] by (subst drain_system_tasks.simps) (simp add: drains_def)
next
  case (Cons e es)
  have iv: "stq_invar (ks_system_task_queue st)" using Cons.prems(1) by (simp add: kst_def kbase_def)
  obtain q where q: "SystemTaskQueue_pop (ks_system_task_queue st) = Some (Some e, q)" "stq_invar q" "stq_contents q = es"
    using system_fifo.pop_cons [OF iv] Cons(2) by metis
  let ?st = "st\<lparr>ks_system_task_queue := q\<rparr>"
  have idle: "\<forall>x \<in> set (e # es). expand_task_id (st_func_arg x) \<noteq> TaskId_IDLE"
    using Cons.prems(1) unfolding kst_def kbase_def Cons(2) by blast
  have k0: "kst ?st c" using Cons.prems(1) q idle by (auto simp: kst_def kbase_def runs_def sched_at_def saved_ok_def)
  have "tomb_ok ?st" "runs_or_leaves ?st c" using Cons.prems(2,3) by (simp_all add: tomb_ok_def runs_or_leaves_def)
  then obtain st1 where st1: "kill_task ?st (st_func_arg e) = Some st1" "kst st1 c" "tomb_ok st1"
    "runs_or_leaves st1 c" "drains ?st st1"
    using kill_core [OF k0, of "st_func_arg e"] idle by auto
  have "run_system_task ?st e = Some st1"
    using st1(1) by (simp add: run_system_task_def task_killer_def split: SystemFunction.splits)
  then have "drain_system_tasks st = drain_system_tasks st1"
    using q(1) by (subst drain_system_tasks.simps) simp
  moreover have "es = stq_contents (ks_system_task_queue st1)"
    using kill_task_system_queue [OF st1(1)] q(3) by simp
  ultimately show ?case using Cons(1) [of st1] st1 by (auto simp: drains_def)
qed

section \<open>The tombstone cleanup\<close>

definition buried :: "TaskId list \<Rightarrow> kstate \<Rightarrow> kstate \<Rightarrow> bool" where
  "buried L st st' \<longleftrightarrow> (\<forall>k. task_of st' k = (if k \<in> set L then None else task_of st k)) \<and>
     ks_force_reschedule st' = ks_force_reschedule st \<and> ks_reaper_queue st' = ks_reaper_queue st \<and>
     set (ks_freed_stacks st') =
       set (ks_freed_stacks st) \<union> {stack_of t | k t. k \<in> set L \<and> task_of st k = Some t}"

lemma kst_thread: "kst st c \<Longrightarrow> task_of st k = Some t \<Longrightarrow> \<exists>th. ks_threads st (t_thread t) = Some th"
  unfolding kst_def kbase_def by blast

lemma bury_one_core:
  assumes "kst st c" "k \<noteq> c" "k \<noteq> TaskId_IDLE"
  shows "\<exists>st'. bury_one st k = Some st' \<and> kst st' c \<and> buried [k] st st'"
proof (cases "task_of st k")
  case None
  then have "bury_one st k = Some st" by (simp add: bury_one_def remove_task_stale)
  then show ?thesis using assms(1) None by (simp add: buried_def)
next
  case (Some t)
  have tb: "table_ok (ks_global st)" using assms(1) by (simp add: kst_def kbase_def)
  obtain th where th: "ks_threads st (t_thread t) = Some th"
    using kst_thread [OF assms(1) Some] by blast
  let ?ths = "(ks_threads st)(t_thread t \<mapsto> th\<lparr>th_task_id := None, th_state := ThDead\<rparr>)"
  obtain g where g: "remove_task (ks_global st) (ks_threads st) k = Some (g, ?ths, Some t)"
    "table_ok g" "get_task g k = None" "\<And>k'. k' \<noteq> k \<Longrightarrow> get_task g k' = task_of st k'"
    "ts_slot_generation (gs_tasks g ! unat (slot_index k)) = slot_generation k + 1"
    by (rule remove_task_live [where ths = "ks_threads st", OF tb Some th]) blast
  let ?st' = "st\<lparr>ks_global := g, ks_threads := ?ths, ks_freed_stacks := stack_of t # ks_freed_stacks st\<rparr>"
  have get: "get_task g j = (if j = k then None else task_of st j)" for j using g(3,4) by simp
  have d: "dom ?ths = dom (ks_threads st)" using th by auto
  have "kbase ?st'"
    using assms(1,3) g(2) get d unfolding kst_def kbase_def by (simp add: dom_def)
  then have "kst ?st' c"
    using assms(1,2) get by (auto simp: kst_def runs_def sched_at_def saved_ok_def)
  moreover have "bury_one st k = Some ?st'" using g(1) by (simp add: bury_one_def stack_of_def)
  moreover have "buried [k] st ?st'" using Some get by (auto simp: buried_def)
  ultimately show ?thesis by blast
qed

lemma buried_Cons:
  assumes "buried [k] st st1" "buried L st1 st2"
  shows "buried (k # L) st st2"
  using assms by (auto simp: buried_def)

lemma kst_tombstone_queue: "kst st c \<Longrightarrow> tsq_invar q \<Longrightarrow> kst (st\<lparr>ks_tombstone_queue := q\<rparr>) c"
  by (auto simp: kst_def kbase_def runs_def sched_at_def saved_ok_def)

lemma kst_tsq: "kst st c \<Longrightarrow> tsq_invar (ks_tombstone_queue st)"
  by (simp add: kst_def kbase_def)

lemma bury_loop_core:
  assumes "kst st c" "tsq_contents (ks_tombstone_queue st) = L" "c \<notin> set L" "TaskId_IDLE \<notin> set L"
  shows "\<exists>st'. bury_loop st = Some st' \<and> kst st' c \<and> buried L st st' \<and> tsq_contents (ks_tombstone_queue st') = []"
  using assms
proof (induction L arbitrary: st)
  case Nil
  then show ?case
    using tombstone_fifo.pop_empty [OF kst_tsq [OF Nil(1)]]
    by (subst bury_loop.simps) (simp add: buried_def)
next
  case (Cons k L)
  obtain q where q: "TombstoneQueue_pop (ks_tombstone_queue st) = Some (Some k, q)" "tsq_invar q" "tsq_contents q = L"
    using tombstone_fifo.pop_cons [OF kst_tsq [OF Cons.prems(1)] Cons.prems(2)] by blast
  let ?st = "st\<lparr>ks_tombstone_queue := q\<rparr>"
  obtain st1 where st1: "bury_one ?st k = Some st1" "kst st1 c" "buried [k] ?st st1"
    using bury_one_core [OF kst_tombstone_queue [OF Cons.prems(1) q(2)], of k] Cons.prems by auto
  have "tsq_contents (ks_tombstone_queue st1) = L" using bury_one_tombstone_queue [OF st1(1)] q(3) by simp
  then obtain st2 where st2: "bury_loop st1 = Some st2" "kst st2 c" "buried L st1 st2"
    "tsq_contents (ks_tombstone_queue st2) = []"
    using Cons.IH [OF st1(2)] Cons.prems by auto
  have "bury_loop st = Some st2" using q(1) st1(1) st2(1) by (subst bury_loop.simps) simp
  moreover have "buried (k # L) st st2"
    using buried_Cons [OF st1(3) st2(3)] by (simp add: buried_def)
  ultimately show ?case using st2 by blast
qed

lemma tombstone_cleanup_core:
  assumes "kst st c" "tsq_contents (ks_tombstone_queue st) = L" "c \<notin> set L" "TaskId_IDLE \<notin> set L"
  shows "\<exists>st'. tombstone_cleanup st = Some st' \<and> kst st' c \<and> buried L st st' \<and> tsq_contents (ks_tombstone_queue st') = []"
proof (cases "tsq_queue_len (ks_tombstone_queue st) = 0")
  case True
  then have "L = []" using assms(2) by (metis length_0_conv length_tsq_contents)
  then show ?thesis using True assms by (simp add: tombstone_cleanup_def buried_def)
next
  case False
  obtain st1 where st1: "bury_loop st = Some st1" "kst st1 c" "buried L st st1" "tsq_contents (ks_tombstone_queue st1) = []"
    using bury_loop_core [OF assms] by blast
  let ?st' = "sprint (MsgField (nl @ ''[REAPER] Tombstone cleanup reaped dead task(s): '')
    (of_nat (tsq_queue_len (ks_tombstone_queue st)))) st1"
  have "kst ?st' c" by (rule kst_sim [OF st1(2)]) (use st1(2) in \<open>simp_all add: kst_def runs_def\<close>)
  then show ?thesis using False st1 by (simp add: tombstone_cleanup_def Let_def buried_def sprint_def)
qed

section \<open>The reaper\<close>

definition reaped :: "kstate \<Rightarrow> kstate \<Rightarrow> bool" where
  "reaped st st' \<longleftrightarrow> (\<forall>k. rel_option task_fate (task_of st k) (task_of st' k)) \<and>
     ks_force_reschedule st' = ks_force_reschedule st \<and> ks_freed_stacks st' = ks_freed_stacks st"

lemma reap_one_core:
  assumes "kst st c" "tomb_ok st"
  shows "\<exists>st'. reap_one st k = Some st' \<and> kst st' c \<and> tomb_ok st' \<and> reaped st st'"
proof (cases "\<exists>t. task_of st k = Some t \<and> t_state t = Dying")
  case False
  then have "reap_one st k = Some st" by (auto simp: reap_one_def split: option.splits)
  moreover have "rel_option task_fate x x" for x by (cases x) (simp_all add: task_fate_def)
  ultimately show ?thesis using assms by (simp add: reaped_def)
next
  case True
  then obtain t where t: "task_of st k = Some t" "t_state t = Dying" by blast
  obtain g where g: "set_task (ks_global st) k (t\<lparr>t_state := Dead\<rparr>) = Some g"
    "set_task_in st k (t\<lparr>t_state := Dead\<rparr>) = Some (st\<lparr>ks_global := g\<rparr>)"
    using set_task_in_ok [OF t(1)] by blast
  have sim: "ksim st (st\<lparr>ks_global := g\<rparr>)"
    by (rule ksim_set_task [OF g(2) t(1)]) (simp add: task_sim_def alive_def t(2))
  have k1: "kst (st\<lparr>ks_global := g\<rparr>) c"
    by (rule kst_sim [OF assms(1) sim]) (use assms(1) in \<open>simp add: kst_def runs_def\<close>)
  have t1: "tomb_ok (st\<lparr>ks_global := g\<rparr>)" by (rule tomb_ok_sim [OF assms(2) sim])
  have r1: "reaped st (st\<lparr>ks_global := g\<rparr>)" using ksim_fate [OF sim] by (simp add: reaped_def fate_def)
  have dead: "get_task g k = Some (t\<lparr>t_state := Dead\<rparr>)" using task_of_set [OF g(1), of k] by simp
  from kst_tsq [OF assms(1)] show ?thesis
  proof (cases rule: tombstone_fifo.push_cases [of "ks_tombstone_queue st" k])
    case (ok q')
    let ?st' = "st\<lparr>ks_global := g, ks_tombstone_queue := q'\<rparr>"
    have "reap_one st k = Some ?st'" using t g(2) ok(1) by (simp add: reap_one_def)
    moreover have "tomb_ok ?st'" using t1 ok(3) dead by (simp add: tomb_ok_def alive_def)
    moreover have "reaped st ?st'" using r1 by (simp add: reaped_def)
    ultimately show ?thesis using kst_tombstone_queue [OF k1 ok(2)] by blast
  next
    case (full e)
    let ?st' = "sprint (Msg (''[REAPER] Failed to queue tombstone cleanup...'' @ nl)) (st\<lparr>ks_global := g\<rparr>)"
    have "reap_one st k = Some ?st'" using t g(2) full(1) by (simp add: reap_one_def)
    moreover have "tomb_ok ?st'" by (rule tomb_ok_sim [OF t1 ksim_simple(2)])
    moreover have "kst ?st' c"
      by (rule kst_sim [OF k1 ksim_simple(2)]) (use k1 in \<open>simp add: kst_def runs_def\<close>)
    moreover have "reaped st ?st'" using r1 by (simp add: reaped_def sprint_def)
    ultimately show ?thesis by blast
  qed
qed

lemma reaped_trans: "reaped st st1 \<Longrightarrow> reaped st1 st2 \<Longrightarrow> reaped st st2"
  unfolding reaped_def by (auto intro: rel_task_fate_trans)

lemma kst_rpq: "kst st c \<Longrightarrow> rpq_invar (ks_reaper_queue st)"
  by (simp add: kst_def kbase_def)

lemma kst_set_rpq: "kst st c \<Longrightarrow> rpq_invar q \<Longrightarrow> kst (st\<lparr>ks_reaper_queue := q\<rparr>) c"
  using kst_reaper_queue [of st c q "ks_serial st"] by simp

lemma reap_loop_core:
  assumes "kst st c" "tomb_ok st" "rpq_contents (ks_reaper_queue st) = L"
  shows "\<exists>st'. reap_loop st = Some st' \<and> kst st' c \<and> tomb_ok st' \<and> reaped st st' \<and> rpq_contents (ks_reaper_queue st') = []"
  using assms
proof (induction L arbitrary: st)
  case Nil
  have "rel_option task_fate x x" for x by (cases x) (simp_all add: task_fate_def)
  then show ?case
    using Nil reaper_fifo.pop_empty [OF kst_rpq [OF Nil(1)]]
    by (subst reap_loop.simps) (simp add: reaped_def)
next
  case (Cons k L)
  obtain q where q: "ReaperQueue_pop (ks_reaper_queue st) = Some (Some k, q)" "rpq_invar q" "rpq_contents q = L"
    using reaper_fifo.pop_cons [OF kst_rpq [OF Cons.prems(1)] Cons.prems(3)] by blast
  let ?st = "st\<lparr>ks_reaper_queue := q\<rparr>"
  have "tomb_ok ?st" using Cons.prems(2) by (simp add: tomb_ok_def)
  then obtain st1 where st1: "reap_one ?st k = Some st1" "kst st1 c" "tomb_ok st1" "reaped ?st st1"
    using reap_one_core [OF kst_set_rpq [OF Cons.prems(1) q(2)]] by blast
  have "rpq_contents (ks_reaper_queue st1) = L" using reap_one_reaper_queue [OF st1(1)] q(3) by simp
  then obtain st2 where st2: "reap_loop st1 = Some st2" "kst st2 c" "tomb_ok st2" "reaped st1 st2"
    "rpq_contents (ks_reaper_queue st2) = []"
    using Cons.IH [OF st1(2,3)] by blast
  have "reap_loop st = Some st2" using q(1) st1(1) st2(1) by (subst reap_loop.simps) simp
  moreover have "reaped st st2"
    using reaped_trans [OF st1(4) st2(4)] by (simp add: reaped_def)
  ultimately show ?case using st2 by blast
qed

lemma reap_dying_core:
  assumes "kst st c" "tomb_ok st"
  shows "\<exists>st'. reap_dying_tasks st = Some st' \<and> kst st' c \<and> tomb_ok st' \<and> reaped st st'"
proof (cases "rpq_queue_len (ks_reaper_queue st) = 0")
  case True
  have "rel_option task_fate x x" for x by (cases x) (simp_all add: task_fate_def)
  then show ?thesis using True assms by (simp add: reap_dying_tasks_def reaped_def)
next
  case False
  then show ?thesis using reap_loop_core [OF assms refl] by (auto simp: reap_dying_tasks_def)
qed

section \<open>The timer interrupt\<close>

lemma ksim_stack: "ksim st st' \<Longrightarrow> map_option stack_of (task_of st' k) = map_option stack_of (task_of st k)"
  by (cases "task_of st k") (auto simp: ksim_def task_sim_def stack_of_def dest!: spec [of _ k] elim!: option.rel_cases)

text \<open>Everything before the switch: the running task stays, and it is alive or about to be left.\<close>

definition timer_prefix :: "kstate \<Rightarrow> bool \<Rightarrow> kstate \<Rightarrow> bool" where
  "timer_prefix st b st' \<longleftrightarrow> (\<exists>st1 st2 st3.
     on_timer_tick (st\<lparr>ks_timer_ticks := ks_timer_ticks st + 1\<rparr>) = Some (b, st1) \<and>
     drain_system_tasks st1 = Some st2 \<and> tombstone_cleanup st2 = Some st3 \<and> reap_dying_tasks st3 = Some st')"

lemma timer_prefix_core:
  assumes "kinv st" "runs st c" "r_rsp (ks_regs st) \<noteq> 48"
  shows "\<exists>b st'. timer_prefix st b st' \<and> kst st' c \<and> tomb_ok st' \<and> runs_or_leaves st' c \<and>
    set (ks_freed_stacks st') \<subseteq> set (ks_freed_stacks st) \<union> {stack_of u | k u. k \<noteq> c \<and> task_of st k = Some u}"
proof -
  let ?st0 = "st\<lparr>ks_timer_ticks := ks_timer_ticks st + 1\<rparr>"
  obtain tc where tc: "task_of st c = Some tc" "alive tc" and kb: "kbase st" "tomb_ok st" "saved_ok st c"
    using assms(1,2) by (auto simp: kinv_def runs_def sched_at_def)
  have k0: "kst ?st0 c"
    by (rule kst_sim [OF _ ksim_simple(4)]) (use assms kb tc in \<open>auto simp: kst_def runs_def\<close>)
  obtain b st1 where s1: "on_timer_tick ?st0 = Some (b, st1)" "ksim ?st0 st1" "kst st1 c"
    using on_timer_tick_core [OF k0] by blast
  have sim: "ksim st st1" by (rule ksim_trans [OF ksim_simple(4) s1(2)])
  note t1 = tomb_ok_sim [OF kb(2) sim]
  have a1: "\<exists>t. task_of st1 c = Some t \<and> alive t"
    using fate_alive [OF ksim_fate [OF sim] tc(1), of True] tc(2) by simp
  obtain st2 where s2: "drain_system_tasks st1 = Some st2" "kst st2 c" "tomb_ok st2" "runs_or_leaves st2 c" "drains st1 st2"
    using drain_core [OF s1(3) t1] a1 by (auto simp: runs_or_leaves_def)
  define L where "L = tsq_contents (ks_tombstone_queue st2)"
  have L1: "L = tsq_contents (ks_tombstone_queue st1)" using s2(5) by (simp add: L_def drains_def)
  have c: "c \<notin> set L" using t1 a1 by (auto simp: L1 tomb_ok_def)
  have "\<exists>t. task_of st1 TaskId_IDLE = Some t \<and> alive t" using s1(3) by (simp add: kst_def kbase_def)
  then have "TaskId_IDLE \<notin> set L" using t1 by (auto simp: L1 tomb_ok_def)
  then obtain st3 where s3: "tombstone_cleanup st2 = Some st3" "kst st3 c" "buried L st2 st3"
    "tsq_contents (ks_tombstone_queue st3) = []"
    using tombstone_cleanup_core [OF s2(2) L_def [symmetric] c] by blast
  have t3: "tomb_ok st3" "runs_or_leaves st3 c"
    using s3(3,4) s2(4) c by (auto simp: tomb_ok_def runs_or_leaves_def buried_def)
  obtain st4 where s4: "reap_dying_tasks st3 = Some st4" "kst st4 c" "tomb_ok st4" "reaped st3 st4"
    using reap_dying_core [OF s3(2) t3(1)] by blast
  have "runs_or_leaves st4 c"
    using t3(2) s4(4) by (auto simp: runs_or_leaves_def reaped_def task_fate_def elim!: option.rel_cases dest!: spec [of _ c])
  moreover have "timer_prefix st b st4" using s1(1) s2(1) s3(1) s4(1) by (auto simp: timer_prefix_def)
  moreover have "set (ks_freed_stacks st4) \<subseteq>
      set (ks_freed_stacks st) \<union> {stack_of u | k u. k \<noteq> c \<and> task_of st k = Some u}"
  proof -
    have eq: "map_option stack_of (task_of st2 k) = map_option stack_of (task_of st k)" for k
      using ksim_stack [OF sim] s2(5) by (simp add: drains_def)
    have same: "\<exists>u. task_of st k = Some u \<and> stack_of u = stack_of t" if "task_of st2 k = Some t" for k t
      using eq [of k] that by (cases "task_of st k") auto
    have "{stack_of t | k t. k \<in> set L \<and> task_of st2 k = Some t} \<subseteq>
        {stack_of u | k u. k \<noteq> c \<and> task_of st k = Some u}"
    proof (rule subsetI)
      fix x assume "x \<in> {stack_of t | k t. k \<in> set L \<and> task_of st2 k = Some t}"
      then obtain k t where k: "x = stack_of t" "k \<in> set L" "task_of st2 k = Some t" by blast
      then obtain u where "task_of st k = Some u" "x = stack_of u" using same [of k t] by auto
      moreover have "k \<noteq> c" using k(2) c by blast
      ultimately show "x \<in> {stack_of u | k u. k \<noteq> c \<and> task_of st k = Some u}" by blast
    qed
    moreover have "ks_freed_stacks st2 = ks_freed_stacks st" using s2(5) sim by (simp add: drains_def ksim_def)
    then have "set (ks_freed_stacks st4) =
        set (ks_freed_stacks st) \<union> {stack_of t | k t. k \<in> set L \<and> task_of st2 k = Some t}"
      using s3(3) s4(4) by (simp add: reaped_def buried_def)
    ultimately show ?thesis by blast
  qed
  ultimately show ?thesis using s4 by blast
qed

lemma handler_of_prefix:
  assumes "timer_prefix st b st4" "PerCpu_get (ks_force_reschedule st4) (ks_cpu st4) = Some f"
    "PerCpu_set (ks_force_reschedule st4) (ks_cpu st4) False = Some p"
  shows "handler_apic_timer st =
    (let st5 = (if f then st4\<lparr>ks_force_reschedule := p\<rparr> else st4)
     in if b \<or> f then do { (_, st') \<leftarrow> schedule st5; Some st' } else Some st5)"
  using assms by (auto simp: timer_prefix_def handler_apic_timer_def Let_def)

lemma kst_force: "kst st c \<Longrightarrow> PerCpu_get p BSP \<noteq> None \<Longrightarrow> kst (st\<lparr>ks_force_reschedule := p\<rparr>) c"
  by (auto simp: kst_def kbase_def runs_def sched_at_def saved_ok_def)

lemma schedule_kinv:
  assumes "kst st c" "tomb_ok st"
  shows "\<exists>r st'. schedule st = Some (r, st') \<and> kinv st' \<and> ks_freed_stacks st' = ks_freed_stacks st \<and>
    (r = NoSwitch \<longrightarrow> runs st' c)"
proof -
  obtain Q tc where c: "sched_at st BSP c Q" "task_of st c = Some tc" "kbase st" "saved_ok st c" "r_rsp (ks_regs st) \<noteq> 48"
    using assms(1) by (auto simp: kst_def runs_def)
  obtain r st' k Q' t where s: "schedule st = Some (r, st')" "fate st st'" "sched_at st' BSP k Q'"
    "task_of st' k = Some t" "alive t" "saved_ok st' k" "r = NoSwitch \<longrightarrow> k = c"
    using schedule_core [OF c(3,1,2,4,5)] by blast
  have "kinv st'"
    using s kbase_fate [OF c(3) s(2)] tomb_ok_fate [OF assms(2) s(2)] by (auto simp: kinv_def runs_def)
  then show ?thesis using s by (auto simp: fate_def runs_def)
qed

lemma handler_core:
  assumes "kinv st" "runs st c" "r_rsp (ks_regs st) \<noteq> 48"
  shows "\<exists>st'. handler_apic_timer st = Some st' \<and> kinv st' \<and>
    set (ks_freed_stacks st') \<subseteq> set (ks_freed_stacks st) \<union> {stack_of u | k u. k \<noteq> c \<and> task_of st k = Some u}"
proof -
  obtain b st4 where p: "timer_prefix st b st4" "kst st4 c" "tomb_ok st4" "runs_or_leaves st4 c"
    "set (ks_freed_stacks st4) \<subseteq> set (ks_freed_stacks st) \<union> {stack_of u | k u. k \<noteq> c \<and> task_of st k = Some u}"
    using timer_prefix_core [OF assms] by blast
  obtain f where f: "PerCpu_get (ks_force_reschedule st4) BSP = Some f"
    using p(2) by (auto simp: kst_def kbase_def)
  obtain q where q: "PerCpu_set (ks_force_reschedule st4) BSP False = Some q"
    using per_cpu_cells.put_present [OF f] by blast
  let ?st5 = "if f then st4\<lparr>ks_force_reschedule := q\<rparr> else st4"
  have k5: "kst ?st5 c" using kst_force [OF p(2), of q] per_cpu_cells.get_put_same [OF q] p(2) by simp
  have t5: "tomb_ok ?st5" using p(3) by (simp add: tomb_ok_def)
  have fr: "ks_freed_stacks ?st5 = ks_freed_stacks st4" by simp
  note h = handler_of_prefix [OF p(1), unfolded kst_cpu [OF p(2)], OF f q]
  show ?thesis
  proof (cases "b \<or> f")
    case True
    obtain r st' where "schedule ?st5 = Some (r, st')" "kinv st'" "ks_freed_stacks st' = ks_freed_stacks st4"
      using schedule_kinv [OF k5 t5] fr by metis
    then show ?thesis using h True p(5) by (simp add: Let_def)
  next
    case False
    then have "kinv st4"
      using p f by (auto simp: kinv_def kst_def runs_or_leaves_def)
    then show ?thesis using h False p(5) by (simp add: Let_def)
  qed
qed

end
