(* ===== verification/Kernel_Steps.thy ===== *)
theory Kernel_Steps
  imports Timer_Invariant
begin

text \<open>
  The kernel as a transition system: the events that change the scheduler's state
  on one CPU, in any order, from the state the initialisation leaves.  The
  invariant holds in every reachable state.
\<close>

section \<open>Boot\<close>

text \<open>
  The state in which the idle task is registered: all statics at their initial
  values, the task state segment of the boot processor installed, the thread of
  the idle task created.
\<close>

definition boot_state :: "kstate \<Rightarrow> ThreadRef \<Rightarrow> bool" where
  "boot_state st th \<longleftrightarrow> ks_cpu st = BSP \<and> ks_global st = GlobalScheduler_new \<and>
     ks_cpu_scheduler st = PerCpu_new \<and> ks_ticks_remaining st = PerCpu_new \<and>
     ks_force_reschedule st = PerCpu_new \<and> PerCpu_get (ks_tss_rsp0 st) BSP \<noteq> None \<and>
     ks_sleep_queue st = SleepQueue_new \<and> ks_reaper_queue st = ReaperQueue_new \<and>
     ks_tombstone_queue st = TombstoneQueue_new \<and> ks_system_task_queue st = SystemTaskQueue_new \<and>
     th \<in> dom (ks_threads st)"

lemma sq_invar_new [simp]: "sq_invar SleepQueue_new"
  by (simp add: sq_new_of sq_invar_of)

lemma PerCpu_init_new:
  obtains p where "PerCpu_init PerCpu_new BSP v = Some p" "PerCpu_get p BSP = Some v"
  using PerCpu_init_ok [OF per_cpu_ok_new, of BSP v] by (auto simp: BSP_def MAX_CPUS_def)

lemma insert_idle_new:
  "\<exists>g. insert_idle_task GlobalScheduler_new t = Some g \<and> (t_id t = TaskId_IDLE \<longrightarrow> table_ok g) \<and>
     (\<forall>k. get_task g k = (if k = TaskId_IDLE then Some t else None))"
proof -
  let ?s = "\<lparr>ts_task = Some t, ts_slot_generation = 0\<rparr>"
  let ?g = "GlobalScheduler_new\<lparr>gs_tasks := (gs_tasks GlobalScheduler_new)[0 := ?s]\<rparr>"
  have len: "length (gs_tasks GlobalScheduler_new) = MAX_TASKS" by (simp add: GlobalScheduler_new_def)
  have i: "insert_idle_task GlobalScheduler_new t = Some ?g"
    using len by (simp add: insert_idle_task_def MAX_TASKS_def)
  have "table_ok ?g" if "t_id t = TaskId_IDLE"
    by (rule table_ok_upd) (use that in \<open>simp_all add: MAX_TASKS_def slot_ok_def TaskId_IDLE_def\<close>)
  moreover have "get_task ?g k = (if k = TaskId_IDLE then Some t else None)" for k
  proof (cases "slot_index k = 0")
    case True
    then show ?thesis using len by (cases k) (auto simp: get_task_def MAX_TASKS_def TaskId_IDLE_def)
  next
    case False
    then have "unat (slot_index k) \<noteq> 0" by (simp add: unat_eq_0)
    then show ?thesis using False
      by (auto simp: get_task_def idx_def GlobalScheduler_new_def TaskSlot_new_def TaskId_IDLE_def)
  qed
  ultimately show ?thesis using i by blast
qed

lemma init_idle_kinv:
  assumes "boot_state st th"
  shows "\<exists>st'. init_idle st th base = Some st' \<and> kinv st' \<and> runs st' TaskId_IDLE \<and>
    sched_at st' BSP TaskId_IDLE [] \<and> ks_threads st' = ks_threads st"
proof -
  obtain ps where ps: "PerCpu_init PerCpu_new BSP PerCpuScheduler_new = Some ps" "PerCpu_get ps BSP = Some PerCpuScheduler_new"
    by (rule PerCpu_init_new)
  obtain pt where pt: "PerCpu_init PerCpu_new BSP TASK_QUANTUM_TICKS = Some pt" "PerCpu_get pt BSP = Some TASK_QUANTUM_TICKS"
    by (rule PerCpu_init_new)
  obtain pf where pf: "PerCpu_init PerCpu_new BSP False = Some pf" "PerCpu_get pf BSP = Some False"
    by (rule PerCpu_init_new)
  obtain t m where t: "Task_new_idle th base (ks_mem st) = (t, m)" "t_id t = TaskId_IDLE" "alive t" "t_thread t = th"
    by (auto simp: Task_new_idle_def alive_def)
  obtain g where g: "insert_idle_task GlobalScheduler_new t = Some g" "table_ok g"
    "\<And>k. get_task g k = (if k = TaskId_IDLE then Some t else None)"
    using insert_idle_new [of t] t(2) by blast
  let ?st = "st\<lparr>ks_cpu_scheduler := ps, ks_ticks_remaining := pt, ks_force_reschedule := pf, ks_mem := m, ks_global := g\<rparr>"
  have "sched_at ?st BSP TaskId_IDLE []" using ps(2) by (simp add: sched_at_def PerCpuScheduler_new_def)
  then obtain p where p: "set_current ?st BSP TaskId_IDLE = Some (?st\<lparr>ks_cpu_scheduler := p\<rparr>)"
    "sched_at (?st\<lparr>ks_cpu_scheduler := p\<rparr>) BSP TaskId_IDLE []"
    using set_current_ok by blast
  let ?st' = "?st\<lparr>ks_cpu_scheduler := p\<rparr>"
  have "kbase ?st'"
    using assms g(2,3) t pt(2) pf(2) by (auto simp: kbase_def boot_state_def)
  moreover have "tomb_ok ?st'" using assms by (simp add: tomb_ok_def boot_state_def)
  moreover have "saved_ok ?st' TaskId_IDLE" using g(3) by (simp add: saved_ok_def)
  moreover have "runs ?st' TaskId_IDLE" using p(2) by (auto simp: runs_def)
  ultimately have "kinv ?st'" using g(3) t(3) by (auto simp: kinv_def)
  moreover have "init_idle st th base = Some ?st'"
    using assms ps(1) pt(1) pf(1) t(1) g(1) p(1) by (simp add: init_idle_def boot_state_def Let_def)
  moreover have "ks_threads ?st' = ks_threads st" by simp
  ultimately show ?thesis using \<open>runs ?st' TaskId_IDLE\<close> p(2) by blast
qed

section \<open>Events\<close>

text \<open>
  The events on the executing CPU.  A new task comes with a stack frame to resume
  from and a live thread; a kill request names a task other than the idle task; a
  stack pointer of 48, for which the saved stack pointer would be the null address,
  does not occur in the kernel.  Between events the running task computes, which
  changes registers and memory; threads are created; initialisation completes.
\<close>

inductive kstep :: "kstate \<Rightarrow> kstate \<Rightarrow> bool" where
  timer: "r_rsp (ks_regs st) \<noteq> 48 \<Longrightarrow> handler_apic_timer st = Some st' \<Longrightarrow> kstep st st'"
| exit: "r_rsp (ks_regs st) \<noteq> 48 \<Longrightarrow> get_current_task_id st \<noteq> Some TaskId_IDLE \<Longrightarrow> task_exit st = Some st' \<Longrightarrow> kstep st st'"
| fault: "r_rsp (ks_regs st) \<noteq> 48 \<Longrightarrow> try_kill_current_task st reason = Some (TaskKilled st') \<Longrightarrow> kstep st st'"
| block: "r_rsp (ks_regs st) \<noteq> 48 \<Longrightarrow> yield_blocked st = Some (r, st') \<Longrightarrow> kstep st st'"
| sleeps: "r_rsp (ks_regs st) \<noteq> 48 \<Longrightarrow> sleep st seconds = Some (r, st') \<Longrightarrow> kstep st st'"
| wakes: "wake st k = Some (w, st') \<Longrightarrow> kstep st st'"
| spawn: "t_saved_rsp task \<noteq> 0 \<Longrightarrow> t_thread task \<in> dom (ks_threads st) \<Longrightarrow>
    insert_and_queue_task st task = Some (i, st') \<Longrightarrow> kstep st st'"
| kill: "expand_task_id a \<noteq> TaskId_IDLE \<Longrightarrow> queue_system_task st Fn_task_killer a = Some st' \<Longrightarrow> kstep st st'"
| compute: "kstep st (st\<lparr>ks_regs := regs, ks_mem := m\<rparr>)"
| thread: "dom (ks_threads st) \<subseteq> dom ths \<Longrightarrow> kstep st (st\<lparr>ks_threads := ths\<rparr>)"
| init_done: "kstep st (st\<lparr>ks_kernel_init_complete := True\<rparr>)"

inductive reachable :: "kstate \<Rightarrow> bool" where
  boot: "boot_state st th \<Longrightarrow> init_idle st th base = Some st' \<Longrightarrow> reachable st'"
| step: "reachable st \<Longrightarrow> kstep st st' \<Longrightarrow> reachable st'"

section \<open>Every event keeps the invariant\<close>

lemma kinv_kst:
  assumes "kinv st" "r_rsp (ks_regs st) \<noteq> 48"
  obtains c t where "kst st c" "task_of st c = Some t" "alive t" "tomb_ok st"
  using assms unfolding kinv_def kst_def by (metis option.distinct(1))

lemma schedule_step: "kst st c \<Longrightarrow> tomb_ok st \<Longrightarrow> schedule st = Some (r, st') \<Longrightarrow> kinv st'"
  using schedule_kinv [of st c] by auto

lemma kst_sprint: "kst st c \<Longrightarrow> kst (sprint msg st) c"
  by (rule kst_sim [OF _ ksim_simple(2)]) (auto simp: kst_def runs_def)

lemma kill_current_core:
  assumes "kst st c" "tomb_ok st" "c \<noteq> TaskId_IDLE" "kill_current_task st = Some st'"
  shows "kst st' c" "tomb_ok st'"
proof -
  obtain t where t: "task_of st c = Some t" using assms(1) by (auto simp: kst_def)
  have kb: "kbase st" using assms(1) by (simp add: kst_def)
  obtain g ths where m: "mark_dying st c t = Some (st\<lparr>ks_global := g, ks_threads := ths\<rparr>)"
    "set_task (ks_global st) c (t\<lparr>t_state := Dying\<rparr>) = Some g" "dom ths = dom (ks_threads st)"
    using mark_dying_ok [OF t] kb t by (auto simp: kbase_def)
  obtain q out where q: "queue_reaper_or_log (st\<lparr>ks_global := g, ks_threads := ths\<rparr>) c =
      Some (st\<lparr>ks_global := g, ks_threads := ths, ks_reaper_queue := q, ks_serial := out\<rparr>)" "rpq_invar q"
    using queue_reaper_or_log_ok [of "st\<lparr>ks_global := g, ks_threads := ths\<rparr>" c] kb by (auto simp: kbase_def)
  have f: "PerCpu_get (ks_force_reschedule st) BSP \<noteq> None" using kb by (simp add: kbase_def)
  have "kill_current_task st = Some (st\<lparr>ks_global := g, ks_threads := ths, ks_reaper_queue := q, ks_serial := out,
      ks_force_reschedule := ks_force_reschedule st\<rparr>)"
    using t m(1) q(1) kst_current [OF assms(1)] by (simp add: kill_current_task_def)
  then have "st' = st\<lparr>ks_global := g, ks_threads := ths, ks_reaper_queue := q, ks_serial := out,
      ks_force_reschedule := ks_force_reschedule st\<rparr>"
    using assms(4) by (simp only: option.inject)
  then show "kst st' c" "tomb_ok st'"
    using kst_mark_dying [OF assms(1) t assms(3) m(2,3) q(2) f, of out] assms(2) by simp_all
qed

lemma task_exit_kinv:
  assumes "kst st c" "tomb_ok st" "c \<noteq> TaskId_IDLE" "task_exit st = Some st'"
  shows "kinv st'"
proof -
  let ?st0 = "st\<lparr>ks_regs := snd (disable_interrupts_save (ks_regs st))\<rparr>"
  have k0: "kst ?st0 c"
    by (rule kst_sim [OF assms(1) ksim_simple(3)]) (use assms(1) in \<open>simp add: kst_def runs_def\<close>)
  obtain st1 where st1: "kill_current_task ?st0 = Some st1" "schedule st1 = Some (Switched, st')"
    using assms(4) by (auto simp: task_exit_def some_conv Let_def)
  have "tomb_ok ?st0" using assms(2) by (simp add: tomb_ok_def)
  note k1 = kill_current_core [OF k0 this assms(3) st1(1)]
  show ?thesis using schedule_step [OF k1 st1(2)] .
qed

lemma fault_kinv:
  assumes "kst st c" "tomb_ok st" "try_kill_current_task st reason = Some (TaskKilled st')"
  shows "kinv st'"
proof -
  let ?st0 = "sprint (Msg ('' killed due to: '' @ reason @ nl))
    (sprint (MsgField (nl @ ''[TASK FAULT] Task '') (slot_index c)) st)"
  obtain st1 where st1: "c \<noteq> TaskId_IDLE" "kill_current_task ?st0 = Some st1" "schedule st1 = Some (Switched, st')"
    using assms(3) kst_current [OF assms(1)] by (auto simp: try_kill_current_task_def some_conv Let_def)
  have "kst ?st0 c" "tomb_ok ?st0" using assms(1,2) by (auto intro!: kst_sprint tomb_ok_sim [OF _ ksim_simple(2)])
  note k1 = kill_current_core [OF this st1(1,2)]
  show ?thesis using schedule_step [OF k1 st1(3)] .
qed

lemma block_schedule_kinv:
  assumes "kst st c" "task_of st c = Some t" "alive t" "tomb_ok st"
    "block_task st c = Some st1" "schedule st1 = Some (r, st')"
  shows "kinv st'"
proof -
  have "t_thread t \<in> dom (ks_threads st)" using assms(1,2) by (simp add: kst_def kbase_def)
  then have b: "ksim st st1" "ks_cpu_scheduler st1 = ks_cpu_scheduler st"
    using block_sim [OF assms(2,3)] assms(5) by auto
  have "kst st1 c" by (rule kst_sim [OF assms(1) b(1)]) (use assms(1) b(2) in \<open>auto simp: kst_def runs_def sched_at_def\<close>)
  then show ?thesis using schedule_step [OF _ tomb_ok_sim [OF assms(4) b(1)] assms(6)] by blast
qed

lemma SleepQueue_insert_invar:
  assumes "sq_invar q" "SleepQueue_insert q k t = Some (q', out)"
  shows "sq_invar q'"
proof (cases "t = 0 \<or> sq_queue_len q = MAX_SLEEP_ENTRIES")
  case True
  then have "q' = q" using assms(2) by (elim disjE) (simp_all add: SleepQueue_insert_def split: if_split_asm)
  then show ?thesis using assms(1) by simp
next
  case False
  have "length (sq_sleepers q) = sq_queue_len q"
    using assms(1) by (auto elim!: sq_invarE simp: sq_sleepers_def)
  moreover have "sq_queue_len q \<le> MAX_SLEEP_ENTRIES" using assms(1) by (auto elim!: sq_invarE)
  ultimately show ?thesis
    using SleepQueue_insert_refines [OF assms(1), of t k] False assms(2) by auto
qed

lemma ksim_sprints: "ksim st (fold (\<lambda>m. sprint (Msg m)) out st)"
proof (induction out arbitrary: st)
  case (Cons m out)
  have "ksim st (sprint (Msg m) st)" by simp
  also have "ksim \<dots> (fold (\<lambda>m. sprint (Msg m)) out (sprint (Msg m) st))" by (rule Cons)
  finally show ?case by simp
qed simp

lemma runs_sprints: "runs (fold (\<lambda>m. sprint (Msg m)) out st) c = runs st c"
  by (induction out arbitrary: st) (simp_all add: runs_def)

lemma sleep_kinv:
  assumes "kst st c" "task_of st c = Some t" "alive t" "tomb_ok st" "sleep st seconds = Some (r, st')"
  shows "kinv st'"
proof (cases "seconds = 0")
  case True
  then show ?thesis
    using assms(5) schedule_step [OF assms(1,4)] kst_current [OF assms(1)] by (simp add: sleep_def)
next
  case False
  obtain q out st1 where s: "SleepQueue_insert (ks_sleep_queue st) c (ucast (seconds * 1000)) = Some (q, out)"
    "block_task (fold (\<lambda>m. sprint (Msg m)) out (st\<lparr>ks_sleep_queue := q\<rparr>)) c = Some st1" "schedule st1 = Some (r, st')"
    using assms(5) False kst_current [OF assms(1)] by (auto simp: sleep_def some_conv Let_def)
  let ?st0 = "fold (\<lambda>m. sprint (Msg m)) out (st\<lparr>ks_sleep_queue := q\<rparr>)"
  have "sq_invar q" using SleepQueue_insert_invar [OF _ s(1)] assms(1) by (simp add: kst_def kbase_def)
  then have sim: "ksim st ?st0" by (rule ksim_trans [OF ksim_sleep_queue ksim_sprints])
  have k0: "kst ?st0 c"
    by (rule kst_sim [OF assms(1) sim]) (use assms(1) in \<open>simp add: runs_sprints, simp add: kst_def runs_def\<close>)
  obtain t0 where t0: "task_of ?st0 c = Some t0" "alive t0"
    by (rule ksim_task [OF sim assms(2)]) (use assms(3) in \<open>auto simp: task_sim_def\<close>)
  show ?thesis by (rule block_schedule_kinv [OF k0 t0 tomb_ok_sim [OF assms(4) sim] s(2,3)])
qed

lemma kinv_sim:
  assumes "kinv st" "ksim st st'" "\<And>c. runs st c \<Longrightarrow> runs st' c"
  shows "kinv st'"
proof -
  obtain c t where c: "runs st c" "task_of st c = Some t" "alive t" "saved_ok st c" "kbase st" "tomb_ok st"
    using assms(1) by (auto simp: kinv_def)
  obtain t' where "task_of st' c = Some t'" "alive t'"
    by (rule ksim_task [OF assms(2) c(2)]) (use c(3) in \<open>auto simp: task_sim_def\<close>)
  then show ?thesis
    using c assms(3) kbase_sim [OF c(5) assms(2)] tomb_ok_sim [OF c(6) assms(2)] saved_ok_sim [OF c(4) assms(2)]
    by (auto simp: kinv_def)
qed

lemma wake_kinv:
  assumes "kinv st" "wake st k = Some (w, st')"
  shows "kinv st'"
proof -
  obtain c Q where c: "sched_at st BSP c Q" and kb: "kbase st" using assms(1) by (auto simp: kinv_def runs_def)
  have th: "\<And>t. task_of st k = Some t \<Longrightarrow> t_thread t \<in> dom (ks_threads st)" using kb by (simp add: kbase_def)
  have "\<exists>Q'. ksim st st' \<and> sched_at st' BSP d Q'" if "sched_at st BSP d R" for d R
    using wake_sim [OF that, of k] th assms(2) by auto
  then show ?thesis using kinv_sim [OF assms(1)] c by (metis runs_def)
qed

lemma spawn_kinv:
  assumes "kinv st" "t_saved_rsp task \<noteq> 0" "t_thread task \<in> dom (ks_threads st)"
    "insert_and_queue_task st task = Some (i, st')"
  shows "kinv st'"
proof (cases "insert_task (ks_global st) task")
  case (Inl e)
  then show ?thesis using assms by (simp add: insert_and_queue_task_def)
next
  case (Inr kg)
  obtain k g where ins: "insert_task (ks_global st) task = Inr (k, g)" using Inr by (cases kg) auto
  obtain c Q t where c: "sched_at st BSP c Q" "task_of st c = Some t" "alive t" "saved_ok st c" "kbase st" "tomb_ok st"
    using assms(1) by (auto simp: kinv_def runs_def)
  have "table_ok (ks_global st)" using c(5) by (simp add: kbase_def)
  note ok = insert_task_ok [OF this ins]
  let ?u = "task\<lparr>t_id := k, t_state := Ready\<rparr>"
  have get: "get_task g j = (if j = k then Some ?u else task_of st j)" for j using ok(3,4) by simp
  have "sched_at (st\<lparr>ks_global := g\<rparr>) BSP c Q" using c(1) by simp
  then obtain p r where p: "rq_push (st\<lparr>ks_global := g\<rparr>) BSP k = Some (r, st\<lparr>ks_global := g, ks_cpu_scheduler := p\<rparr>)"
    "sched_at (st\<lparr>ks_global := g, ks_cpu_scheduler := p\<rparr>) BSP c (if length Q < QUEUE_SIZE then Q @ [k] else Q)"
    "r = (if length Q < QUEUE_SIZE then Inr () else Inl QueueFull)"
    by (rule rq_push_cases)
  have st': "st' = st\<lparr>ks_global := g, ks_cpu_scheduler := p\<rparr>"
    using assms(4) ins p(1) by (cases r) (auto simp: insert_and_queue_task_def)
  have idle: "TaskId_IDLE \<noteq> k" "c \<noteq> k" using c(2,5) ok(2) by (auto simp: kbase_def)
  have "kbase st'" using c(5) ok(1) get idle(1) assms(3) by (simp add: kbase_def st')
  moreover have "tomb_ok st'" using c(6) get ok(2) by (fastforce simp: tomb_ok_def st')
  moreover have "saved_ok st' c" using c(4) get assms(2) by (simp add: saved_ok_def st')
  ultimately show ?thesis
    using c(2,3) get idle(2) p(2) by (auto simp: kinv_def runs_def st')
qed

lemma kill_request_kinv:
  assumes "kinv st" "expand_task_id a \<noteq> TaskId_IDLE" "queue_system_task st Fn_task_killer a = Some st'"
  shows "kinv st'"
proof -
  let ?e = "\<lparr>st_function = Fn_task_killer, st_func_arg = a\<rparr>"
  have iv: "stq_invar (ks_system_task_queue st)" using assms(1) by (simp add: kinv_def kbase_def)
  then show ?thesis
  proof (cases rule: system_fifo.push_cases [of "ks_system_task_queue st" ?e])
    case (ok q)
    then have "st' = st\<lparr>ks_system_task_queue := q\<rparr>" using assms(3) by (simp add: queue_system_task_def)
    then show ?thesis using assms(1,2) ok
      by (auto simp: kinv_def kbase_def tomb_ok_def runs_def sched_at_def saved_ok_def)
  next
    case (full m)
    then have "st' = sprint (Msg nl) (sprint (Msg m) st)" using assms(3) by (simp add: queue_system_task_def)
    then show ?thesis
      using kinv_sim [OF assms(1) ksim_trans [OF ksim_simple(2) ksim_simple(2)]] by (simp add: runs_def)
  qed
qed

lemma compute_kinv:
  "kinv st \<Longrightarrow> kinv (st\<lparr>ks_regs := regs, ks_mem := m\<rparr>)"
  "kinv st \<Longrightarrow> kinv (st\<lparr>ks_kernel_init_complete := b\<rparr>)"
  "kinv st \<Longrightarrow> dom (ks_threads st) \<subseteq> dom ths \<Longrightarrow> kinv (st\<lparr>ks_threads := ths\<rparr>)"
  by (simp_all add: kinv_def kbase_def tomb_ok_def runs_def sched_at_def saved_ok_def) blast

lemma kstep_kinv:
  assumes "kstep st st'" "kinv st"
  shows "kinv st'"
  using assms
proof (induction rule: kstep.induct)
  case (timer st st')
  obtain c where "runs st c" using timer(3) by (auto simp: kinv_def)
  then show ?case using handler_core [OF timer(3) _ timer(1)] timer(2) by auto
next
  case (exit st st')
  obtain c t where c: "kst st c" "task_of st c = Some t" "alive t" "tomb_ok st" using exit(4,1) by (rule kinv_kst)
  then show ?case using task_exit_kinv [OF c(1,4) _ exit(3)] exit(2) kst_current [OF c(1)] by simp
next
  case (fault st reason st')
  obtain c t where c: "kst st c" "task_of st c = Some t" "alive t" "tomb_ok st" using fault(3,1) by (rule kinv_kst)
  show ?case by (rule fault_kinv [OF c(1,4) fault(2)])
next
  case (block st r st')
  obtain c t where c: "kst st c" "task_of st c = Some t" "alive t" "tomb_ok st" using block(3,1) by (rule kinv_kst)
  then show ?case
    using block(2) block_schedule_kinv [OF c] kst_current [OF c(1)] by (auto simp: yield_blocked_def some_conv)
next
  case (sleeps st seconds r st')
  obtain c t where c: "kst st c" "task_of st c = Some t" "alive t" "tomb_ok st" using sleeps(3,1) by (rule kinv_kst)
  show ?case by (rule sleep_kinv [OF c sleeps(2)])
next
  case (wakes st k w st')
  then show ?case using wake_kinv by blast
next
  case (spawn task st i st')
  then show ?case using spawn_kinv by blast
next
  case (kill a st st')
  then show ?case using kill_request_kinv by blast
qed (rule compute_kinv, assumption+)+

lemma reachable_kinv: "reachable st \<Longrightarrow> kinv st"
proof (induction rule: reachable.induct)
  case (boot st th base st')
  then show ?case using init_idle_kinv [of st th base] by auto
qed (rule kstep_kinv)

section \<open>Properties of reachable states\<close>

lemma reachable_runs:
  assumes "reachable st" "get_current_task_id st = Some c"
  shows "runs st c" "\<exists>t. task_of st c = Some t \<and> alive t" "c \<notin> set (tsq_contents (ks_tombstone_queue st))"
proof -
  note inv = reachable_kinv [OF assms(1)]
  have cpu: "ks_cpu st = BSP" using inv by (simp add: kinv_def kbase_def)
  obtain d t where d: "runs st d" "task_of st d = Some t" "alive t" using inv by (auto simp: kinv_def)
  have "d = c" using d(1) assms(2) sched_at_current [of st] cpu by (auto simp: runs_def)
  then show "runs st c" "\<exists>t. task_of st c = Some t \<and> alive t" using d by auto
  then show "c \<notin> set (tsq_contents (ks_tombstone_queue st))" using inv by (auto simp: kinv_def tomb_ok_def)
qed



section \<open>A concrete kernel\<close>

definition demo_boot :: kstate where
  "demo_boot = \<lparr>ks_global = GlobalScheduler_new, ks_cpu_scheduler = PerCpu_new, ks_ticks_remaining = PerCpu_new,
     ks_force_reschedule = PerCpu_new, ks_tss_rsp0 = \<lparr>pc_slots = Some 0 # replicate 63 None, pc_initialized = True # replicate 63 False\<rparr>,
     ks_sleep_queue = SleepQueue_new, ks_reaper_queue = ReaperQueue_new, ks_tombstone_queue = TombstoneQueue_new,
     ks_system_task_queue = SystemTaskQueue_new,
     ks_threads = [0 \<mapsto> \<lparr>th_id = 0, th_task_id = Some TaskId_IDLE, th_name = ''Idle'', th_state = ThActive, th_process = 0\<rparr>],
     ks_timer_ticks = 0, ks_kernel_init_complete = False, ks_cpu = 0, ks_regs = demo_regs 0x9000, ks_mem = (\<lambda>_. 0),
     ks_freed_stacks = [], ks_serial = []\<rparr>"

lemma demo_boot_state: "boot_state demo_boot 0"
  by (simp add: boot_state_def demo_boot_def BSP_def PerCpu_get_def MAX_CPUS_def)

lemma init_idle_regs: "init_idle st th base = Some st' \<Longrightarrow> ks_regs st' = ks_regs st"
  by (auto simp: init_idle_def set_current_def some_conv Let_def)

lemma demo_reachable:
  obtains st where "reachable st" "get_current_task_id st = Some TaskId_IDLE" "r_rsp (ks_regs st) \<noteq> 48"
proof -
  obtain st where st: "init_idle demo_boot 0 0x100000 = Some st" "kinv st" "runs st TaskId_IDLE"
    using init_idle_kinv [OF demo_boot_state] by blast
  have "get_current_task_id st = Some TaskId_IDLE"
    using st(2,3) sched_at_current [of st] by (auto simp: kinv_def kbase_def runs_def)
  moreover have "ks_regs st = demo_regs 0x9000" using init_idle_regs [OF st(1)] by (simp add: demo_boot_def)
  ultimately show thesis using that reachable.boot [OF demo_boot_state st(1)] by (simp add: demo_regs_def)
qed



end
