(* ===== verification/Pmm.thy ===== *)
theory Pmm
  imports Memory
begin

text \<open>
  The physical memory manager (memory\_manager/pmm.rs) and the boot structures it
  reads (memory\_manager/mod.rs): a LIFO list of free page frames threaded through
  the frames themselves.

  Memory is indexed by physical addresses.  The manager touches it through two
  windows: the identity map of the early boot, and the direct map, in which the
  physical address p appears at p + KERNEL\_PHYSICAL\_MAP\_BASE.  The page tables
  that establish the two windows are the subject of the theory Vmm; here
  \<^verbatim>\<open>phys_of\<close> is the physical address a pointer into one of the windows reaches.
\<close>

section \<open>Constants and boot structures\<close>

definition KERNEL_PHYSICAL_MAP_BASE :: u64 where
  "KERNEL_PHYSICAL_MAP_BASE = 0xFFFF800000000000"

definition PAGE_SIZE :: u64 where
  "PAGE_SIZE = 0x1000"

definition phys_of :: "u64 \<Rightarrow> u64" where
  "phys_of v = (if v < KERNEL_PHYSICAL_MAP_BASE then v else v - KERNEL_PHYSICAL_MAP_BASE)"

datatype EfiMemoryType = EfiReservedMemoryType | EfiLoaderCode | EfiLoaderData | EfiBootServicesCode
  | EfiBootServicesData | EfiRuntimeServicesCode | EfiRuntimeServicesData | EfiConventionalMemory
  | EfiUnusableMemory | EfiACPIReclaimMemory | EfiACPIMemoryNVS | EfiMemoryMappedIO
  | EfiMemoryMappedIOPortSpace | EfiPalCode | EfiPersistentMemory | EfiMaxMemoryType

definition efi_types :: "EfiMemoryType list" where
  "efi_types = [EfiReservedMemoryType, EfiLoaderCode, EfiLoaderData, EfiBootServicesCode, EfiBootServicesData,
     EfiRuntimeServicesCode, EfiRuntimeServicesData, EfiConventionalMemory, EfiUnusableMemory, EfiACPIReclaimMemory,
     EfiACPIMemoryNVS, EfiMemoryMappedIO, EfiMemoryMappedIOPortSpace, EfiPalCode, EfiPersistentMemory, EfiMaxMemoryType]"

record EfiMemoryDescriptor =
  region_type :: EfiMemoryType
  efi_padding :: u32
  physical_start :: u64
  virtual_start :: u64
  num_pages :: u64
  attribute :: u64

text \<open>
  A descriptor is copied out of memory.  The type field is a Rust enum: a firmware
  value without a variant has no meaning, which \<^term>\<open>None\<close> stands for.
\<close>

definition EfiMemoryDescriptor_new :: "memory \<Rightarrow> u64 \<Rightarrow> EfiMemoryDescriptor option" where
  "EfiMemoryDescriptor_new m address = (let p = phys_of address in do {
     ty \<leftarrow> idx efi_types (unat (read_u32 m p));
     Some \<lparr>region_type = ty, efi_padding = read_u32 m (p + 4), physical_start = read_u64 m (p + 8), virtual_start = read_u64 m (p + 16),
           num_pages = read_u64 m (p + 24), attribute = read_u64 m (p + 32)\<rparr>
   })"

record MemoryMapInfo =
  memory_map_addr :: u64
  memory_map_size :: u64
  descriptor_size :: u64
  descriptor_ver :: u32
  bsp_apic_id :: u32
  kernel_load_addr :: u64
  kernel_image_size :: u64
  stack_base_addr :: u64
  stack_size :: u64
  rsdp_addr :: u64

record FramebufferInfo =
  framebuffer_addr :: u64
  framebuffer_width :: u32
  framebuffer_height :: u32
  framebuffer_pitch :: u32
  framebuffer_bpp :: u32

definition framebuffer_bytes :: "FramebufferInfo \<Rightarrow> u64" where
  "framebuffer_bytes fb = ucast (framebuffer_height fb) * ucast (framebuffer_width fb) * (ucast (framebuffer_bpp fb) div 8)"

section \<open>The manager\<close>

record PhysicalMemoryManager =
  pmm_kernel_load_addr :: u64
  pmm_kernel_image_size :: u64
  kernel_stack_base_addr :: u64
  kernel_stack_size :: u64
  pmm_framebuffer_addr :: u64
  pmm_framebuffer_size :: u64
  pmm_memory_map_addr :: u64
  pmm_memory_map_size :: u64
  memory_map_desc_size :: u64
  kernel_start :: u64
  kernel_end :: u64
  is_higher_half :: bool
  free_list_head :: "u64 option"
  free_pages :: u64

definition page_overlaps :: "u64 \<Rightarrow> u64 \<Rightarrow> u64 \<Rightarrow> u64 \<Rightarrow> bool" where
  "page_overlaps page_start page_end region_start region_end \<longleftrightarrow> page_start \<le> region_end \<and> page_end \<ge> region_start"

text \<open>The pointer through which the manager reaches a frame.\<close>

definition pmm_virt :: "PhysicalMemoryManager \<Rightarrow> u64 \<Rightarrow> u64" where
  "pmm_virt pmm a = (if is_higher_half pmm then a + KERNEL_PHYSICAL_MAP_BASE else a)"

definition free_page :: "memory \<times> PhysicalMemoryManager \<Rightarrow> u64 \<Rightarrow> memory \<times> PhysicalMemoryManager" where
  "free_page s address = (let (m, pmm) = s in
     (write_u64 m (phys_of (pmm_virt pmm address)) (case free_list_head pmm of None \<Rightarrow> 0 | Some h \<Rightarrow> h),
      pmm\<lparr>free_list_head := Some address, free_pages := free_pages pmm + 1\<rparr>))"

definition alloc_page :: "memory \<times> PhysicalMemoryManager \<Rightarrow> u64 option \<times> memory \<times> PhysicalMemoryManager" where
  "alloc_page s = (let (m, pmm) = s in
     case free_list_head pmm of
       None \<Rightarrow> (None, s)
     | Some head \<Rightarrow>
         let nxt = read_u64 m (phys_of (pmm_virt pmm head)) in
         (Some head, m, pmm\<lparr>free_list_head := (if nxt = 0 then None else Some nxt), free_pages := free_pages pmm - 1\<rparr>))"

section \<open>Seeding the free list\<close>

text \<open>
  One page of a descriptor during initialisation: page 0 and the pages that touch
  the memory map, the kernel image, the kernel stack or the framebuffer are skipped.
\<close>

definition init_page :: "EfiMemoryDescriptor \<Rightarrow> u64 \<Rightarrow> memory \<times> PhysicalMemoryManager \<Rightarrow> memory \<times> PhysicalMemoryManager" where
  "init_page d i s = (let pmm = snd s;
       page_start_addr = physical_start d + i * PAGE_SIZE;
       page_end_addr = page_start_addr + PAGE_SIZE - 1 in
     if page_start_addr = 0 then s
     else if page_overlaps page_start_addr page_end_addr (pmm_memory_map_addr pmm)
               (pmm_memory_map_addr pmm + pmm_memory_map_size pmm) then s
     else if page_overlaps page_start_addr page_end_addr (kernel_start pmm) (kernel_end pmm) then s
     else if page_overlaps page_start_addr page_end_addr (kernel_stack_base_addr pmm)
               (kernel_stack_base_addr pmm + kernel_stack_size pmm) then s
     else if page_overlaps page_start_addr page_end_addr (pmm_framebuffer_addr pmm)
               (pmm_framebuffer_addr pmm + pmm_framebuffer_size pmm) then s
     else free_page s page_start_addr)"

definition page_numbers :: "EfiMemoryDescriptor \<Rightarrow> u64 list" where
  "page_numbers d = map of_nat [0..<unat (num_pages d)]"

fun init_segments :: "nat \<Rightarrow> u64 \<Rightarrow> memory \<times> PhysicalMemoryManager \<Rightarrow> (memory \<times> PhysicalMemoryManager) option" where
  "init_segments 0 descriptor_addr s = Some s"
| "init_segments (Suc n) descriptor_addr s = do {
     d \<leftarrow> EfiMemoryDescriptor_new (fst s) descriptor_addr;
     init_segments n (descriptor_addr + memory_map_desc_size (snd s))
       (if region_type d \<noteq> EfiConventionalMemory then s else fold (init_page d) (page_numbers d) s)
   }"

text \<open>
  The linker symbols that bound the kernel image are the arguments \<^verbatim>\<open>k_start\<close> and
  \<^verbatim>\<open>k_end\<close>; a descriptor size of zero is a division panic.
\<close>

definition PhysicalMemoryManager_init ::
  "u64 \<Rightarrow> u64 \<Rightarrow> FramebufferInfo \<Rightarrow> MemoryMapInfo \<Rightarrow> memory \<Rightarrow> (memory \<times> PhysicalMemoryManager) option" where
  "PhysicalMemoryManager_init k_start k_end framebuffer_info memory_map m =
     (let pmm = \<lparr>pmm_kernel_load_addr = kernel_load_addr memory_map, pmm_kernel_image_size = kernel_image_size memory_map,
            kernel_stack_base_addr = stack_base_addr memory_map, kernel_stack_size = stack_size memory_map,
            pmm_framebuffer_addr = framebuffer_addr framebuffer_info,
            pmm_framebuffer_size = framebuffer_bytes framebuffer_info,
            pmm_memory_map_addr = memory_map_addr memory_map, pmm_memory_map_size = memory_map_size memory_map,
            memory_map_desc_size = descriptor_size memory_map, kernel_start = k_start, kernel_end = k_end,
            is_higher_half = False, free_list_head = None, free_pages = 0\<rparr>
      in if descriptor_size memory_map = 0 then None
         else init_segments (unat (memory_map_size memory_map div descriptor_size memory_map))
                (memory_map_addr memory_map) (m, pmm))"

section \<open>Page frames\<close>

definition frame_ok :: "u64 \<Rightarrow> bool" where
  "frame_ok x \<longleftrightarrow> x \<noteq> 0 \<and> unat x mod 4096 = 0 \<and> x < 0x800000000000"

lemma frame_ok_nat: "frame_ok x \<Longrightarrow> 4096 \<le> unat x \<and> unat x + 4096 \<le> 2 ^ 47 \<and> unat x mod 4096 = 0"
proof -
  assume x: "frame_ok x"
  then have lt: "unat x < 2 ^ 47" by (simp add: frame_ok_def word_less_nat_alt)
  have "unat x \<noteq> 0" "unat x mod 4096 = 0" using x by (auto simp: frame_ok_def unat_eq_0)
  then obtain k where k: "unat x = 4096 * k" "k \<noteq> 0" by auto
  then have "k < 2 ^ 35" using lt by simp
  then show ?thesis using k by simp
qed

lemma phys_of_virt: "frame_ok x \<Longrightarrow> phys_of (pmm_virt pmm x) = x"
proof -
  assume x: "frame_ok x"
  then have n: "unat x < 2 ^ 47" using frame_ok_nat by fastforce
  then have "unat (x + KERNEL_PHYSICAL_MAP_BASE) = unat x + unat KERNEL_PHYSICAL_MAP_BASE"
    by (subst unat_add_lem [THEN iffD1]) (simp_all add: KERNEL_PHYSICAL_MAP_BASE_def)
  then have "\<not> x + KERNEL_PHYSICAL_MAP_BASE < KERNEL_PHYSICAL_MAP_BASE" by (simp add: word_less_nat_alt)
  moreover have "x < KERNEL_PHYSICAL_MAP_BASE"
    using n by (simp add: word_less_nat_alt KERNEL_PHYSICAL_MAP_BASE_def)
  ultimately show ?thesis by (simp add: phys_of_def pmm_virt_def)
qed

text \<open>The cells of a frame: entry i is the 8 bytes at offset 8 * i.\<close>

lemma unat_entry:
  assumes "frame_ok t" "unat i < 512"
  shows "unat (t + 8 * i) = unat t + 8 * unat i"
proof -
  have "unat (8 * i) = 8 * unat i" using assms(2) by (subst unat_mult_lem [THEN iffD1]) simp_all
  then show ?thesis using frame_ok_nat [OF assms(1)] assms(2) by (subst unat_add_lem [THEN iffD1]) simp_all
qed

lemma entry_disj8:
  assumes "frame_ok s" "frame_ok t" "unat i < 512" "unat j < 512" "s \<noteq> t \<or> i \<noteq> j"
  shows "disj8 (s + 8 * i) (t + 8 * j)"
proof -
  obtain a where a: "unat s = 4096 * a" using frame_ok_nat [OF assms(1)] by auto
  obtain b where b: "unat t = 4096 * b" using frame_ok_nat [OF assms(2)] by auto
  have lt: "4096 * a + 4096 \<le> 2 ^ 47" "4096 * b + 4096 \<le> 2 ^ 47"
    using frame_ok_nat assms(1,2) a b by metis+
  have ne: "a \<noteq> b \<or> unat i \<noteq> unat j"
    using assms(5) a b by (metis unsigned_word_eqI)
  have u: "unat (s + 8 * i) = 4096 * a + 8 * unat i" "unat (t + 8 * j) = 4096 * b + 8 * unat j"
    using unat_entry assms a b by simp_all
  consider "4096 * a + 8 * unat i + 8 \<le> 4096 * b + 8 * unat j" | "4096 * b + 8 * unat j + 8 \<le> 4096 * a + 8 * unat i"
    using ne assms(3,4) by (cases a b rule: linorder_cases; cases "unat i" "unat j" rule: linorder_cases) linarith+
  then show ?thesis
  proof cases
    case 1
    then show ?thesis using u lt assms(4) by (intro disj8I) simp_all
  next
    case 2
    then show ?thesis using u lt assms(3) by (intro disj8_sym [OF disj8I]) simp_all
  qed
qed

lemma frame_disj8: "frame_ok s \<Longrightarrow> frame_ok t \<Longrightarrow> s \<noteq> t \<Longrightarrow> disj8 s t"
  using entry_disj8 [of s t 0 0] by simp

section \<open>The free list\<close>

text \<open>The frames reached from a list head, in the order they will be allocated.\<close>

fun free_chain :: "memory \<Rightarrow> u64 option \<Rightarrow> u64 list \<Rightarrow> bool" where
  "free_chain m h [] \<longleftrightarrow> h = None"
| "free_chain m h (x # xs) \<longleftrightarrow> h = Some x \<and> free_chain m (if read_u64 m x = 0 then None else Some (read_u64 m x)) xs"

definition pmm_invar :: "memory \<times> PhysicalMemoryManager \<Rightarrow> u64 list \<Rightarrow> bool" where
  "pmm_invar s xs \<longleftrightarrow> free_chain (fst s) (free_list_head (snd s)) xs \<and> distinct xs \<and> (\<forall>x\<in>set xs. frame_ok x) \<and>
     free_pages (snd s) = of_nat (length xs)"

lemma free_chain_cong:
  "free_chain m h xs \<Longrightarrow> (\<And>x. x \<in> set xs \<Longrightarrow> read_u64 m' x = read_u64 m x) \<Longrightarrow> free_chain m' h xs"
  by (induction xs arbitrary: h) auto

lemma free_chain_write:
  assumes "free_chain m h xs" "\<forall>x\<in>set xs. disj8 a x"
  shows "free_chain (write_u64 m a v) h xs"
  using assms by (intro free_chain_cong [OF assms(1)]) (simp add: read_write_other)

lemma pmm_invar_write:
  assumes "pmm_invar (m, pmm) xs" "frame_ok t" "t \<notin> set xs" "unat i < 512"
  shows "pmm_invar (write_u64 m (t + 8 * i) v, pmm) xs"
proof -
  have "disj8 (t + 8 * i) x" if "x \<in> set xs" for x
    using entry_disj8 [of t x i 0] assms that by (auto simp: pmm_invar_def)
  then show ?thesis using assms(1) by (auto simp: pmm_invar_def intro: free_chain_write)
qed

text \<open>
  The contract of an allocator of page frames, over the list of free frames.  The
  page tables, the address spaces and the kernel heap are its clients.
\<close>

locale page_allocator =
  fixes invar :: "'s \<Rightarrow> u64 list \<Rightarrow> bool"
    and alloc :: "'s \<Rightarrow> u64 option \<times> 's"
    and free :: "'s \<Rightarrow> u64 \<Rightarrow> 's"
  assumes frames: "invar s xs \<Longrightarrow> distinct xs \<and> (\<forall>x\<in>set xs. frame_ok x)"
    and alloc_nil: "invar s [] \<Longrightarrow> alloc s = (None, s)"
    and alloc_cons: "invar s (x # xs) \<Longrightarrow> \<exists>s'. alloc s = (Some x, s') \<and> invar s' xs"
    and free_frame: "invar s xs \<Longrightarrow> frame_ok x \<Longrightarrow> x \<notin> set xs \<Longrightarrow> invar (free s x) (x # xs)"
begin

lemma alloc_SomeD:
  assumes "invar s xs" "alloc s = (Some x, s')"
  obtains ys where "xs = x # ys" "invar s' ys" "frame_ok x" "x \<notin> set ys"
  using assms alloc_nil [of s] alloc_cons [of s] frames [of s xs] by (cases xs) fastforce+

lemma alloc_None_iff: "invar s xs \<Longrightarrow> fst (alloc s) = None \<longleftrightarrow> xs = []"
  using alloc_nil [of s] alloc_cons [of s] by (cases xs) fastforce+

text \<open>The allocator is a stack: a freed frame is the next one allocated.\<close>

lemma alloc_after_free:
  "invar s xs \<Longrightarrow> frame_ok x \<Longrightarrow> x \<notin> set xs \<Longrightarrow> \<exists>s'. alloc (free s x) = (Some x, s') \<and> invar s' xs"
  using free_frame alloc_cons by blast

fun alloc_n :: "nat \<Rightarrow> 's \<Rightarrow> (u64 list \<times> 's) option" where
  "alloc_n 0 s = Some ([], s)"
| "alloc_n (Suc n) s = (case alloc s of (None, _) \<Rightarrow> None
     | (Some x, s') \<Rightarrow> (case alloc_n n s' of None \<Rightarrow> None | Some (xs, s'') \<Rightarrow> Some (x # xs, s'')))"

lemma alloc_n_ok:
  assumes "invar s xs" "n \<le> length xs"
  shows "\<exists>s'. alloc_n n s = Some (take n xs, s') \<and> invar s' (drop n xs)"
  using assms
proof (induction n arbitrary: s xs)
  case 0
  then show ?case by simp
next
  case (Suc n)
  then obtain x ys where xs: "xs = x # ys" by (cases xs) auto
  then obtain s1 where s1: "alloc s = (Some x, s1)" "invar s1 ys" using alloc_cons Suc.prems(1) by blast
  then obtain s2 where "alloc_n n s1 = Some (take n ys, s2)" "invar s2 (drop n ys)"
    using Suc.IH [of s1 ys] Suc.prems(2) xs by auto
  then show ?case using s1 xs by simp
qed

lemma alloc_n_exhausted: "invar s xs \<Longrightarrow> length xs < n \<Longrightarrow> alloc_n n s = None"
proof (induction n arbitrary: s xs)
  case 0
  then show ?case by simp
next
  case (Suc n)
  show ?case
  proof (cases xs)
    case Nil
    then show ?thesis using alloc_nil Suc.prems by simp
  next
    case (Cons x ys)
    then obtain s1 where "alloc s = (Some x, s1)" "invar s1 ys" using alloc_cons Suc.prems(1) by blast
    then show ?thesis using Suc.IH [of s1 ys] Suc.prems(2) Cons by simp
  qed
qed

text \<open>Giving a batch of allocated frames back in reverse restores the free list.\<close>

lemma free_all_alloc_n:
  assumes "invar s xs" "set ys \<inter> set xs = {}" "distinct ys" "\<forall>y\<in>set ys. frame_ok y"
  shows "invar (fold (\<lambda>y s. free s y) ys s) (rev ys @ xs)"
  using assms
proof (induction ys arbitrary: s xs)
  case Nil
  then show ?case by simp
next
  case (Cons y ys)
  have "invar (free s y) (y # xs)" using Cons.prems by (intro free_frame) auto
  then show ?case using Cons.IH [of "free s y" "y # xs"] Cons.prems by auto
qed

end

interpretation pmm_pages: page_allocator pmm_invar alloc_page free_page
proof
  fix s xs assume "pmm_invar s xs"
  then show "distinct xs \<and> (\<forall>x\<in>set xs. frame_ok x)" by (simp add: pmm_invar_def)
next
  fix s assume "pmm_invar s []"
  then show "alloc_page s = (None, s)" by (cases s) (simp add: pmm_invar_def alloc_page_def)
next
  fix s x xs assume inv: "pmm_invar s (x # xs)"
  obtain m pmm where s: "s = (m, pmm)" by (cases s)
  have "phys_of (pmm_virt pmm x) = x" using inv by (intro phys_of_virt) (simp add: pmm_invar_def)
  then show "\<exists>s'. alloc_page s = (Some x, s') \<and> pmm_invar s' xs"
    using inv s by (auto simp: pmm_invar_def alloc_page_def Let_def)
next
  fix s xs x assume inv: "pmm_invar s xs" and x: "frame_ok x" "x \<notin> set xs"
  obtain m pmm where s: "s = (m, pmm)" by (cases s)
  have dj: "\<forall>y\<in>set xs. disj8 x y" using inv x by (auto simp: pmm_invar_def intro!: frame_disj8)
  have "free_chain (write_u64 m x v) (free_list_head pmm) xs" for v
    using inv s dj by (simp add: pmm_invar_def free_chain_write)
  then show "pmm_invar (free_page s x) (x # xs)"
    using inv s x by (cases xs) (auto simp: pmm_invar_def free_page_def phys_of_virt frame_ok_def)
qed

section \<open>The pages the initialisation seeds\<close>

definition page_at :: "EfiMemoryDescriptor \<Rightarrow> u64 \<Rightarrow> u64" where
  "page_at d i = physical_start d + i * PAGE_SIZE"

text \<open>The pages that are never handed out.\<close>

definition skipped :: "PhysicalMemoryManager \<Rightarrow> u64 \<Rightarrow> bool" where
  "skipped pmm p \<longleftrightarrow> p = 0
     \<or> page_overlaps p (p + PAGE_SIZE - 1) (pmm_memory_map_addr pmm) (pmm_memory_map_addr pmm + pmm_memory_map_size pmm)
     \<or> page_overlaps p (p + PAGE_SIZE - 1) (kernel_start pmm) (kernel_end pmm)
     \<or> page_overlaps p (p + PAGE_SIZE - 1) (kernel_stack_base_addr pmm) (kernel_stack_base_addr pmm + kernel_stack_size pmm)
     \<or> page_overlaps p (p + PAGE_SIZE - 1) (pmm_framebuffer_addr pmm) (pmm_framebuffer_addr pmm + pmm_framebuffer_size pmm)"

lemma init_page_skipped: "init_page d i s = (if skipped (snd s) (page_at d i) then s else free_page s (page_at d i))"
  by (simp add: init_page_def skipped_def page_at_def Let_def)

definition kept_pages :: "PhysicalMemoryManager \<Rightarrow> EfiMemoryDescriptor \<Rightarrow> u64 list \<Rightarrow> u64 list" where
  "kept_pages pmm d is = filter (\<lambda>p. \<not> skipped pmm p) (map (page_at d) is)"

lemma kept_pages_simps [simp]:
  "kept_pages pmm d [] = []"
  "kept_pages pmm d (i # is) = (if skipped pmm (page_at d i) then kept_pages pmm d is else page_at d i # kept_pages pmm d is)"
  by (simp_all add: kept_pages_def)

definition seed_pages :: "PhysicalMemoryManager \<Rightarrow> EfiMemoryDescriptor \<Rightarrow> u64 list" where
  "seed_pages pmm d = (if region_type d = EfiConventionalMemory then kept_pages pmm d (page_numbers d) else [])"

fun map_descriptors :: "memory \<Rightarrow> nat \<Rightarrow> u64 \<Rightarrow> u64 \<Rightarrow> EfiMemoryDescriptor list option" where
  "map_descriptors m 0 a sz = Some []"
| "map_descriptors m (Suc n) a sz = do {
     d \<leftarrow> EfiMemoryDescriptor_new m a; ds \<leftarrow> map_descriptors m n (a + sz) sz; Some (d # ds) }"

text \<open>What the manager reads of itself while it seeds does not change.\<close>

definition static :: "PhysicalMemoryManager \<Rightarrow> PhysicalMemoryManager" where
  "static pmm = pmm\<lparr>free_list_head := None, free_pages := 0\<rparr>"

lemma skipped_static: "skipped (static pmm) p = skipped pmm p"
  by (simp add: skipped_def static_def)

lemma skipped_cong: "static pmm = static pmm' \<Longrightarrow> skipped pmm p = skipped pmm' p"
  by (metis skipped_static)

lemma static_free_page: "static (snd (free_page s p)) = static (snd s)"
  by (simp add: static_def free_page_def split: prod.splits)

lemma desc_size_static: "static pmm = static pmm' \<Longrightarrow> memory_map_desc_size pmm = memory_map_desc_size pmm'"
proof -
  have "memory_map_desc_size (static q) = memory_map_desc_size q" for q :: PhysicalMemoryManager
    by (simp add: static_def)
  moreover assume "static pmm = static pmm'"
  ultimately show ?thesis by metis
qed

section \<open>The memory map survives the seeding\<close>

lemma read_u32_cong:
  assumes "same_bytes a n m m'" "unat k + 4 \<le> n" "n \<le> 2 ^ 63"
  shows "read_u32 m (a + k) = read_u32 m' (a + k)"
proof -
  have "m (a + k + of_nat i) = m' (a + k + of_nat i)" if "i < 4" for i
  proof (rule same_bytesD [OF assms(1)])
    have "unat (k + of_nat i) = unat k + i"
      using that assms(2,3) by (subst unat_add_lem [THEN iffD1]) (simp_all add: unat_of_nat)
    then show "unat (a + k + of_nat i - a) < n" using that assms(2) by (simp add: add.assoc)
  qed
  from this [of 0] this [of 1] this [of 2] this [of 3] show ?thesis by (simp add: read_u32_def add.assoc)
qed

lemma descriptor_cong:
  assumes "same_bytes a n m m'" "unat k + 40 \<le> n" "unat a + n < 2 ^ 47"
  shows "EfiMemoryDescriptor_new m (a + k) = EfiMemoryDescriptor_new m' (a + k)"
proof -
  have k: "unat (k + of_nat j) = unat k + j" if "j \<le> 32" for j
    using that assms(2,3) by (subst unat_add_lem [THEN iffD1]) (simp_all add: unat_of_nat)
  have "unat (a + k) = unat a + unat k" using assms(2,3) by (subst unat_add_lem [THEN iffD1]) simp_all
  then have p: "phys_of (a + k) = a + k"
    using assms(2,3) by (simp add: phys_of_def KERNEL_PHYSICAL_MAP_BASE_def word_less_nat_alt)
  have r: "read_u64 m (a + (k + of_nat j)) = read_u64 m' (a + (k + of_nat j))" if "j \<le> 32" for j
    using that k [OF that] assms by (intro read_u64_cong [OF assms(1)]) simp_all
  have r32: "read_u32 m (a + (k + of_nat j)) = read_u32 m' (a + (k + of_nat j))" if "j \<le> 32" for j
    using that k [OF that] assms by (intro read_u32_cong [OF assms(1)]) simp_all
  show ?thesis
    using r [of 8] r [of 16] r [of 24] r [of 32] r32 [of 0] r32 [of 4] p
    by (simp add: EfiMemoryDescriptor_new_def add.assoc)
qed

lemma free_page_outside:
  assumes "frame_ok p" "unat a + n < 2 ^ 47" "n < 2 ^ 47"
    and no: "\<not> page_overlaps p (p + PAGE_SIZE - 1) a (a + of_nat n)"
  shows "same_bytes a n (fst s) (fst (free_page s p))"
proof -
  obtain m pmm where s: "s = (m, pmm)" by (cases s)
  have f: "4096 \<le> unat p" "unat p + 4096 \<le> 2 ^ 47" using frame_ok_nat [OF assms(1)] by auto
  have e: "unat (p + PAGE_SIZE - 1) = unat p + 4095"
    using f by (simp add: PAGE_SIZE_def) (subst unat_add_lem [THEN iffD1], simp_all)
  have an: "unat (a + of_nat n) = unat a + n"
    using assms(2,3) by (subst unat_add_lem [THEN iffD1]) (simp_all add: unat_of_nat)
  have d: "unat a + n < unat p \<or> unat p + 4095 < unat a"
    using no e an by (auto simp: page_overlaps_def word_le_nat_alt)
  have "disj_range a n p 8"
  proof (rule disj_rangeI)
    show "n \<le> unat (p - a)" "8 \<le> unat (a - p)" using d f assms(2) by (auto simp: unat_sub_if')
    show "a \<noteq> p" using d by auto
  qed
  then show ?thesis
    using s assms(1) by (simp add: same_bytes_def free_page_def phys_of_virt write_u64_byte disj_range_def)
qed

lemma seed_descriptor:
  assumes "pmm_invar s xs" "static (snd s) = static pmm" "\<forall>p\<in>set (kept_pages pmm d is). frame_ok p"
    and "distinct (kept_pages pmm d is)" "set (kept_pages pmm d is) \<inter> set xs = {}"
    and "unat (pmm_memory_map_addr pmm) + n < 2 ^ 47" "pmm_memory_map_size pmm = of_nat n" "n < 2 ^ 47"
  shows "pmm_invar (fold (init_page d) is s) (rev (kept_pages pmm d is) @ xs) \<and>
    static (snd (fold (init_page d) is s)) = static pmm \<and>
    same_bytes (pmm_memory_map_addr pmm) n (fst s) (fst (fold (init_page d) is s))"
  using assms(1-5)
proof (induction "is" arbitrary: s xs)
  case Nil
  then show ?case by (simp add: same_bytes_def)
next
  case (Cons i "is")
  let ?p = "page_at d i"
  show ?case
  proof (cases "skipped pmm ?p")
    case True
    then have "init_page d i s = s" using skipped_cong [OF Cons.prems(2)] by (simp add: init_page_skipped)
    then show ?thesis using Cons.IH [of s xs] Cons.prems True by simp
  next
    case False
    then have st: "init_page d i s = free_page s ?p" using skipped_cong [OF Cons.prems(2)] by (simp add: init_page_skipped)
    have p: "frame_ok ?p" "?p \<notin> set xs" using Cons.prems(3,5) False by simp_all
    have no: "\<not> page_overlaps ?p (?p + PAGE_SIZE - 1) (pmm_memory_map_addr pmm) (pmm_memory_map_addr pmm + of_nat n)"
      using False assms(7) by (simp add: skipped_def)
    note same = free_page_outside [OF p(1) assms(6,8) no, of s]
    have inv: "pmm_invar (free_page s ?p) (?p # xs)" by (rule pmm_pages.free_frame [OF Cons.prems(1) p])
    have "static (snd (free_page s ?p)) = static pmm" using static_free_page Cons.prems(2) by simp
    from Cons.IH [OF inv this] show ?thesis
      using Cons.prems(3,4,5) False st same same_bytes_trans [OF same] by simp
  qed
qed

lemma seed_segment:
  assumes "pmm_invar s xs" "static (snd s) = static pmm" "\<forall>p\<in>set (seed_pages pmm d). frame_ok p"
    and "distinct (seed_pages pmm d)" "set (seed_pages pmm d) \<inter> set xs = {}"
    and "unat (pmm_memory_map_addr pmm) + n < 2 ^ 47" "pmm_memory_map_size pmm = of_nat n"
    and s1: "s1 = (if region_type d \<noteq> EfiConventionalMemory then s else fold (init_page d) (page_numbers d) s)"
  shows "pmm_invar s1 (rev (seed_pages pmm d) @ xs)" "static (snd s1) = static pmm"
    "same_bytes (pmm_memory_map_addr pmm) n (fst s) (fst s1)"
proof -
  have n: "n < 2 ^ 47" using assms(6) by simp
  have "pmm_invar s1 (rev (seed_pages pmm d) @ xs) \<and> static (snd s1) = static pmm \<and>
    same_bytes (pmm_memory_map_addr pmm) n (fst s) (fst s1)"
  proof (cases "region_type d = EfiConventionalMemory")
    case True
    then have kp: "seed_pages pmm d = kept_pages pmm d (page_numbers d)" by (simp add: seed_pages_def)
    show ?thesis
      using seed_descriptor [OF assms(1,2) assms(3-5) [unfolded kp] assms(6,7) n] True s1 kp by simp
  next
    case False
    then show ?thesis using assms(1,2) s1 by (simp add: seed_pages_def same_bytes_def)
  qed
  then show "pmm_invar s1 (rev (seed_pages pmm d) @ xs)" "static (snd s1) = static pmm"
    "same_bytes (pmm_memory_map_addr pmm) n (fst s) (fst s1)" by blast+
qed

lemma init_segments_ok:
  assumes "map_descriptors m n (base + of_nat k) sz = Some ds" "k + n * unat sz \<le> N" "40 \<le> unat sz"
    and "pmm_invar s xs" "static (snd s) = static pmm" "same_bytes base N m (fst s)"
    and "distinct (concat (map (seed_pages pmm) ds))" "set (concat (map (seed_pages pmm) ds)) \<inter> set xs = {}"
    and "\<forall>p\<in>set (concat (map (seed_pages pmm) ds)). frame_ok p"
    and base: "pmm_memory_map_addr pmm = base" "unat base + N < 2 ^ 47" "pmm_memory_map_size pmm = of_nat N"
    and sz: "memory_map_desc_size pmm = sz"
  shows "\<exists>s'. init_segments n (base + of_nat k) s = Some s' \<and>
    pmm_invar s' (rev (concat (map (seed_pages pmm) ds)) @ xs) \<and> static (snd s') = static pmm"
  using assms(1-9)
proof (induction n arbitrary: k ds s xs)
  case 0
  then show ?case by simp
next
  case (Suc n)
  have k: "k + 40 \<le> N" using Suc.prems(2,3) by simp
  then have kk: "unat (of_nat k :: u64) = k" using base(2) by (simp add: unat_of_nat)
  obtain d ds' where d: "EfiMemoryDescriptor_new m (base + of_nat k) = Some d" "ds = d # ds'"
      "map_descriptors m n (base + of_nat k + sz) sz = Some ds'"
    using Suc.prems(1) by (auto simp: some_conv)
  have step: "base + of_nat k + sz = base + of_nat (k + unat sz)" by simp
  have rd: "EfiMemoryDescriptor_new (fst s) (base + of_nat k) = Some d"
    using d(1) descriptor_cong [OF Suc.prems(6), of "of_nat k"] k kk base(2) by simp
  define s1 where "s1 = (if region_type d \<noteq> EfiConventionalMemory then s else fold (init_page d) (page_numbers d) s)"
  have sp: "\<forall>p\<in>set (seed_pages pmm d). frame_ok p" "distinct (seed_pages pmm d)" "set (seed_pages pmm d) \<inter> set xs = {}"
    using Suc.prems(7-9) d(2) by auto
  note seg = seed_segment [OF Suc.prems(4,5) sp _ _ s1_def, of N, unfolded base(1), OF base(2,3)]
  have same: "same_bytes base N m (fst s1)" by (rule same_bytes_trans [OF Suc.prems(6) seg(3)])
  have "init_segments (Suc n) (base + of_nat k) s = init_segments n (base + of_nat (k + unat sz)) s1"
    using rd desc_size_static [OF Suc.prems(5)] sz by (simp add: s1_def add.assoc)
  moreover have "\<exists>s'. init_segments n (base + of_nat (k + unat sz)) s1 = Some s' \<and>
      pmm_invar s' (rev (concat (map (seed_pages pmm) ds')) @ rev (seed_pages pmm d) @ xs) \<and> static (snd s') = static pmm"
  proof (rule Suc.IH)
    show "map_descriptors m n (base + of_nat (k + unat sz)) sz = Some ds'" using d(3) step by simp
    show "k + unat sz + n * unat sz \<le> N" "40 \<le> unat sz" using Suc.prems(2,3) by simp_all
    show "distinct (concat (map (seed_pages pmm) ds'))" "\<forall>p\<in>set (concat (map (seed_pages pmm) ds')). frame_ok p"
      using Suc.prems(7,9) d(2) by simp_all
    show "set (concat (map (seed_pages pmm) ds')) \<inter> set (rev (seed_pages pmm d) @ xs) = {}"
      using Suc.prems(7,8) d(2) by auto
  qed (use seg same in auto)
  ultimately show ?case using d(2) by simp
qed

text \<open>
  A memory map the firmware may hand over: aligned regions below the top of the
  direct map, which do not overlap.
\<close>

definition desc_pages :: "EfiMemoryDescriptor \<Rightarrow> nat set" where
  "desc_pages d = {unat (physical_start d) ..< unat (physical_start d) + 4096 * unat (num_pages d)}"

definition map_ok :: "EfiMemoryDescriptor list \<Rightarrow> bool" where
  "map_ok ds \<longleftrightarrow> (\<forall>d\<in>set ds. unat (physical_start d) mod 4096 = 0 \<and> unat (physical_start d) + 4096 * unat (num_pages d) \<le> 2 ^ 47)
     \<and> sorted_wrt (\<lambda>d e. desc_pages d \<inter> desc_pages e = {}) ds"

lemma unat_page_at:
  assumes "i < unat (num_pages d)" "unat (physical_start d) + 4096 * unat (num_pages d) \<le> 2 ^ 47"
  shows "unat (page_at d (of_nat i)) = unat (physical_start d) + 4096 * i"
proof -
  have "unat (of_nat i * PAGE_SIZE) = 4096 * i"
    using assms by (subst unat_mult_lem [THEN iffD1]) (simp_all add: PAGE_SIZE_def unat_of_nat)
  then show ?thesis using assms unfolding page_at_def by (subst unat_add_lem [THEN iffD1]) simp_all
qed

lemma seed_pages_in:
  assumes "p \<in> set (seed_pages pmm d)" "unat (physical_start d) + 4096 * unat (num_pages d) \<le> 2 ^ 47"
  obtains i where "i < unat (num_pages d)" "unat p = unat (physical_start d) + 4096 * i" "\<not> skipped pmm p"
  using assms(1) that unat_page_at [OF _ assms(2)]
  by (auto simp: seed_pages_def kept_pages_def page_numbers_def split: if_splits)

lemma seed_pages_distinct:
  assumes "unat (physical_start d) + 4096 * unat (num_pages d) \<le> 2 ^ 47"
  shows "distinct (seed_pages pmm d)"
proof -
  have "inj_on (page_at d \<circ> of_nat) {0..<unat (num_pages d)}"
  proof (rule inj_onI)
    fix i j assume i: "i \<in> {0..<unat (num_pages d)}" and j: "j \<in> {0..<unat (num_pages d)}"
      and eq: "(page_at d \<circ> of_nat) i = (page_at d \<circ> of_nat) j"
    have "unat (page_at d (of_nat i)) = unat (physical_start d) + 4096 * i"
      using unat_page_at [OF _ assms, of i] i by simp
    moreover have "unat (page_at d (of_nat j)) = unat (physical_start d) + 4096 * j"
      using unat_page_at [OF _ assms, of j] j by simp
    moreover have "unat (page_at d (of_nat i)) = unat (page_at d (of_nat j))" using eq by simp
    ultimately show "i = j" by linarith
  qed
  moreover have "map (page_at d) (page_numbers d) = map (page_at d \<circ> of_nat) [0..<unat (num_pages d)]"
    by (simp add: page_numbers_def)
  ultimately have "distinct (map (page_at d) (page_numbers d))"
    by (simp only: distinct_map set_upt distinct_upt simp_thms)
  then show ?thesis by (simp add: seed_pages_def kept_pages_def)
qed

lemma seed_map_ok:
  assumes "map_ok ds"
  shows "distinct (concat (map (seed_pages pmm) ds))" "\<forall>p\<in>set (concat (map (seed_pages pmm) ds)). frame_ok p"
proof -
  have b: "unat (physical_start d) mod 4096 = 0" "unat (physical_start d) + 4096 * unat (num_pages d) \<le> 2 ^ 47"
    if "d \<in> set ds" for d using assms that by (auto simp: map_ok_def)
  show "\<forall>p\<in>set (concat (map (seed_pages pmm) ds)). frame_ok p"
  proof
    fix p assume "p \<in> set (concat (map (seed_pages pmm) ds))"
    then obtain d where d: "d \<in> set ds" "p \<in> set (seed_pages pmm d)" by auto
    then obtain i where i: "i < unat (num_pages d)" "unat p = unat (physical_start d) + 4096 * i" "\<not> skipped pmm p"
      using seed_pages_in b(2) by metis
    have "unat p < 2 ^ 47" using i(1,2) b(2) [OF d(1)] by linarith
    moreover have "unat p mod 4096 = 0" using i(2) b(1) [OF d(1)] by simp
    moreover have "p \<noteq> 0" using i(3) by (auto simp: skipped_def)
    ultimately show "frame_ok p" by (simp add: frame_ok_def word_less_nat_alt)
  qed
  have "sorted_wrt (\<lambda>d e. desc_pages d \<inter> desc_pages e = {}) ds" using assms by (simp add: map_ok_def)
  then show "distinct (concat (map (seed_pages pmm) ds))" using b
  proof (induction ds)
    case Nil
    then show ?case by simp
  next
    case (Cons d ds)
    have sub: "unat p \<in> desc_pages e" if e: "e \<in> set (d # ds)" "p \<in> set (seed_pages pmm e)" for e p
    proof -
      obtain i where "i < unat (num_pages e)" "unat p = unat (physical_start e) + 4096 * i"
        by (rule seed_pages_in [OF e(2) Cons.prems(3) [OF e(1)]])
      then show ?thesis by (simp add: desc_pages_def)
    qed
    have dj: "p \<notin> set (seed_pages pmm e)" if "e \<in> set ds" "p \<in> set (seed_pages pmm d)" for e p
    proof
      assume "p \<in> set (seed_pages pmm e)"
      then have "unat p \<in> desc_pages d \<inter> desc_pages e" using sub [of d p] sub [of e p] that by simp
      then show False using Cons.prems(1) that(1) by auto
    qed
    have "distinct (concat (map (seed_pages pmm) ds))" using Cons.IH Cons.prems by simp
    moreover have "distinct (seed_pages pmm d)" using Cons.prems(3) by (intro seed_pages_distinct) simp
    ultimately show ?case using dj by auto
  qed
qed


section \<open>Properties\<close>

lemma not_overlapsD:
  assumes "\<not> page_overlaps p (p + PAGE_SIZE - 1) r_start r_end" "frame_ok p" "p \<le> a" "unat a < unat p + 4096"
  shows "\<not> (r_start \<le> a \<and> a \<le> r_end)"
proof -
  have f: "4096 \<le> unat p" "unat p + 4096 \<le> 2 ^ 47" using frame_ok_nat [OF assms(2)] by auto
  have "unat (p + PAGE_SIZE - 1) = unat p + 4095"
    using f by (simp add: PAGE_SIZE_def) (subst unat_add_lem [THEN iffD1], simp_all)
  then show ?thesis using assms(1,3,4) by (auto simp: page_overlaps_def word_le_nat_alt)
qed

lemma pmm_invar_empty: "free_list_head pmm = None \<Longrightarrow> free_pages pmm = 0 \<Longrightarrow> pmm_invar (m, pmm) []"
  by (simp add: pmm_invar_def)

text \<open>
  C10: the initialisation of the physical memory manager succeeds on every memory
  map of aligned, disjoint regions, and its free list then holds exactly the pages
  of the conventional regions that are not page 0 and touch neither the memory
  map, the kernel image, the kernel stack nor the framebuffer; in particular no
  byte of those is in a page that can be allocated.
\<close>

theorem pmm_init_free_list:
  assumes ds: "map_descriptors m (unat (memory_map_size mm div descriptor_size mm)) (memory_map_addr mm) (descriptor_size mm) = Some ds"
    and ok: "map_ok ds" and sz: "40 \<le> unat (descriptor_size mm)"
    and bnd: "unat (memory_map_addr mm) + unat (memory_map_size mm) < 2 ^ 47"
  shows "\<exists>m' pmm ps. PhysicalMemoryManager_init k_start k_end fb mm m = Some (m', pmm) \<and>
    ps = concat (map (seed_pages pmm) ds) \<and> pmm_invar (m', pmm) (rev ps) \<and>
    (\<forall>p\<in>set ps. p \<noteq> 0 \<and> (\<forall>a. p \<le> a \<and> unat a < unat p + 4096 \<longrightarrow>
       \<not> (k_start \<le> a \<and> a \<le> k_end) \<and>
       \<not> (stack_base_addr mm \<le> a \<and> a \<le> stack_base_addr mm + stack_size mm) \<and>
       \<not> (framebuffer_addr fb \<le> a \<and> a \<le> framebuffer_addr fb + framebuffer_bytes fb) \<and>
       \<not> (memory_map_addr mm \<le> a \<and> a \<le> memory_map_addr mm + memory_map_size mm)))"
proof -
  define pmm where "pmm = \<lparr>pmm_kernel_load_addr = kernel_load_addr mm, pmm_kernel_image_size = kernel_image_size mm,
    kernel_stack_base_addr = stack_base_addr mm, kernel_stack_size = stack_size mm,
    pmm_framebuffer_addr = framebuffer_addr fb, pmm_framebuffer_size = framebuffer_bytes fb,
    pmm_memory_map_addr = memory_map_addr mm, pmm_memory_map_size = memory_map_size mm,
    memory_map_desc_size = descriptor_size mm, kernel_start = k_start, kernel_end = k_end,
    is_higher_half = False, free_list_head = None, free_pages = 0\<rparr>"
  let ?ps = "concat (map (seed_pages pmm) ds)" and ?n = "unat (memory_map_size mm div descriptor_size mm)"
  have le: "0 + ?n * unat (descriptor_size mm) \<le> unat (memory_map_size mm)"
    by (simp add: unat_div div_times_less_eq_dividend)
  have inv0: "pmm_invar (m, pmm) []" by (rule pmm_invar_empty) (simp_all add: pmm_def)
  obtain s' where s': "init_segments ?n (memory_map_addr mm) (m, pmm) = Some s'" "pmm_invar s' (rev ?ps)" "static (snd s') = static pmm"
    using init_segments_ok [of m ?n "memory_map_addr mm" 0 "descriptor_size mm" ds "unat (memory_map_size mm)" "(m, pmm)" "[]" pmm]
      ds le sz inv0 seed_map_ok [OF ok, of pmm] bnd by (auto simp: same_bytes_def pmm_def)
  obtain m' pmm' where sp: "s' = (m', pmm')" by (cases s')
  have "descriptor_size mm \<noteq> 0" using sz by auto
  then have "PhysicalMemoryManager_init k_start k_end fb mm m = Some (m', pmm')"
    using s'(1) sp by (simp add: PhysicalMemoryManager_init_def pmm_def)
  moreover have "seed_pages pmm' = seed_pages pmm"
    using skipped_cong [of pmm' pmm] s'(3) sp by (intro ext) (simp add: seed_pages_def kept_pages_def)
  moreover have "\<not> skipped pmm p" if "p \<in> set ?ps" for p
    using that by (auto simp: seed_pages_def kept_pages_def split: if_splits)
  ultimately show ?thesis
    using s'(2) sp seed_map_ok(2) [OF ok, of pmm] not_overlapsD unfolding skipped_def
    by (intro exI [of _ m'] exI [of _ pmm'] exI [of _ ?ps]) (simp add: pmm_def, blast)
qed

definition demo_map :: MemoryMapInfo where
  "demo_map = \<lparr>memory_map_addr = 0x8000, memory_map_size = 48, descriptor_size = 48, descriptor_ver = 1, bsp_apic_id = 0,
     kernel_load_addr = 0x100000, kernel_image_size = 0x100000, stack_base_addr = 0x300000, stack_size = 0x4000, rsdp_addr = 0xE0000\<rparr>"

definition demo_fb :: FramebufferInfo where
  "demo_fb = \<lparr>framebuffer_addr = 0x80000000, framebuffer_width = 1024, framebuffer_height = 768,
     framebuffer_pitch = 4096, framebuffer_bpp = 32\<rparr>"

definition demo_map_mem :: memory where
  "demo_map_mem = write_u64 (write_u64 (write_u64 (\<lambda>_. 0) 0x8000 7) 0x8008 0xF000) 0x8018 3"

lemma demo_descriptors:
  "map_descriptors demo_map_mem 1 0x8000 48 = Some [\<lparr>region_type = EfiConventionalMemory, efi_padding = 0,
     physical_start = 0xF000, virtual_start = 0, num_pages = 3, attribute = 0\<rparr>]"
proof -
  have c: "read_u64 demo_map_mem 0x8000 = 7" "read_u64 demo_map_mem 0x8008 = 0xF000" "read_u64 demo_map_mem 0x8010 = 0"
    "read_u64 demo_map_mem 0x8018 = 3" "read_u64 demo_map_mem 0x8020 = 0"
    by (simp_all add: demo_map_mem_def read_write_other disj8_def)
  then show ?thesis
    using read_u32_high [of demo_map_mem "0x8000"]
    by (simp add: EfiMemoryDescriptor_new_def phys_of_def KERNEL_PHYSICAL_MAP_BASE_def read_u32_low [of _ "0x8000"] efi_types_def)
qed

theorem pmm_init_free_list_witness:
  "\<exists>m' pmm ps. PhysicalMemoryManager_init 0x100000 0x200000 demo_fb demo_map demo_map_mem = Some (m', pmm) \<and>
     ps = seed_pages pmm \<lparr>region_type = EfiConventionalMemory, efi_padding = 0,
       physical_start = 0xF000, virtual_start = 0, num_pages = 3, attribute = 0\<rparr> \<and> pmm_invar (m', pmm) (rev ps)"
  using pmm_init_free_list [of demo_map_mem demo_map _ "0x100000" "0x200000" demo_fb] demo_descriptors
  by (simp add: demo_map_def map_ok_def) blast

text \<open>
  C11: the allocator is a stack of frames: a freed frame is the next one allocated,
  and n allocations from a list of at least n frames hand out the first n, which are
  distinct, leaving the rest; one more than the list holds reports out of memory.
\<close>

theorem pmm_alloc_discipline:
  assumes "pmm_invar s xs" "frame_ok x" "x \<notin> set xs" "n \<le> length xs"
  shows "(\<exists>s'. alloc_page (free_page s x) = (Some x, s') \<and> pmm_invar s' xs) \<and>
    (\<exists>s'. pmm_pages.alloc_n n s = Some (take n xs, s') \<and> pmm_invar s' (drop n xs)) \<and> distinct (take n xs) \<and>
    pmm_pages.alloc_n (Suc (length xs)) s = None"
  using pmm_pages.alloc_after_free [OF assms(1-3)] pmm_pages.alloc_n_ok [OF assms(1,4)]
    pmm_pages.frames [OF assms(1)] pmm_pages.alloc_n_exhausted [OF assms(1), of "Suc (length xs)"]
  by (simp add: distinct_take del: pmm_pages.alloc_n.simps)

definition demo_pmm :: PhysicalMemoryManager where
  "demo_pmm = \<lparr>pmm_kernel_load_addr = 0, pmm_kernel_image_size = 0, kernel_stack_base_addr = 0, kernel_stack_size = 0,
     pmm_framebuffer_addr = 0, pmm_framebuffer_size = 0, pmm_memory_map_addr = 0, pmm_memory_map_size = 0,
     memory_map_desc_size = 48, kernel_start = 0, kernel_end = 0, is_higher_half = True, free_list_head = None, free_pages = 0\<rparr>"

lemma demo_pmm_seeded:
  assumes "distinct ys" "\<forall>y\<in>set ys. frame_ok y"
  shows "pmm_invar (fold (\<lambda>y s. free_page s y) ys ((\<lambda>_. 0), demo_pmm)) (rev ys)"
  using pmm_pages.free_all_alloc_n [OF pmm_invar_empty [of demo_pmm "\<lambda>_. 0"], of ys] assms by (simp add: demo_pmm_def)

theorem pmm_alloc_discipline_witness:
  "\<exists>s. pmm_invar s [0x11000, 0x10000] \<and>
     (\<exists>s'. alloc_page (free_page s 0x12000) = (Some 0x12000, s') \<and> pmm_invar s' [0x11000, 0x10000])"
proof -
  let ?s = "fold (\<lambda>y s. free_page s y) [0x10000, 0x11000] ((\<lambda>_. 0), demo_pmm)"
  have i: "pmm_invar ?s [0x11000, 0x10000]"
    using demo_pmm_seeded [of "[0x10000, 0x11000]"] by (simp add: frame_ok_def)
  have "\<exists>s'. alloc_page (free_page ?s 0x12000) = (Some 0x12000, s') \<and> pmm_invar s' [0x11000, 0x10000]"
    using pmm_alloc_discipline [OF i, of "0x12000" 2] by (simp add: frame_ok_def)
  with i show ?thesis by blast
qed

end
