(* ===== verification/Vmm.thy ===== *)
theory Vmm
  imports Pmm
begin

text \<open>
  The virtual memory manager (memory\_manager/vmm.rs): the four-level page tables of
  x86-64 on physical memory.  A table is a page frame of 512 entries; a pointer to a
  table is an address in the identity map or in the direct map.  The TLB is not
  modelled as state: unmapping reports the addresses it invalidates.
\<close>

section \<open>Constants\<close>

definition PRESENT :: u64 where "PRESENT = 1"

definition WRITABLE :: u64 where "WRITABLE = 2"

definition USER :: u64 where "USER = 4"

definition PWT :: u64 where "PWT = 8"

definition PCD :: u64 where "PCD = 16"

definition NX :: u64 where "NX = push_bit 63 1"

definition KERNEL_VIRTUAL_BASE :: u64 where "KERNEL_VIRTUAL_BASE = 0xFFFFFFFF80000000"

definition KERNEL_FRAMEBUFFER_VIRTUAL_BASE :: u64 where "KERNEL_FRAMEBUFFER_VIRTUAL_BASE = 0xFFFF900000000000"

type_synonym vm = "memory \<times> PhysicalMemoryManager"

section \<open>Walks\<close>

definition zero_out_page :: "memory \<Rightarrow> u64 \<Rightarrow> memory" where
  "zero_out_page m address = fold (\<lambda>i m. write_u64 m (phys_of (address + 8 * of_nat i)) 0) [0..<512] m"

text \<open>The indices into the four levels and the offset in the page.\<close>

definition pml4_index :: "u64 \<Rightarrow> u64" where "pml4_index va = drop_bit 39 va AND 0x1FF"

definition pdpt_index :: "u64 \<Rightarrow> u64" where "pdpt_index va = drop_bit 30 va AND 0x1FF"

definition pd_index :: "u64 \<Rightarrow> u64" where "pd_index va = drop_bit 21 va AND 0x1FF"

definition pt_index :: "u64 \<Rightarrow> u64" where "pt_index va = drop_bit 12 va AND 0x1FF"

text \<open>The entry a table pointer and an index reach.\<close>

definition entry :: "memory \<Rightarrow> u64 \<Rightarrow> u64 \<Rightarrow> u64" where
  "entry m table index = read_u64 m (phys_of (table + 8 * index))"

definition set_entry :: "memory \<Rightarrow> u64 \<Rightarrow> u64 \<Rightarrow> u64 \<Rightarrow> memory" where
  "set_entry m table index v = write_u64 m (phys_of (table + 8 * index)) v"

text \<open>Look a table up or create it; running out of frames is a panic.\<close>

definition get_or_create_table :: "vm \<Rightarrow> u64 \<Rightarrow> u64 \<Rightarrow> u64 \<Rightarrow> (u64 \<times> vm) option" where
  "get_or_create_table s table index intermediate_flags = do {
     s \<leftarrow> (if entry (fst s) table index AND PRESENT = 0 then
            (case alloc_page s of
               (None, _) \<Rightarrow> None
             | (Some new_table_phys, m, pmm) \<Rightarrow>
                 let new_table_virt = pmm_virt pmm new_table_phys;
                     m = zero_out_page m new_table_virt
                 in Some (set_entry m table index (new_table_phys OR intermediate_flags), pmm))
          else Some s);
     let phys = entry (fst s) table index AND NOT 0xFFF;
     Some (pmm_virt (snd s) phys, s)
   }"

definition map_page :: "vm \<Rightarrow> u64 \<Rightarrow> u64 \<Rightarrow> u64 \<Rightarrow> u64 \<Rightarrow> bool \<Rightarrow> vm option" where
  "map_page s pml4_addr virtual_addr physical_addr flags is_user_page = do {
     let intermediate_flags = (if is_user_page then PRESENT OR WRITABLE OR USER else PRESENT OR WRITABLE);
     (pdpt, s) \<leftarrow> get_or_create_table s pml4_addr (pml4_index virtual_addr) intermediate_flags;
     (pd, s) \<leftarrow> get_or_create_table s pdpt (pdpt_index virtual_addr) intermediate_flags;
     (pt, s) \<leftarrow> get_or_create_table s pd (pd_index virtual_addr) intermediate_flags;
     Some (set_entry (fst s) pt (pt_index virtual_addr) ((physical_addr AND NOT 0xFFF) OR flags OR PRESENT), snd s)
   }"

definition next_table :: "u64 \<Rightarrow> u64" where
  "next_table e = (e AND NOT 0xFFF) + KERNEL_PHYSICAL_MAP_BASE"

definition get_physical_addr :: "memory \<Rightarrow> u64 \<Rightarrow> u64 \<Rightarrow> u64 option" where
  "get_physical_addr m pml4_addr virtual_addr =
     (let pml4e = entry m pml4_addr (pml4_index virtual_addr) in
      if pml4e AND PRESENT = 0 then None else
      let pdpte = entry m (next_table pml4e) (pdpt_index virtual_addr) in
      if pdpte AND PRESENT = 0 then None else
      let pde = entry m (next_table pdpte) (pd_index virtual_addr) in
      if pde AND PRESENT = 0 then None else
      let pte = entry m (next_table pde) (pt_index virtual_addr) in
      if pte AND PRESENT = 0 then None else
      Some ((pte AND NOT 0xFFF) OR (virtual_addr AND 0xFFF)))"

definition is_table_empty :: "memory \<Rightarrow> u64 \<Rightarrow> bool" where
  "is_table_empty m table = list_all (\<lambda>i. entry m table (of_nat i) AND PRESENT = 0) [0..<512]"

text \<open>
  Unmapping clears the leaf entry and gives the tables that became empty back, from
  the lowest level upwards.  The list holds the addresses invalidated in the TLB.
\<close>

definition unmap_page :: "vm \<Rightarrow> u64 \<Rightarrow> u64 \<Rightarrow> bool \<times> u64 list \<times> vm" where
  "unmap_page s pml4_addr virtual_addr =
     (let m = fst s; pmm = snd s; i4 = pml4_index virtual_addr; i3 = pdpt_index virtual_addr;
          i2 = pd_index virtual_addr; i1 = pt_index virtual_addr; pml4e = entry m pml4_addr i4 in
      if pml4e AND PRESENT = 0 then (False, [], s) else
      let pdpt = next_table pml4e; pdpte = entry m pdpt i3 in
      if pdpte AND PRESENT = 0 then (False, [], s) else
      let pd = next_table pdpte; pde = entry m pd i2 in
      if pde AND PRESENT = 0 then (False, [], s) else
      let pt = next_table pde; pte = entry m pt i1 in
      if pte AND PRESENT = 0 then (False, [], s) else
      let s = (set_entry m pt i1 0, pmm) in
      if \<not> is_table_empty (fst s) pt then (True, [virtual_addr], s) else
      let pt_phys = entry (fst s) pd i2 AND NOT 0xFFF;
          s = free_page (set_entry (fst s) pd i2 0, snd s) pt_phys in
      if \<not> is_table_empty (fst s) pd then (True, [virtual_addr], s) else
      let pd_phys = entry (fst s) pdpt i3 AND NOT 0xFFF;
          s = free_page (set_entry (fst s) pdpt i3 0, snd s) pd_phys in
      if \<not> is_table_empty (fst s) pdpt then (True, [virtual_addr], s) else
      let pdpt_phys = entry (fst s) pml4_addr i4 AND NOT 0xFFF;
          s = free_page (set_entry (fst s) pml4_addr i4 0, snd s) pdpt_phys in
      (True, [virtual_addr], s))"

section \<open>Boot: identity map, direct map, reclaim\<close>

text \<open>
  The loops over the pages of an address range.  When the end is in the last page of
  the address space the cursor wraps and the loop does not end; not returning is
  \<^term>\<open>None\<close>.
\<close>

partial_function (option) page_loop :: "(u64 \<Rightarrow> vm \<Rightarrow> vm option) \<Rightarrow> u64 \<Rightarrow> u64 \<Rightarrow> vm \<Rightarrow> vm option" where
  "page_loop body addr stop s =
     (if addr < stop then (case body addr s of None \<Rightarrow> None | Some s' \<Rightarrow> page_loop body (addr + PAGE_SIZE) stop s') else Some s)"

text \<open>The loop over the pages of a descriptor, and the loop over the descriptors of the memory map.\<close>

fun for_pages :: "(u64 \<Rightarrow> vm \<Rightarrow> vm option) \<Rightarrow> u64 list \<Rightarrow> vm \<Rightarrow> vm option" where
  "for_pages body [] s = Some s"
| "for_pages body (i # is) s = (case body i s of None \<Rightarrow> None | Some s' \<Rightarrow> for_pages body is s')"

fun for_descriptors :: "(EfiMemoryDescriptor \<Rightarrow> vm \<Rightarrow> vm option) \<Rightarrow> nat \<Rightarrow> u64 \<Rightarrow> u64 \<Rightarrow> vm \<Rightarrow> vm option" where
  "for_descriptors body 0 descriptor_addr sz s = Some s"
| "for_descriptors body (Suc n) descriptor_addr sz s = do {
     d \<leftarrow> EfiMemoryDescriptor_new (fst s) descriptor_addr;
     s \<leftarrow> body d s;
     for_descriptors body n (descriptor_addr + sz) sz s
   }"

definition num_segments :: "MemoryMapInfo \<Rightarrow> nat option" where
  "num_segments mm = (if descriptor_size mm = 0 then None else Some (unat (memory_map_size mm div descriptor_size mm)))"

definition identity_region :: "EfiMemoryType \<Rightarrow> bool" where
  "identity_region ty \<longleftrightarrow> ty \<in> {EfiConventionalMemory, EfiLoaderCode, EfiLoaderData, EfiBootServicesCode, EfiBootServicesData}"

definition init_page_tables :: "vm \<Rightarrow> FramebufferInfo \<Rightarrow> MemoryMapInfo \<Rightarrow> (u64 \<times> vm) option" where
  "init_page_tables s framebuffer_info memory_map = (case alloc_page s of
     (None, _) \<Rightarrow> None
   | (Some pml4, s) \<Rightarrow> do {
       let s = (zero_out_page (fst s) pml4, snd s);
       n \<leftarrow> num_segments memory_map;
       s \<leftarrow> for_descriptors (\<lambda>d s. if \<not> identity_region (region_type d) then Some s else
              for_pages (\<lambda>i s. let phys = page_at d i in map_page s pml4 phys phys (PRESENT OR WRITABLE) False) (page_numbers d) s)
            n (memory_map_addr memory_map) (descriptor_size memory_map) s;
       s \<leftarrow> page_loop (\<lambda>addr s. do {
              s \<leftarrow> map_page s pml4 addr addr (PRESENT OR WRITABLE) False;
              map_page s pml4 (addr + KERNEL_VIRTUAL_BASE) addr (PRESENT OR WRITABLE) False })
            (kernel_start (snd s)) (kernel_end (snd s)) s;
       s \<leftarrow> page_loop (\<lambda>addr s. do {
              s \<leftarrow> map_page s pml4 addr addr (PRESENT OR WRITABLE OR NX) False;
              map_page s pml4 (addr + KERNEL_VIRTUAL_BASE) addr (PRESENT OR WRITABLE OR NX) False })
            (stack_base_addr memory_map AND NOT 0xFFF) (stack_base_addr memory_map + stack_size memory_map) s;
       s \<leftarrow> page_loop (\<lambda>addr s. map_page s pml4 addr addr (PRESENT OR WRITABLE) False)
            (framebuffer_addr framebuffer_info AND NOT 0xFFF) (framebuffer_addr framebuffer_info + framebuffer_bytes framebuffer_info) s;
       s \<leftarrow> page_loop (\<lambda>addr s. map_page s pml4 addr addr (PRESENT OR WRITABLE) False)
            (memory_map_addr memory_map AND NOT 0xFFF) (memory_map_addr memory_map + memory_map_size memory_map) s;
       Some (pml4, s)
     })"

definition direct_map_region :: "EfiMemoryType \<Rightarrow> bool" where
  "direct_map_region ty \<longleftrightarrow> ty \<in> {EfiConventionalMemory, EfiLoaderCode, EfiLoaderData, EfiBootServicesCode,
     EfiBootServicesData, EfiRuntimeServicesCode, EfiRuntimeServicesData, EfiACPIReclaimMemory, EfiACPIMemoryNVS}"

definition direct_map_flags :: "EfiMemoryType \<Rightarrow> u64" where
  "direct_map_flags ty = (if ty = EfiRuntimeServicesCode then PRESENT OR WRITABLE else PRESENT OR WRITABLE OR NX)"

definition map_mmio :: "u64 \<Rightarrow> u64 \<Rightarrow> u64 \<Rightarrow> vm \<Rightarrow> vm option" where
  "map_mmio pml4 phys_base sz s = page_loop (\<lambda>phys s.
     map_page s pml4 (KERNEL_PHYSICAL_MAP_BASE + phys) phys (PRESENT OR WRITABLE OR PWT OR PCD) False) phys_base (phys_base + sz) s"

definition build_direct_map :: "vm \<Rightarrow> u64 \<Rightarrow> MemoryMapInfo \<Rightarrow> vm option" where
  "build_direct_map s pml4 memory_map = do {
     n \<leftarrow> num_segments memory_map;
     s \<leftarrow> for_descriptors (\<lambda>d s. if \<not> direct_map_region (region_type d) then Some s else
            for_pages (\<lambda>i s. let phys = page_at d i in
              map_page s pml4 (KERNEL_PHYSICAL_MAP_BASE + phys) phys (direct_map_flags (region_type d)) False) (page_numbers d) s)
          n (memory_map_addr memory_map) (descriptor_size memory_map) s;
     s \<leftarrow> map_mmio pml4 0xFEE00000 0x1000 s;
     s \<leftarrow> map_mmio pml4 0xFEC00000 0x1000 s;
     map_page s pml4 (KERNEL_PHYSICAL_MAP_BASE + 0xFED00000) 0xFED00000 (PRESENT OR WRITABLE OR PWT OR PCD) False
   }"

text \<open>The framebuffer cursor moves with the virtual one, so the virtual address is a function of it.\<close>

definition map_framebuffer_higher_half :: "vm \<Rightarrow> u64 \<Rightarrow> FramebufferInfo \<Rightarrow> vm option" where
  "map_framebuffer_higher_half s pml4 framebuffer_info =
     (let fb_phys_start = framebuffer_addr framebuffer_info AND NOT 0xFFF;
          fb_phys_end = (framebuffer_addr framebuffer_info + framebuffer_bytes framebuffer_info + 0xFFF) AND NOT 0xFFF
      in page_loop (\<lambda>phys s. map_page s pml4 (KERNEL_FRAMEBUFFER_VIRTUAL_BASE + (phys - fb_phys_start)) phys (PRESENT OR WRITABLE) False)
           fb_phys_start fb_phys_end s)"

definition remove_identity_maps :: "memory \<Rightarrow> u64 \<Rightarrow> memory" where
  "remove_identity_maps m pml4_phys =
     (let pml4_virt = pml4_phys + KERNEL_PHYSICAL_MAP_BASE in
      fold (\<lambda>i m. write_u64 m (phys_of (pml4_virt + 8 * of_nat i)) 0) [0..<256] m)"

definition reclaimable :: "EfiMemoryType \<Rightarrow> bool" where
  "reclaimable ty \<longleftrightarrow> ty \<in> {EfiLoaderCode, EfiLoaderData, EfiBootServicesCode, EfiBootServicesData}"

definition reclaim_page :: "MemoryMapInfo \<Rightarrow> EfiMemoryDescriptor \<Rightarrow> u64 \<Rightarrow> vm \<Rightarrow> vm option" where
  "reclaim_page mm d i s = (let pmm = snd s; page_start = page_at d i; page_end = page_start + PAGE_SIZE - 1 in
     if page_start = 0 then Some s
     else if page_overlaps page_start page_end (memory_map_addr mm) (memory_map_addr mm + memory_map_size mm) then Some s
     else if page_overlaps page_start page_end (kernel_start pmm) (kernel_end pmm) then Some s
     else if page_overlaps page_start page_end (kernel_stack_base_addr pmm) (kernel_stack_base_addr pmm + kernel_stack_size pmm) then Some s
     else Some (free_page s page_start))"

definition reclaim_boot_memory :: "vm \<Rightarrow> MemoryMapInfo \<Rightarrow> vm option" where
  "reclaim_boot_memory s memory_map = do {
     n \<leftarrow> num_segments memory_map;
     for_descriptors (\<lambda>d s. if \<not> reclaimable (region_type d) then Some s else for_pages (reclaim_page memory_map d) (page_numbers d) s)
       n (memory_map_addr memory_map + KERNEL_PHYSICAL_MAP_BASE) (descriptor_size memory_map) s
   }"

end
