(* ===== verification/Page_Tables.thy ===== *)
theory Page_Tables
  imports Vmm "HOL-Library.Sublist"
begin

text \<open>
  The page tables as a tree of frames: the walk along a list of indices, the
  invariant that distinct paths reach distinct frames none of which is free, and the
  mapping from virtual pages to leaf entries that mapping and unmapping change in
  one point.
\<close>

section \<open>Pointers and entries\<close>

text \<open>A pointer to a frame, through the identity map or the direct map.\<close>

definition points_to :: "u64 \<Rightarrow> u64 \<Rightarrow> bool" where
  "points_to v t \<longleftrightarrow> frame_ok t \<and> (v = t \<or> v = t + KERNEL_PHYSICAL_MAP_BASE)"

lemma points_to_virt: "frame_ok t \<Longrightarrow> points_to (pmm_virt pmm t) t"
  by (simp add: points_to_def pmm_virt_def)

lemma phys_of_entry:
  assumes "points_to v t" "unat i < 512"
  shows "phys_of (v + 8 * i) = t + 8 * i"
proof -
  have t: "frame_ok t" using assms(1) by (simp add: points_to_def)
  have u: "unat (t + 8 * i) = unat t + 8 * unat i" by (rule unat_entry [OF t assms(2)])
  then have lt: "unat (t + 8 * i) < 2 ^ 47" using frame_ok_nat [OF t] assms(2) by linarith
  then have "unat (t + 8 * i + KERNEL_PHYSICAL_MAP_BASE) = unat (t + 8 * i) + unat KERNEL_PHYSICAL_MAP_BASE"
    by (subst unat_add_lem [THEN iffD1]) (simp_all add: KERNEL_PHYSICAL_MAP_BASE_def)
  then have "\<not> t + 8 * i + KERNEL_PHYSICAL_MAP_BASE < KERNEL_PHYSICAL_MAP_BASE" by (simp add: word_less_nat_alt)
  moreover have "t + 8 * i < KERNEL_PHYSICAL_MAP_BASE" using lt by (simp add: word_less_nat_alt KERNEL_PHYSICAL_MAP_BASE_def)
  ultimately show ?thesis using assms(1) by (auto simp: points_to_def phys_of_def ac_simps)
qed

definition ent :: "memory \<Rightarrow> u64 \<Rightarrow> u64 \<Rightarrow> u64" where
  "ent m t i = read_u64 m (t + 8 * i)"

lemma entry_ent: "points_to v t \<Longrightarrow> unat i < 512 \<Longrightarrow> entry m v i = ent m t i"
  by (simp add: entry_def ent_def phys_of_entry)

lemma set_entry_write: "points_to v t \<Longrightarrow> unat i < 512 \<Longrightarrow> set_entry m v i w = write_u64 m (t + 8 * i) w"
  by (simp add: set_entry_def phys_of_entry)

lemma ent_write:
  assumes "frame_ok s" "frame_ok t" "unat i < 512" "unat j < 512"
  shows "ent (write_u64 m (s + 8 * i) v) t j = (if t = s \<and> j = i then v else ent m t j)"
  using entry_disj8 [OF assms] by (auto simp: ent_def read_write_other)

lemma zero_out_entries:
  assumes "points_to v t" "n \<le> 512"
  shows "\<forall>u j. frame_ok u \<longrightarrow> unat j < 512 \<longrightarrow>
    ent (fold (\<lambda>i m. write_u64 m (phys_of (v + 8 * of_nat i)) 0) [0..<n] m) u j = (if u = t \<and> unat j < n then 0 else ent m u j)"
  using assms(2)
proof (induction n)
  case 0
  then show ?case by simp
next
  case (Suc n)
  have t: "frame_ok t" using assms(1) by (simp add: points_to_def)
  have n: "unat (of_nat n :: u64) = n" using Suc.prems by (simp add: unat_of_nat)
  have p: "phys_of (v + 8 * of_nat n) = t + 8 * of_nat n" using phys_of_entry [OF assms(1)] n Suc.prems by simp
  have "j = of_nat n \<longleftrightarrow> unat j = n" for j :: u64 using n by (metis unsigned_word_eqI)
  then show ?case using Suc ent_write [OF t, of _ "of_nat n"] n p by (auto simp: less_Suc_eq)
qed

lemma zero_out_page_ent:
  assumes "points_to v t" "frame_ok u" "unat j < 512"
  shows "ent (zero_out_page m v) u j = (if u = t then 0 else ent m u j)"
  using zero_out_entries [OF assms(1), of 512 m] assms(2,3) by (simp add: zero_out_page_def)

text \<open>The first cell of a frame is where the free list threads through it.\<close>

lemma ent_zero: "ent m t 0 = read_u64 m t"
  by (simp add: ent_def)

lemma ent_free_page:
  assumes "frame_ok t" "frame_ok u" "unat j < 512" "t \<noteq> u"
  shows "ent (fst (free_page s t)) u j = ent (fst s) u j"
proof -
  have "disj8 t (u + 8 * j)" using entry_disj8 [OF assms(1,2) _ assms(3), of 0] assms(4) by simp
  then show ?thesis
    using assms(1) by (cases s) (simp add: free_page_def phys_of_virt ent_def read_write_other)
qed

section \<open>The tree\<close>

definition child :: "memory \<Rightarrow> u64 \<Rightarrow> u64 \<Rightarrow> u64 option" where
  "child m t i = (if ent m t i AND PRESENT = 0 then None else Some (ent m t i AND NOT 0xFFF))"

fun tbl :: "memory \<Rightarrow> u64 \<Rightarrow> u64 list \<Rightarrow> u64 option" where
  "tbl m r [] = Some r"
| "tbl m r (i # p) = (case child m r i of None \<Rightarrow> None | Some t \<Rightarrow> tbl m t p)"

definition path_ok :: "u64 list \<Rightarrow> bool" where
  "path_ok p \<longleftrightarrow> length p \<le> 3 \<and> (\<forall>i\<in>set p. unat i < 512)"

definition tree :: "memory \<Rightarrow> u64 \<Rightarrow> bool" where
  "tree m r \<longleftrightarrow> (\<forall>p t. path_ok p \<longrightarrow> tbl m r p = Some t \<longrightarrow> frame_ok t) \<and>
     (\<forall>p q t. path_ok p \<longrightarrow> path_ok q \<longrightarrow> tbl m r p = Some t \<longrightarrow> tbl m r q = Some t \<longrightarrow> p = q)"

definition vm_ok :: "vm \<Rightarrow> u64 \<Rightarrow> u64 list \<Rightarrow> bool" where
  "vm_ok s r xs \<longleftrightarrow> pmm_invar s xs \<and> tree (fst s) r \<and> (\<forall>p t. path_ok p \<longrightarrow> tbl (fst s) r p = Some t \<longrightarrow> t \<notin> set xs)"

text \<open>The leaf entry under a path of three indices.\<close>

definition leaf :: "memory \<Rightarrow> u64 \<Rightarrow> u64 list \<Rightarrow> u64 \<Rightarrow> u64 option" where
  "leaf m r p i = (case tbl m r p of None \<Rightarrow> None | Some t \<Rightarrow> if ent m t i AND PRESENT = 0 then None else Some (ent m t i))"

lemma tbl_append: "tbl m r (p @ q) = (case tbl m r p of None \<Rightarrow> None | Some t \<Rightarrow> tbl m t q)"
  by (induction p arbitrary: r) (auto split: option.split)

lemma path_ok_snoc: "path_ok (p @ [i]) \<longleftrightarrow> length p \<le> 2 \<and> path_ok p \<and> unat i < 512"
  by (auto simp: path_ok_def)

lemma path_ok_prefix: "path_ok q \<Longrightarrow> prefix p q \<Longrightarrow> path_ok p"
  by (auto simp: path_ok_def prefix_def)

lemma tree_frame: "tree m r \<Longrightarrow> path_ok p \<Longrightarrow> tbl m r p = Some t \<Longrightarrow> frame_ok t"
  by (simp add: tree_def)

lemma tree_inj: "tree m r \<Longrightarrow> path_ok p \<Longrightarrow> path_ok q \<Longrightarrow> tbl m r p = Some t \<Longrightarrow> tbl m r q = Some t \<Longrightarrow> p = q"
  unfolding tree_def by blast

text \<open>
  Changing one entry of one table, and anything below it, leaves every other walk
  as it was.
\<close>

lemma tbl_update:
  assumes "tree m r" "path_ok p" "tbl m r p = Some t"
    and same: "\<And>q u j. path_ok q \<Longrightarrow> \<not> prefix (p @ [i]) q \<Longrightarrow> tbl m r q = Some u \<Longrightarrow> unat j < 512 \<Longrightarrow>
      u \<noteq> t \<or> j \<noteq> i \<Longrightarrow> ent m' u j = ent m u j"
    and "path_ok q" "\<not> prefix (p @ [i]) q"
  shows "tbl m' r q = tbl m r q"
  using assms(5,6)
proof (induction q rule: rev_induct)
  case Nil
  then show ?case by simp
next
  case (snoc j q)
  have q: "path_ok q" "unat j < 512" using snoc.prems(1) by (auto simp: path_ok_snoc)
  have np: "\<not> prefix (p @ [i]) q" using snoc.prems(2) by (meson prefix_order.trans prefixI)
  have eq: "tbl m' r q = tbl m r q" by (rule snoc.IH [OF q(1) np])
  have "child m' u j = child m u j" if u: "tbl m r q = Some u" for u
  proof -
    have "u \<noteq> t \<or> j \<noteq> i"
      using tree_inj [OF assms(1) q(1) assms(2) u] assms(3) snoc.prems(2) by auto
    then show ?thesis using same [OF q(1) np u q(2)] by (simp add: child_def)
  qed
  then show ?case using eq by (auto simp: tbl_append split: option.split)
qed

lemma tbl_snoc: "tbl m r p = Some t \<Longrightarrow> tbl m r (p @ [i]) = child m t i"
  by (simp add: tbl_append split: option.split)

lemma tbl_None_prefix: "tbl m r p = None \<Longrightarrow> prefix p q \<Longrightarrow> tbl m r q = None"
  by (auto simp: prefix_def tbl_append)

section \<open>Creating a table\<close>

definition table_flags :: "u64 \<Rightarrow> bool" where
  "table_flags fl \<longleftrightarrow> fl AND NOT 0xFFF = 0 \<and> fl AND PRESENT \<noteq> 0"

lemma table_flags_used: "table_flags (PRESENT OR WRITABLE OR USER)" "table_flags (PRESENT OR WRITABLE)"
  by (simp_all add: table_flags_def PRESENT_def WRITABLE_def USER_def)

lemma frame_mask: "frame_ok x \<Longrightarrow> x AND NOT 0xFFF = x"
  using unat_and_not_4095 [of x] frame_ok_nat [of x] by (intro unsigned_word_eqI) simp

lemma table_entry:
  assumes "frame_ok x" "table_flags fl"
  shows "(x OR fl) AND NOT 0xFFF = x" "(x OR fl) AND PRESENT \<noteq> 0"
  using assms frame_mask [of x] by (simp_all add: table_flags_def bit.conj_disj_distrib2 or_eq_0_iff)

lemma pmm_invar_cong:
  assumes "pmm_invar (m, pmm) xs" "\<And>x. x \<in> set xs \<Longrightarrow> ent m' x 0 = ent m x 0"
  shows "pmm_invar (m', pmm) xs"
  using assms by (auto simp: pmm_invar_def ent_zero intro: free_chain_cong)

text \<open>Attaching a zeroed frame x at index i of the table a path reaches.\<close>

lemma attach_table:
  assumes tree: "tree m r" and p: "path_ok (p @ [i])" "tbl m r p = Some t" "child m t i = None"
    and x: "frame_ok x" "\<forall>q. path_ok q \<longrightarrow> tbl m r q \<noteq> Some x" and fl: "table_flags fl"
    and zero: "\<forall>j. unat j < 512 \<longrightarrow> ent m' x j = 0"
    and same: "\<forall>u j. frame_ok u \<longrightarrow> u \<noteq> x \<longrightarrow> unat j < 512 \<longrightarrow> ent m' u j = (if u = t \<and> j = i then x OR fl else ent m u j)"
  shows "tbl m' r (p @ [i]) = Some x" "tree m' r"
    and "path_ok q \<Longrightarrow> tbl m' r q = (if prefix (p @ [i]) q then (if q = p @ [i] then Some x else None) else tbl m r q)"
proof -
  have pp: "path_ok p" "unat i < 512" using p(1) by (auto simp: path_ok_snoc)
  have t: "frame_ok t" "t \<noteq> x" using tree_frame [OF tree pp(1) p(2)] x(2) pp(1) p(2) by auto
  have other: "tbl m' r q = tbl m r q" if "path_ok q" "\<not> prefix (p @ [i]) q" for q
  proof (rule tbl_update [OF tree pp(1) p(2) _ that])
    fix q u j assume q: "path_ok q" "tbl m r q = Some u" "unat j < 512" "u \<noteq> t \<or> j \<noteq> i"
    then have "u \<noteq> x" using x(2) by auto
    then show "ent m' u j = ent m u j" using same tree_frame [OF tree q(1,2)] q(3,4) by auto
  qed
  have "\<not> prefix (p @ [i]) p" by (auto dest: prefix_length_le)
  then have tp: "tbl m' r p = Some t" using other [OF pp(1)] p(2) by simp
  show new: "tbl m' r (p @ [i]) = Some x"
    using tbl_snoc [OF tp] same t pp(2) table_entry [OF x(1) fl] by (simp add: child_def)
  have below: "tbl m' r q = None" if a: "path_ok q" "prefix (p @ [i]) q" "q \<noteq> p @ [i]" for q
  proof -
    obtain j q' where q: "q = (p @ [i]) @ j # q'" using a(2,3) by (metis append_Nil2 neq_Nil_conv prefixE)
    then have "unat j < 512" using a(1) by (simp add: path_ok_def)
    then show ?thesis using new zero q by (subst q, subst tbl_append) (simp add: child_def)
  qed
  show all: "tbl m' r q = (if prefix (p @ [i]) q then (if q = p @ [i] then Some x else None) else tbl m r q)"
    if "path_ok q" for q using that new below other by auto
  have cases: "(u = x \<and> q = p @ [i]) \<or> tbl m r q = Some u" if "path_ok q" "tbl m' r q = Some u" for q u
    using that all [OF that(1)] by (auto split: if_splits)
  show "tree m' r" unfolding tree_def
  proof (intro conjI allI impI)
    fix q u assume "path_ok q" "tbl m' r q = Some u"
    then show "frame_ok u" using cases x(1) tree_frame [OF tree] by blast
  next
    fix q q' u assume "path_ok q" "path_ok q'" "tbl m' r q = Some u" "tbl m' r q' = Some u"
    then show "q = q'" using cases [of q u] cases [of q' u] x(2) tree_inj [OF tree, of q q' u] by auto
  qed
qed

text \<open>
  The effect of a walk that may create tables along a path P: at most k frames leave
  the free list, no frame outside the tables on the path and the free list changes,
  and no leaf entry changes.
\<close>

definition touched :: "memory \<Rightarrow> u64 \<Rightarrow> u64 list \<Rightarrow> u64 list \<Rightarrow> u64 set" where
  "touched m r P xs = set xs \<union> {u. \<exists>q. prefix q P \<and> tbl m r q = Some u}"

definition grows :: "nat \<Rightarrow> u64 \<Rightarrow> u64 list \<Rightarrow> vm \<Rightarrow> u64 list \<Rightarrow> vm \<Rightarrow> u64 list \<Rightarrow> bool" where
  "grows k r P s xs s' ys \<longleftrightarrow> vm_ok s' r ys \<and> (\<exists>n\<le>k. ys = drop n xs) \<and>
     (\<forall>q u. path_ok q \<longrightarrow> tbl (fst s') r q = Some u \<longrightarrow> u \<in> set xs \<or> tbl (fst s) r q = Some u) \<and>
     (\<forall>u j. frame_ok u \<longrightarrow> u \<notin> touched (fst s) r P xs \<longrightarrow> unat j < 512 \<longrightarrow> ent (fst s') u j = ent (fst s) u j) \<and>
     (\<forall>q j. path_ok q \<longrightarrow> length q = 3 \<longrightarrow> unat j < 512 \<longrightarrow> leaf (fst s') r q j = leaf (fst s) r q j)"

lemma grows_refl: "vm_ok s r xs \<Longrightarrow> grows k r P s xs s xs"
  by (auto simp: grows_def intro: exI [of _ 0])

lemma grows_touched:
  assumes "grows k r P s xs s' ys" "path_ok P"
  shows "touched (fst s') r P ys \<subseteq> touched (fst s) r P xs"
proof -
  have "set ys \<subseteq> set xs" using assms(1) by (auto simp: grows_def dest: in_set_dropD)
  moreover have "u \<in> set xs \<or> tbl (fst s) r q = Some u" if "prefix q P" "tbl (fst s') r q = Some u" for q u
    using assms(1) that path_ok_prefix [OF assms(2)] by (simp add: grows_def)
  ultimately show ?thesis by (auto simp: touched_def)
qed

lemma grows_trans:
  assumes "grows k r P s xs s1 ys" "grows l r P s1 ys s2 zs" and P: "path_ok P"
  shows "grows (k + l) r P s xs s2 zs"
proof -
  obtain n where n: "n \<le> k" "ys = drop n xs" using assms(1) by (auto simp: grows_def)
  obtain n' where n': "n' \<le> l" "zs = drop n' ys" using assms(2) by (auto simp: grows_def)
  have "\<exists>n\<le>k + l. zs = drop n xs" using n n' by (intro exI [of _ "n' + n"]) simp
  moreover have sub: "touched (fst s1) r P ys \<subseteq> touched (fst s) r P xs" by (rule grows_touched [OF assms(1) P])
  moreover have "u \<in> set xs \<or> tbl (fst s) r q = Some u" if "path_ok q" "tbl (fst s2) r q = Some u" for q u
  proof -
    have "u \<in> set ys \<or> tbl (fst s1) r q = Some u" using assms(2) that by (simp add: grows_def)
    then show ?thesis using assms(1) that(1) n(2) by (auto simp: grows_def dest: in_set_dropD)
  qed
  moreover have "ent (fst s2) u j = ent (fst s) u j" if "frame_ok u" "u \<notin> touched (fst s) r P xs" "unat j < 512" for u j
  proof -
    have "u \<notin> touched (fst s1) r P ys" using that(2) sub by blast
    then show ?thesis using that assms by (simp add: grows_def)
  qed
  moreover have "leaf (fst s2) r q j = leaf (fst s) r q j" if "path_ok q" "length q = 3" "unat j < 512" for q j
    using that assms by (simp add: grows_def)
  moreover have "vm_ok s2 r zs" using assms(2) by (simp add: grows_def)
  ultimately show ?thesis unfolding grows_def by (intro conjI) (assumption | blast)+
qed

lemma alloc_page_mem: "alloc_page s = (Some x, s') \<Longrightarrow> fst s' = fst s \<and> is_higher_half (snd s') = is_higher_half (snd s)"
  by (auto simp: alloc_page_def Let_def split: prod.splits option.splits)

lemma create_table_grows:
  assumes ok: "vm_ok s r (x # ys)" and p: "path_ok (p @ [i])" "tbl (fst s) r p = Some t" "points_to v t"
    and none: "child (fst s) t i = None" and fl: "table_flags fl" and P: "prefix (p @ [i]) P" "path_ok P"
  shows "\<exists>s'. get_or_create_table s v i fl = Some (pmm_virt (snd s') x, s') \<and> grows 1 r P s (x # ys) s' ys \<and>
    tbl (fst s') r (p @ [i]) = Some x"
proof -
  have inv: "pmm_invar s (x # ys)" and tree: "tree (fst s) r"
    and out: "\<And>q u. path_ok q \<Longrightarrow> tbl (fst s) r q = Some u \<Longrightarrow> u \<notin> set (x # ys)" using ok by (auto simp: vm_ok_def)
  have x: "frame_ok x" "x \<notin> set ys" using pmm_pages.frames [OF inv] by auto
  obtain m pmm where al: "alloc_page s = (Some x, m, pmm)" "pmm_invar (m, pmm) ys"
    using pmm_pages.alloc_cons [OF inv] by (metis surj_pair)
  have m: "m = fst s" using alloc_page_mem [OF al(1)] by simp
  have pp: "path_ok p" "unat i < 512" using p(1) by (auto simp: path_ok_snoc)
  have t: "frame_ok t" using p(3) by (simp add: points_to_def)
  have tx: "t \<noteq> x" using out [OF pp(1) p(2)] by auto
  define m' where "m' = set_entry (zero_out_page m (pmm_virt pmm x)) v i (x OR fl)"
  have e: "ent m' u j = (if u = t \<and> j = i then x OR fl else if u = x then 0 else ent m u j)"
    if "frame_ok u" "unat j < 512" for u j
    unfolding m'_def set_entry_write [OF p(3) pp(2)] ent_write [OF t that(1) pp(2) that(2)]
      zero_out_page_ent [OF points_to_virt [OF x(1)] that] by (rule refl)
  have go: "get_or_create_table s v i fl = Some (pmm_virt pmm x, m', pmm)"
    using al(1) none entry_ent [OF p(3) pp(2), of "fst s"] entry_ent [OF p(3) pp(2), of m'] e [OF t pp(2)] table_entry(1) [OF x(1) fl] m
    by (simp add: get_or_create_table_def child_def m'_def split: if_splits)
  have nx: "\<forall>q. path_ok q \<longrightarrow> tbl (fst s) r q \<noteq> Some x" using out by auto
  have z: "\<forall>j. unat j < 512 \<longrightarrow> ent m' x j = 0" using e [OF x(1)] tx by simp
  have sm: "\<forall>u j. frame_ok u \<longrightarrow> u \<noteq> x \<longrightarrow> unat j < 512 \<longrightarrow> ent m' u j = (if u = t \<and> j = i then x OR fl else ent (fst s) u j)"
    using e m by simp
  note at = attach_table(1,2) [OF tree p(1,2) none x(1) nx fl z sm] and all = attach_table(3) [OF tree p(1,2) none x(1) nx fl z sm]
  have yt: "y \<noteq> t" "y \<noteq> x" "frame_ok y" if "y \<in> set ys" for y
    using that out [OF pp(1) p(2)] x(2) pmm_pages.frames [OF inv] by auto
  have inv': "pmm_invar (m', pmm) ys" by (rule pmm_invar_cong [OF al(2)]) (simp add: e yt)
  have "vm_ok (m', pmm) r ys"
    using inv' at(2) all out x(2) by (auto simp: vm_ok_def split: if_splits)
  moreover have "u \<in> set (x # ys) \<or> tbl (fst s) r q = Some u" if "path_ok q" "tbl m' r q = Some u" for q u
    using all [OF that(1)] that(2) by (auto split: if_splits)
  moreover have "ent m' u j = ent (fst s) u j"
    if "frame_ok u" "u \<notin> touched (fst s) r P (x # ys)" "unat j < 512" for u j
  proof -
    have "u \<noteq> t" "u \<noteq> x" using that(2) p(2) append_prefixD [OF P(1)] by (auto simp: touched_def)
    then show ?thesis using e [OF that(1,3)] m by simp
  qed
  moreover have "leaf m' r q j = leaf (fst s) r q j" if q: "path_ok q" "length q = 3" "unat j < 512" for q j
  proof (cases "prefix (p @ [i]) q")
    case True
    have "tbl (fst s) r q = None" using tbl_None_prefix [OF _ True] tbl_snoc [OF p(2)] none by simp
    then show ?thesis using all [OF q(1)] True e [OF x(1) q(3)] tx by (simp add: leaf_def)
  next
    case False
    have "ent m' u j = ent (fst s) u j" if u: "tbl (fst s) r q = Some u" for u
    proof -
      have "u \<noteq> t" using tree_inj [OF tree q(1) pp(1) u] p(1,2) q(2) by (auto simp: path_ok_snoc)
      moreover have "u \<noteq> x" using out [OF q(1) u] by auto
      ultimately show ?thesis using e [OF tree_frame [OF tree q(1) u] q(3)] m by simp
    qed
    then show ?thesis using all [OF q(1)] False by (simp add: leaf_def split: option.split)
  qed
  ultimately have "grows 1 r P s (x # ys) (m', pmm) ys"
    unfolding grows_def by (auto intro: exI [of _ 1])
  then show ?thesis using go at(1) by (intro exI [of _ "(m', pmm)"]) simp
qed

lemma get_or_create_ok:
  assumes ok: "vm_ok s r xs" and p: "path_ok (p @ [i])" "tbl (fst s) r p = Some t" "points_to v t"
    and fl: "table_flags fl" and P: "prefix (p @ [i]) P" "path_ok P" and ne: "xs \<noteq> []"
  shows "\<exists>t' s' ys. get_or_create_table s v i fl = Some (pmm_virt (snd s') t', s') \<and> grows 1 r P s xs s' ys \<and>
    tbl (fst s') r (p @ [i]) = Some t'"
proof (cases "child (fst s) t i")
  case None
  then show ?thesis using create_table_grows [OF _ p None fl P, of "hd xs" "tl xs"] ok ne by auto
next
  case (Some t')
  have "unat i < 512" using p(1) by (simp add: path_ok_snoc)
  then have "get_or_create_table s v i fl = Some (pmm_virt (snd s) t', s)"
    using Some entry_ent [OF p(3)] by (auto simp: get_or_create_table_def child_def split: if_splits)
  moreover have "tbl (fst s) r (p @ [i]) = Some t'" using tbl_snoc [OF p(2)] Some by simp
  ultimately show ?thesis using grows_refl [OF ok] by blast
qed

section \<open>Mapping a page\<close>

definition va_path :: "u64 \<Rightarrow> u64 list" where
  "va_path va = [pml4_index va, pdpt_index va, pd_index va]"

text \<open>The mapping a page table root establishes: the leaf entry of a virtual address.\<close>

definition vmap :: "memory \<Rightarrow> u64 \<Rightarrow> u64 \<Rightarrow> u64 option" where
  "vmap m r va = leaf m r (va_path va) (pt_index va)"

lemma index_bound: "unat ((x :: u64) AND 0x1FF) < 512"
  using unat_and_mask [of x 9] by (simp add: mask_eq_exp_minus_1)

lemma index_bounds [simp]:
  "unat (pml4_index va) < 512" "unat (pdpt_index va) < 512" "unat (pd_index va) < 512" "unat (pt_index va) < 512"
  by (simp_all add: pml4_index_def pdpt_index_def pd_index_def pt_index_def index_bound)

lemma va_path_ok [simp]: "path_ok (va_path va)" "length (va_path va) = 3"
  by (simp_all add: path_ok_def va_path_def)

lemma write_leaf:
  assumes ok: "vm_ok (m, pmm) r xs" and p: "path_ok p" "length p = 3" "tbl m r p = Some t" "unat i < 512"
    and m'_def: "m' = write_u64 m (t + 8 * i) v"
  shows "vm_ok (m', pmm) r xs"
    and "path_ok q \<Longrightarrow> length q = 3 \<Longrightarrow> unat j < 512 \<Longrightarrow>
      leaf m' r q j = (if q = p \<and> j = i then (if v AND PRESENT = 0 then None else Some v) else leaf m r q j)"
    and "frame_ok u \<Longrightarrow> u \<noteq> t \<Longrightarrow> unat j < 512 \<Longrightarrow> ent m' u j = ent m u j"
    and "path_ok q \<Longrightarrow> tbl m' r q = tbl m r q"
proof -
  have tree: "tree m r" and inv: "pmm_invar (m, pmm) xs"
    and out: "\<And>q u. path_ok q \<Longrightarrow> tbl m r q = Some u \<Longrightarrow> u \<notin> set xs" using ok by (auto simp: vm_ok_def)
  have t: "frame_ok t" by (rule tree_frame [OF tree p(1,3)])
  have e: "ent m' u j = (if u = t \<and> j = i then v else ent m u j)" if "frame_ok u" "unat j < 512" for u j
    unfolding m'_def by (rule ent_write [OF t that(1) p(4) that(2)])
  show tb: "tbl m' r q = tbl m r q" if q: "path_ok q" for q
  proof (rule tbl_update [OF tree p(1,3)])
    fix q u j assume a: "path_ok q" "tbl m r q = Some u" "unat j < 512" "u \<noteq> t \<or> j \<noteq> i"
    then show "ent m' u j = ent m u j" using e [OF tree_frame [OF tree a(1,2)] a(3)] by auto
  next
    show "\<not> prefix (p @ [i]) q" using q p(2) by (auto simp: path_ok_def dest!: prefix_length_le)
  qed (rule q)
  have "tree m' r" using tree tb unfolding tree_def by simp
  moreover have "pmm_invar (m', pmm) xs"
    using pmm_invar_write [OF inv t _ p(4)] out [OF p(1,3)] by (simp add: m'_def)
  ultimately show "vm_ok (m', pmm) r xs" using tb out by (simp add: vm_ok_def)
  show "ent m' u j = ent m u j" if "frame_ok u" "u \<noteq> t" "unat j < 512" using e that by simp
  show "leaf m' r q j = (if q = p \<and> j = i then (if v AND PRESENT = 0 then None else Some v) else leaf m r q j)"
    if q: "path_ok q" "length q = 3" "unat j < 512"
  proof (cases "tbl m r q")
    case None
    then show ?thesis using tb [OF q(1)] p(3) by (auto simp: leaf_def)
  next
    case (Some u)
    have "u = t \<longleftrightarrow> q = p" using tree_inj [OF tree q(1) p(1) Some] p(3) Some by auto
    then show ?thesis using Some tb [OF q(1)] e [OF tree_frame [OF tree q(1) Some] q(3)]
      by (cases "q = p \<and> j = i") (auto simp: leaf_def)
  qed
qed

lemma pte_present: "((a :: u64) OR f OR PRESENT) AND PRESENT \<noteq> 0"
  by (simp add: bit.conj_disj_distrib2 or_eq_0_iff PRESENT_def)

text \<open>The three lookups of a mapping, which create the tables that are missing.\<close>

lemma create_path_ok:
  assumes ok: "vm_ok s r xs" and v: "points_to v r" and len: "3 \<le> length xs" and fl: "table_flags fl"
  shows "\<exists>pdpt s1 pd s2 t3 s3 x3. get_or_create_table s v (pml4_index va) fl = Some (pdpt, s1) \<and>
    get_or_create_table s1 pdpt (pdpt_index va) fl = Some (pd, s2) \<and>
    get_or_create_table s2 pd (pd_index va) fl = Some (pmm_virt (snd s3) t3, s3) \<and>
    grows 3 r (va_path va) s xs s3 x3 \<and> tbl (fst s3) r (va_path va) = Some t3"
proof -
  let ?P = "va_path va"
  have pre: "prefix ([] @ [pml4_index va]) ?P" "prefix ([pml4_index va] @ [pdpt_index va]) ?P"
    "prefix ([pml4_index va, pdpt_index va] @ [pd_index va]) ?P" "path_ok ?P" by (simp_all add: va_path_def path_ok_def)
  have po: "path_ok ([] @ [pml4_index va])" "path_ok ([pml4_index va] @ [pdpt_index va])"
    "path_ok ([pml4_index va, pdpt_index va] @ [pd_index va])" by (simp_all add: path_ok_def)
  obtain t1 s1 x1 where g1: "get_or_create_table s v (pml4_index va) fl = Some (pmm_virt (snd s1) t1, s1)"
      "grows 1 r ?P s xs s1 x1" "tbl (fst s1) r ([] @ [pml4_index va]) = Some t1"
    using get_or_create_ok [OF ok po(1) tbl.simps(1) v fl pre(1,4)] len by fastforce
  have k1: "vm_ok s1 r x1" "2 \<le> length x1" using g1(2) len by (auto simp: grows_def)
  have g1': "tbl (fst s1) r [pml4_index va] = Some t1" using g1(3) by simp
  have v1: "points_to (pmm_virt (snd s1) t1) t1"
    using k1(1) g1(3) po(1) by (intro points_to_virt) (auto simp: vm_ok_def intro: tree_frame)
  obtain t2 s2 x2 where g2: "get_or_create_table s1 (pmm_virt (snd s1) t1) (pdpt_index va) fl = Some (pmm_virt (snd s2) t2, s2)"
      "grows 1 r ?P s1 x1 s2 x2" "tbl (fst s2) r ([pml4_index va] @ [pdpt_index va]) = Some t2"
    using get_or_create_ok [OF k1(1) po(2) g1' v1 fl pre(2,4)] k1(2) by fastforce
  have g2': "tbl (fst s2) r [pml4_index va, pdpt_index va] = Some t2" using g2(3) by simp
  have k2: "vm_ok s2 r x2" "1 \<le> length x2" using g2(2) k1(2) by (auto simp: grows_def)
  have v2: "points_to (pmm_virt (snd s2) t2) t2"
    using k2(1) g2(3) po(2) by (intro points_to_virt) (auto simp: vm_ok_def intro: tree_frame)
  obtain t3 s3 x3 where g3: "get_or_create_table s2 (pmm_virt (snd s2) t2) (pd_index va) fl = Some (pmm_virt (snd s3) t3, s3)"
      "grows 1 r ?P s2 x2 s3 x3" "tbl (fst s3) r ?P = Some t3"
    using get_or_create_ok [OF k2(1) po(3) g2' v2 fl pre(3,4)] k2(2) by (fastforce simp: va_path_def)
  have "grows 3 r ?P s xs s3 x3" using grows_trans [OF grows_trans [OF g1(2) g2(2) pre(4)] g3(2) pre(4)] by (simp add: numeral_3_eq_3)
  then show ?thesis using g1(1) g2(1) g3(1,3) by blast
qed

lemma map_page_ok:
  assumes ok: "vm_ok s r xs" and v: "points_to v r" and len: "3 \<le> length xs"
  shows "\<exists>s' ys. map_page s v va pa flags u = Some s' \<and> vm_ok s' r ys \<and> (\<exists>n\<le>3. ys = drop n xs) \<and>
    (\<forall>q t. path_ok q \<longrightarrow> tbl (fst s') r q = Some t \<longrightarrow> t \<in> set xs \<or> tbl (fst s) r q = Some t) \<and>
    (\<forall>w j. frame_ok w \<longrightarrow> w \<notin> touched (fst s) r (va_path va) xs \<longrightarrow> unat j < 512 \<longrightarrow> ent (fst s') w j = ent (fst s) w j) \<and>
    (\<forall>q j. path_ok q \<longrightarrow> length q = 3 \<longrightarrow> unat j < 512 \<longrightarrow> leaf (fst s') r q j =
       (if q = va_path va \<and> j = pt_index va then Some ((pa AND NOT 0xFFF) OR flags OR PRESENT) else leaf (fst s) r q j))"
proof -
  let ?P = "va_path va"
  define fl where "fl = (if u then PRESENT OR WRITABLE OR USER else PRESENT OR WRITABLE)"
  have fl: "table_flags fl" by (simp add: fl_def table_flags_used)
  obtain pdpt s1 pd s2 t3 s3 x3 where w3: "get_or_create_table s v (pml4_index va) fl = Some (pdpt, s1)"
      "get_or_create_table s1 pdpt (pdpt_index va) fl = Some (pd, s2)"
      "get_or_create_table s2 pd (pd_index va) fl = Some (pmm_virt (snd s3) t3, s3)"
      and g: "grows 3 r ?P s xs s3 x3" and t: "tbl (fst s3) r ?P = Some t3"
    using create_path_ok [OF ok v len fl] by blast
  have k3: "vm_ok (fst s3, snd s3) r x3" using g by (simp add: grows_def)
  have t3: "frame_ok t3" using tree_frame [OF _ va_path_ok(1) t] k3 by (simp add: vm_ok_def)
  define e where "e = (pa AND NOT 0xFFF) OR flags OR PRESENT"
  note w = write_leaf [where v = e, OF k3 va_path_ok t index_bounds(4) [of va] refl]
  let ?m = "write_u64 (fst s3) (t3 + 8 * pt_index va) e"
  have "map_page s v va pa flags u = Some (?m, snd s3)"
    using w3 set_entry_write [OF points_to_virt [OF t3]]
    by (simp add: map_page_def fl_def [symmetric] e_def va_path_def)
  moreover have "ent ?m y j = ent (fst s) y j" if "frame_ok y" "y \<notin> touched (fst s) r ?P xs" "unat j < 512" for y j
  proof -
    have "t3 \<in> touched (fst s) r ?P xs" using grows_touched [OF g va_path_ok(1)] t by (auto simp: touched_def)
    then have "y \<noteq> t3" using that(2) by auto
    then show ?thesis using w(3) [OF that(1) _ that(3)] g that by (simp add: grows_def)
  qed
  moreover have "leaf ?m r q j = (if q = ?P \<and> j = pt_index va then Some ((pa AND NOT 0xFFF) OR flags OR PRESENT) else leaf (fst s) r q j)"
    if "path_ok q" "length q = 3" "unat j < 512" for q j
    using w(2) [OF that] g that pte_present [of "pa AND NOT 0xFFF" flags] by (simp add: grows_def e_def)
  moreover have "y \<in> set xs \<or> tbl (fst s) r q = Some y" if "path_ok q" "tbl ?m r q = Some y" for q y
  proof -
    have "tbl (fst s3) r q = Some y" using w(4) [OF that(1)] that(2) by simp
    then show ?thesis using g that(1) by (simp add: grows_def)
  qed
  moreover have "\<exists>n\<le>3. x3 = drop n xs" using g by (simp add: grows_def)
  ultimately show ?thesis
    using w(1) by (intro exI [of _ "(?m, snd s3)"] exI [of _ x3] conjI) (assumption | simp)+
qed

end
