(* ===== verification/Page_Unmap.thy ===== *)
theory Page_Unmap
  imports Page_Tables
begin

text \<open>
  Unmapping a page: clearing the leaf entry, giving back the tables that became
  empty, and the properties of the pair of mapping and unmapping.
\<close>

section \<open>Detaching an empty table\<close>

lemma is_table_empty_iff:
  assumes "points_to v t"
  shows "is_table_empty m v \<longleftrightarrow> (\<forall>j. unat j < 512 \<longrightarrow> ent m t j AND PRESENT = 0)"
proof -
  have "is_table_empty m v \<longleftrightarrow> (\<forall>i<512. ent m t (of_nat i) AND PRESENT = 0)"
    using entry_ent [OF assms] by (auto simp: is_table_empty_def list_all_iff unat_of_nat)
  also have "\<dots> \<longleftrightarrow> (\<forall>j. unat j < 512 \<longrightarrow> ent m t j AND PRESENT = 0)"
  proof (intro iffI allI impI)
    fix j :: u64 assume a: "\<forall>i<512. ent m t (of_nat i) AND PRESENT = 0" "unat j < 512"
    then show "ent m t j AND PRESENT = 0" using spec [OF a(1), of "unat j"] by simp
  next
    fix i :: nat assume a: "\<forall>j. unat j < 512 \<longrightarrow> ent m t j AND PRESENT = 0" "i < 512"
    then show "ent m t (of_nat i) AND PRESENT = 0" using spec [OF a(1), of "of_nat i"] by (simp add: unat_of_nat)
  qed
  finally show ?thesis .
qed

lemma leaf_below_empty:
  assumes "tbl m r p = Some c" "\<forall>j. unat j < 512 \<longrightarrow> ent m c j AND PRESENT = 0" "prefix p q" "path_ok q" "unat j < 512"
  shows "leaf m r q j = None"
proof -
  obtain q' where q': "q = p @ q'" using assms(3) by (auto simp: prefix_def)
  show ?thesis
  proof (cases q')
    case Nil
    then show ?thesis using q' assms(1,2,5) by (simp add: leaf_def)
  next
    case (Cons k q'')
    then have "unat k < 512" using assms(4) q' by (simp add: path_ok_def)
    then have "tbl m r q = None" unfolding q' tbl_append [of m r p] assms(1) using Cons assms(2) by (simp add: child_def)
    then show ?thesis by (simp add: leaf_def)
  qed
qed

lemma detach_table:
  assumes ok: "vm_ok (m, pmm) r xs" and p: "path_ok (p @ [i])" "tbl m r p = Some t" "points_to v t" "child m t i = Some c"
    and empty: "\<forall>j. unat j < 512 \<longrightarrow> ent m c j AND PRESENT = 0"
    and s'_def: "s' = free_page (set_entry m v i 0, pmm) c"
  shows "vm_ok s' r (c # xs)"
    and "path_ok q \<Longrightarrow> tbl (fst s') r q = (if prefix (p @ [i]) q then None else tbl m r q)"
    and "path_ok q \<Longrightarrow> length q = 3 \<Longrightarrow> unat j < 512 \<Longrightarrow> leaf (fst s') r q j = leaf m r q j"
    and "snd s' = snd (free_page (m, pmm) c)"
proof -
  have tree: "tree m r" and inv: "pmm_invar (m, pmm) xs"
    and out: "\<And>q u. path_ok q \<Longrightarrow> tbl m r q = Some u \<Longrightarrow> u \<notin> set xs" using ok by (auto simp: vm_ok_def)
  have pp: "path_ok p" "unat i < 512" "length p \<le> 2" using p(1) by (auto simp: path_ok_snoc)
  have t: "frame_ok t" using p(3) by (simp add: points_to_def)
  have pc: "tbl m r (p @ [i]) = Some c" using tbl_snoc [OF p(2)] p(4) by simp
  have c: "frame_ok c" "c \<notin> set xs" using tree_frame [OF tree p(1) pc] out [OF p(1) pc] by auto
  have ct: "c \<noteq> t" using tree_inj [OF tree p(1) pp(1) pc] p(2) by auto
  have se: "set_entry m v i 0 = write_u64 m (t + 8 * i) 0" by (rule set_entry_write [OF p(3) pp(2)])
  have e: "ent (fst s') u j = (if u = t \<and> j = i then 0 else ent m u j)" if "frame_ok u" "u \<noteq> c" "unat j < 512" for u j
    using ent_free_page [OF c(1) that(1,3)] that(2) ent_write [OF t that(1) pp(2) that(3)] by (simp add: s'_def se)
  have uc: "u \<noteq> c" if "path_ok q" "\<not> prefix (p @ [i]) q" "tbl m r q = Some u" for q u
    using tree_inj [OF tree p(1) that(1) pc] that(2,3) by auto
  have other: "tbl (fst s') r q = tbl m r q" if q: "path_ok q" "\<not> prefix (p @ [i]) q" for q
  proof (rule tbl_update [OF tree pp(1) p(2) _ q])
    fix q u j assume a: "path_ok q" "\<not> prefix (p @ [i]) q" "tbl m r q = Some u" "unat j < 512" "u \<noteq> t \<or> j \<noteq> i"
    then show "ent (fst s') u j = ent m u j" using e [OF tree_frame [OF tree a(1,3)] uc [OF a(1,2,3)] a(4)] by auto
  qed
  have np: "\<not> prefix (p @ [i]) p" by (auto dest: prefix_length_le)
  have "tbl (fst s') r (p @ [i]) = None"
    using tbl_snoc [of "fst s'" r p t i] other [OF pp(1) np] p(2) e [OF t _ pp(2)] ct by (simp add: child_def)
  then show all: "tbl (fst s') r q = (if prefix (p @ [i]) q then None else tbl m r q)" if "path_ok q" for q
    using other [OF that] tbl_None_prefix by simp
  have "pmm_invar (set_entry m v i 0, pmm) xs"
    unfolding se using pmm_invar_write [OF inv t _ pp(2)] out [OF pp(1) p(2)] by simp
  then have "pmm_invar s' (c # xs)" using pmm_pages.free_frame c by (simp add: s'_def)
  moreover have "tree (fst s') r"
    unfolding tree_def using all tree_frame [OF tree] tree_inj [OF tree] by (auto split: if_splits)
  moreover have "u \<notin> set (c # xs)" if "path_ok q" "tbl (fst s') r q = Some u" for q u
    using all [OF that(1)] that uc out by (auto split: if_splits)
  ultimately show "vm_ok s' r (c # xs)" by (auto simp: vm_ok_def)
  show "snd s' = snd (free_page (m, pmm) c)" by (simp add: s'_def free_page_def)
  show "leaf (fst s') r q j = leaf m r q j" if q: "path_ok q" "length q = 3" "unat j < 512"
  proof (cases "prefix (p @ [i]) q")
    case True
    then have "leaf m r q j = None" using leaf_below_empty [OF pc empty _ q(1,3)] by simp
    then show ?thesis using all [OF q(1)] True by (simp add: leaf_def)
  next
    case False
    have "ent (fst s') u j = ent m u j" if u: "tbl m r q = Some u" for u
    proof -
      have "u \<noteq> t" using tree_inj [OF tree q(1) pp(1) u] p(2) q(2) pp(3) by auto
      then show ?thesis using e [OF tree_frame [OF tree q(1) u] uc [OF q(1) False u] q(3)] by simp
    qed
    then show ?thesis using all [OF q(1)] False by (simp add: leaf_def split: option.split)
  qed
qed

section \<open>Unmapping a page\<close>

lemma next_table_points: "child m t i = Some c \<Longrightarrow> frame_ok c \<Longrightarrow> points_to (next_table (ent m t i)) c"
  by (auto simp: child_def points_to_def next_table_def split: if_splits)

text \<open>One step of the reclamation: an empty table leaves the tree and joins the free list.\<close>

lemma reclaim_step:
  assumes ok: "vm_ok s r xs" and p: "path_ok (p @ [i])" "tbl (fst s) r p = Some t" "points_to v t"
    and c: "tbl (fst s) r (p @ [i]) = Some c" "points_to w c" "is_table_empty (fst s) w"
    and s'_def: "s' = free_page (set_entry (fst s) v i 0, snd s) (entry (fst s) v i AND NOT 0xFFF)"
  shows "vm_ok s' r (c # xs)" "prefix q p \<Longrightarrow> tbl (fst s') r q = tbl (fst s) r q"
    and "path_ok q \<Longrightarrow> length q = 3 \<Longrightarrow> unat j < 512 \<Longrightarrow> leaf (fst s') r q j = leaf (fst s) r q j"
proof -
  have pp: "path_ok p" "unat i < 512" using p(1) by (auto simp: path_ok_snoc)
  have ch: "child (fst s) t i = Some c" using c(1) tbl_snoc [OF p(2)] by simp
  then have "entry (fst s) v i AND NOT 0xFFF = c" using entry_ent [OF p(3) pp(2)] by (auto simp: child_def split: if_splits)
  then have s': "s' = free_page (set_entry (fst s) v i 0, snd s) c" by (simp add: s'_def)
  have emp: "\<forall>j. unat j < 512 \<longrightarrow> ent (fst s) c j AND PRESENT = 0" using is_table_empty_iff [OF c(2)] c(3) by simp
  have ok': "vm_ok (fst s, snd s) r xs" using ok by simp
  note d = detach_table [OF ok' p(1,2,3) ch emp s']
  show "vm_ok s' r (c # xs)" by (rule d(1))
  show "leaf (fst s') r q j = leaf (fst s) r q j" if "path_ok q" "length q = 3" "unat j < 512" using d(3) [OF that] .
  show "tbl (fst s') r q = tbl (fst s) r q" if "prefix q p"
  proof -
    have "\<not> prefix (p @ [i]) q" using prefix_length_le [OF that] prefix_length_le [of "p @ [i]" q] by auto
    then show ?thesis using d(2) path_ok_prefix [OF pp(1) that] by simp
  qed
qed

definition unmaps :: "u64 \<Rightarrow> u64 \<Rightarrow> vm \<Rightarrow> u64 list \<Rightarrow> vm \<Rightarrow> bool" where
  "unmaps r va s xs s' \<longleftrightarrow> (\<exists>ys. length ys \<le> 3 \<and> vm_ok s' r (ys @ xs)) \<and>
     (\<forall>q j. path_ok q \<longrightarrow> length q = 3 \<longrightarrow> unat j < 512 \<longrightarrow>
        leaf (fst s') r q j = (if q = va_path va \<and> j = pt_index va then None else leaf (fst s) r q j))"

lemma unmapsI:
  assumes "vm_ok s' r (ys @ xs)" "length ys \<le> 3"
    and "\<And>q j. path_ok q \<Longrightarrow> length q = 3 \<Longrightarrow> unat j < 512 \<Longrightarrow> leaf (fst s') r q j =
      (if q = va_path va \<and> j = pt_index va then None else leaf (fst s) r q j)"
  shows "unmaps r va s xs s'"
  using assms unfolding unmaps_def by blast


text \<open>The four-level walk of the code and the walk of the tree.\<close>

lemma walk_levels:
  assumes tree: "tree m r" and v: "points_to v r"
    and e: "e4 = entry m v (pml4_index va)" "e3 = entry m (next_table e4) (pdpt_index va)"
      "e2 = entry m (next_table e3) (pd_index va)"
  shows "(case tbl m r (va_path va) of
      None \<Rightarrow> e4 AND PRESENT = 0 \<or> e3 AND PRESENT = 0 \<or> e2 AND PRESENT = 0
    | Some t3 \<Rightarrow> e4 AND PRESENT \<noteq> 0 \<and> e3 AND PRESENT \<noteq> 0 \<and> e2 AND PRESENT \<noteq> 0 \<and>
        (\<exists>t1 t2. tbl m r [pml4_index va] = Some t1 \<and> tbl m r [pml4_index va, pdpt_index va] = Some t2 \<and>
           points_to (next_table e4) t1 \<and> points_to (next_table e3) t2 \<and> points_to (next_table e2) t3))"
proof -
  let ?i4 = "pml4_index va" and ?i3 = "pdpt_index va" and ?i2 = "pd_index va"
  have e4: "e4 = ent m r ?i4" using entry_ent [OF v] e(1) by simp
  show ?thesis
  proof (cases "child m r ?i4")
    case None
    then show ?thesis using e4 by (auto simp: va_path_def child_def split: if_splits)
  next
    case (Some t1)
    then have b1: "tbl m r [?i4] = Some t1" by simp
    have f1: "frame_ok t1" using tree_frame [OF tree _ b1] by (simp add: path_ok_def)
    have v1: "points_to (next_table e4) t1" using next_table_points [OF Some f1] e4 by simp
    have p4: "e4 AND PRESENT \<noteq> 0" using Some e4 by (auto simp: child_def split: if_splits)
    have e3: "e3 = ent m t1 ?i3" using entry_ent [OF v1] e(2) by simp
    show ?thesis
    proof (cases "child m t1 ?i3")
      case None
      then show ?thesis using b1 e3 by (auto simp: va_path_def child_def split: if_splits)
    next
      case (Some t2)
      have b2: "tbl m r [?i4, ?i3] = Some t2" using tbl_snoc [OF b1, of ?i3] Some by simp
      have f2: "frame_ok t2" using tree_frame [OF tree _ b2] by (simp add: path_ok_def)
      have v2: "points_to (next_table e3) t2" using next_table_points [OF Some f2] e3 by simp
      have p3: "e3 AND PRESENT \<noteq> 0" using Some e3 by (auto simp: child_def split: if_splits)
      have e2: "e2 = ent m t2 ?i2" using entry_ent [OF v2] e(3) by simp
      have b3: "tbl m r (va_path va) = child m t2 ?i2" using tbl_snoc [OF b2, of ?i2] by (simp add: va_path_def)
      show ?thesis
      proof (cases "child m t2 ?i2")
        case None
        then show ?thesis using b3 e2 by (auto simp: child_def split: if_splits)
      next
        case (Some t3)
        have f3: "frame_ok t3" using tree_frame [OF tree va_path_ok(1)] b3 Some by simp
        have "points_to (next_table e2) t3" using next_table_points [OF Some f3] e2 by simp
        moreover have "e2 AND PRESENT \<noteq> 0" using Some e2 by (auto simp: child_def split: if_splits)
        ultimately show ?thesis using b1 b2 b3 Some p4 p3 v1 v2 by auto
      qed
    qed
  qed
qed

lemma get_physical_addr_vmap:
  assumes "tree m r" "points_to v r"
  shows "get_physical_addr m v va = map_option (\<lambda>e. (e AND NOT 0xFFF) OR (va AND 0xFFF)) (vmap m r va)"
proof (cases "tbl m r (va_path va)")
  case None
  then show ?thesis
    using walk_levels [OF assms refl refl refl, of va] by (auto simp: get_physical_addr_def vmap_def leaf_def Let_def)
next
  case (Some t3)
  then show ?thesis
    using walk_levels [OF assms refl refl refl, of va] entry_ent [OF _ index_bounds(4), of _ t3]
    by (auto simp: get_physical_addr_def vmap_def leaf_def Let_def)
qed


text \<open>
  The reclamation after the leaf entry was cleared: up to three tables, from the
  leaf table upwards.
\<close>

definition reclaim_tables :: "vm \<Rightarrow> u64 \<Rightarrow> u64 \<Rightarrow> u64 \<Rightarrow> u64 \<Rightarrow> u64 \<Rightarrow> vm" where
  "reclaim_tables s pml4_addr pdpt pd pt va =
     (if \<not> is_table_empty (fst s) pt then s else
      let s = free_page (set_entry (fst s) pd (pd_index va) 0, snd s) (entry (fst s) pd (pd_index va) AND NOT 0xFFF) in
      if \<not> is_table_empty (fst s) pd then s else
      let s = free_page (set_entry (fst s) pdpt (pdpt_index va) 0, snd s) (entry (fst s) pdpt (pdpt_index va) AND NOT 0xFFF) in
      if \<not> is_table_empty (fst s) pdpt then s else
      free_page (set_entry (fst s) pml4_addr (pml4_index va) 0, snd s) (entry (fst s) pml4_addr (pml4_index va) AND NOT 0xFFF))"

lemma reclaim_tables_ok:
  assumes ok: "vm_ok s r xs" and v: "points_to v r" "points_to pdpt t1" "points_to pd t2" "points_to pt t3"
    and t: "tbl (fst s) r [pml4_index va] = Some t1" "tbl (fst s) r [pml4_index va, pdpt_index va] = Some t2"
      "tbl (fst s) r (va_path va) = Some t3"
  shows "\<exists>ys. length ys \<le> 3 \<and> vm_ok (reclaim_tables s v pdpt pd pt va) r (ys @ xs) \<and>
    (\<forall>q j. path_ok q \<longrightarrow> length q = 3 \<longrightarrow> unat j < 512 \<longrightarrow>
       leaf (fst (reclaim_tables s v pdpt pd pt va)) r q j = leaf (fst s) r q j)"
proof -
  let ?i4 = "pml4_index va" and ?i3 = "pdpt_index va" and ?i2 = "pd_index va"
  let ?s1 = "free_page (set_entry (fst s) pd ?i2 0, snd s) (entry (fst s) pd ?i2 AND NOT 0xFFF)"
  let ?s2 = "free_page (set_entry (fst ?s1) pdpt ?i3 0, snd ?s1) (entry (fst ?s1) pdpt ?i3 AND NOT 0xFFF)"
  let ?s3 = "free_page (set_entry (fst ?s2) v ?i4 0, snd ?s2) (entry (fst ?s2) v ?i4 AND NOT 0xFFF)"
  have po: "path_ok ([?i4, ?i3] @ [?i2])" "path_ok ([?i4] @ [?i3])" "path_ok ([] @ [?i4])" by (simp_all add: path_ok_def)
  have t3': "tbl (fst s) r ([?i4, ?i3] @ [?i2]) = Some t3" using t(3) by (simp add: va_path_def)
  have R0: "\<exists>ys. length ys \<le> 3 \<and> vm_ok s r (ys @ xs)" using ok by (intro exI [of _ "[]"]) simp
  show ?thesis
  proof (cases "is_table_empty (fst s) pt")
    case False
    then show ?thesis using R0 by (simp add: reclaim_tables_def)
  next
    case e1: True
    note a1 = reclaim_step [OF ok po(1) t(2) v(3) t3' v(4) e1 refl]
    have t2': "tbl (fst ?s1) r ([?i4] @ [?i3]) = Some t2" using a1(2) [of "[?i4] @ [?i3]"] t(2) by simp
    have t1': "tbl (fst ?s1) r [?i4] = Some t1" using a1(2) [of "[?i4]"] t(1) by simp
    show ?thesis
    proof (cases "is_table_empty (fst ?s1) pd")
      case False
      then have "reclaim_tables s v pdpt pd pt va = ?s1" using e1 by (simp add: reclaim_tables_def Let_def)
      then show ?thesis using a1(1,3) by (intro exI [of _ "[t3]"]) simp
    next
      case e2: True
      note a2 = reclaim_step [OF a1(1) po(2) t1' v(2) t2' v(3) e2 refl]
      have t1'': "tbl (fst ?s2) r ([] @ [?i4]) = Some t1" using a2(2) [of "[?i4]"] t1' by simp
      show ?thesis
      proof (cases "is_table_empty (fst ?s2) pdpt")
        case False
        then have "reclaim_tables s v pdpt pd pt va = ?s2" using e1 e2 by (simp add: reclaim_tables_def Let_def)
        then show ?thesis using a2(1,3) a1(3) by (intro exI [of _ "[t2, t3]"]) simp
      next
        case e3: True
        note a3 = reclaim_step [OF a2(1) po(3) tbl.simps(1) v(1) t1'' v(2) e3 refl]
        have "reclaim_tables s v pdpt pd pt va = ?s3" using e1 e2 e3 by (simp add: reclaim_tables_def Let_def)
        then show ?thesis using a3(1,3) a2(3) a1(3) by (intro exI [of _ "[t1, t2, t3]"]) simp
      qed
    qed
  qed
qed

lemma unmap_page_reclaim:
  assumes "e4 = entry (fst s) v (pml4_index va)" "e3 = entry (fst s) (next_table e4) (pdpt_index va)"
    and "e2 = entry (fst s) (next_table e3) (pd_index va)" "e1 = entry (fst s) (next_table e2) (pt_index va)"
  shows "unmap_page s v va = (if e4 AND PRESENT = 0 \<or> e3 AND PRESENT = 0 \<or> e2 AND PRESENT = 0 \<or> e1 AND PRESENT = 0 then (False, [], s)
     else (True, [va], reclaim_tables (set_entry (fst s) (next_table e2) (pt_index va) 0, snd s) v (next_table e4) (next_table e3) (next_table e2) va))"
  using assms by (simp add: unmap_page_def reclaim_tables_def Let_def)

lemma unmap_page_ok:
  assumes ok: "vm_ok s r xs" and v: "points_to v r"
  shows "\<exists>s'. unmap_page s v va = (vmap (fst s) r va \<noteq> None, if vmap (fst s) r va = None then [] else [va], s') \<and> unmaps r va s xs s'"
proof -
  have tree: "tree (fst s) r" using ok by (simp add: vm_ok_def)
  define e4 where "e4 = entry (fst s) v (pml4_index va)"
  define e3 where "e3 = entry (fst s) (next_table e4) (pdpt_index va)"
  define e2 where "e2 = entry (fst s) (next_table e3) (pd_index va)"
  define e1 where "e1 = entry (fst s) (next_table e2) (pt_index va)"
  note W = walk_levels [OF tree v e4_def e3_def e2_def]
  note U = unmap_page_reclaim [OF e4_def e3_def e2_def e1_def]
  have idle: "unmaps r va s xs s" if "vmap (fst s) r va = None"
    using that ok by (intro unmapsI [of _ _ "[]"]) (auto simp: vmap_def)
  show ?thesis
  proof (cases "tbl (fst s) r (va_path va)")
    case None
    then have "vmap (fst s) r va = None" "unmap_page s v va = (False, [], s)"
      using U W by (auto simp: vmap_def leaf_def)
    then show ?thesis using idle by (intro exI [of _ s]) simp
  next
    case (Some t3)
    then obtain t1 t2 where t: "tbl (fst s) r [pml4_index va] = Some t1" "tbl (fst s) r [pml4_index va, pdpt_index va] = Some t2"
        and pt: "points_to (next_table e4) t1" "points_to (next_table e3) t2" "points_to (next_table e2) t3"
        and pr: "e4 AND PRESENT \<noteq> 0" "e3 AND PRESENT \<noteq> 0" "e2 AND PRESENT \<noteq> 0" using W by auto
    have vm: "vmap (fst s) r va = (if e1 AND PRESENT = 0 then None else Some e1)"
      using Some entry_ent [OF pt(3)] by (simp add: vmap_def leaf_def e1_def)
    show ?thesis
    proof (cases "e1 AND PRESENT = 0")
      case True
      then show ?thesis using U vm idle by (intro exI [of _ s]) simp
    next
      case False
      let ?m = "write_u64 (fst s) (t3 + 8 * pt_index va) 0"
      have ok': "vm_ok (fst s, snd s) r xs" using ok by simp
      note w = write_leaf [where v = 0, OF ok' va_path_ok Some index_bounds(4) [of va] refl]
      have b: "tbl ?m r [pml4_index va] = Some t1" "tbl ?m r [pml4_index va, pdpt_index va] = Some t2"
        "tbl ?m r (va_path va) = Some t3"
        using t Some w(4) [of "[pml4_index va]"] w(4) [of "[pml4_index va, pdpt_index va]"] w(4) [of "va_path va"]
        by (simp_all add: path_ok_def [of "_ # _"] del: tbl.simps)
      let ?s' = "reclaim_tables (?m, snd s) v (next_table e4) (next_table e3) (next_table e2) va"
      obtain ys where ys: "length ys \<le> 3" "vm_ok ?s' r (ys @ xs)"
          "\<And>q j. path_ok q \<Longrightarrow> length q = 3 \<Longrightarrow> unat j < 512 \<Longrightarrow> leaf (fst ?s') r q j = leaf ?m r q j"
        using reclaim_tables_ok [OF w(1) v pt, of va] b by (auto simp del: tbl.simps)
      have "unmaps r va s xs ?s'" using ys(3) w(2) by (intro unmapsI [OF ys(2,1)]) simp
      then show ?thesis using U vm False pr set_entry_write [OF pt(3)] by (intro exI [of _ ?s']) simp
    qed
  qed
qed


section \<open>Mapping and unmapping change the mapping in one page\<close>

text \<open>The virtual page of an address: bits 12 to 47.\<close>

definition page_of :: "u64 \<Rightarrow> u64" where
  "page_of va = drop_bit 12 (take_bit 48 va)"

lemma index_bit: "bit ((x :: u64) AND 0x1FF) k \<longleftrightarrow> k < 9 \<and> bit x k"
proof -
  have "(0x1FF :: u64) = mask 9" by (simp add: mask_eq_exp_minus_1)
  then show ?thesis by (simp only: bit_and_iff bit_mask_iff) auto
qed

lemma page_of_iff: "page_of va' = page_of va \<longleftrightarrow> va_path va' = va_path va \<and> pt_index va' = pt_index va"
proof
  assume p: "page_of va' = page_of va"
  have b: "bit va' (12 + k) = bit va (12 + k)" if "k < 36" for k
    using arg_cong [OF p, of "\<lambda>w. bit w k"] that by (simp add: page_of_def bit_simps)
  have f: "drop_bit n va' AND 0x1FF = drop_bit n va AND 0x1FF" if n: "12 \<le> n" "n \<le> 39" for n
  proof (rule bit_word_eqI)
    fix k assume "k < LENGTH(64)"
    show "bit (drop_bit n va' AND 0x1FF) k = bit (drop_bit n va AND 0x1FF) k"
      using b [of "n - 12 + k"] n by (auto simp: index_bit bit_drop_bit_eq)
  qed
  show "va_path va' = va_path va \<and> pt_index va' = pt_index va"
    using f [of 39] f [of 30] f [of 21] f [of 12]
    by (simp add: va_path_def pml4_index_def pdpt_index_def pd_index_def pt_index_def)
next
  assume a: "va_path va' = va_path va \<and> pt_index va' = pt_index va"
  have f: "bit va' (n + k) = bit va (n + k)" if "drop_bit n va' AND 0x1FF = drop_bit n va AND 0x1FF" "k < 9" for n k
    using arg_cong [OF that(1), of "\<lambda>w. bit w k"] that(2) by (simp add: index_bit bit_drop_bit_eq)
  have i: "drop_bit 39 va' AND 0x1FF = drop_bit 39 va AND 0x1FF" "drop_bit 30 va' AND 0x1FF = drop_bit 30 va AND 0x1FF"
    "drop_bit 21 va' AND 0x1FF = drop_bit 21 va AND 0x1FF" "drop_bit 12 va' AND 0x1FF = drop_bit 12 va AND 0x1FF"
    using a by (simp_all add: va_path_def pml4_index_def pdpt_index_def pd_index_def pt_index_def)
  show "page_of va' = page_of va" unfolding page_of_def
  proof (rule bit_word_eqI)
    fix k assume "k < LENGTH(64)"
    consider "k < 9" | "9 \<le> k" "k < 18" | "18 \<le> k" "k < 27" | "27 \<le> k" "k < 36" | "36 \<le> k" by linarith
    then show "bit (drop_bit 12 (take_bit 48 va')) k = bit (drop_bit 12 (take_bit 48 va)) k"
    proof cases
      case 1
      then show ?thesis using f [OF i(4), of k] by (simp add: bit_simps)
    next
      case 2
      then show ?thesis using f [OF i(3), of "k - 9"] by (simp add: bit_simps)
    next
      case 3
      then show ?thesis using f [OF i(2), of "k - 18"] by (simp add: bit_simps)
    next
      case 4
      then show ?thesis using f [OF i(1), of "k - 27"] by (simp add: bit_simps)
    next
      case 5
      then show ?thesis by (simp add: bit_simps)
    qed
  qed
qed

text \<open>A root whose entries are all zero, with the free list elsewhere.\<close>

lemma vm_ok_fresh:
  assumes "pmm_invar (m, pmm) xs" "frame_ok r" "r \<notin> set xs" "\<forall>j. unat j < 512 \<longrightarrow> ent m r j = 0"
  shows "vm_ok (m, pmm) r xs"
proof -
  have nil: "p = [] \<and> t = r" if "path_ok p" "tbl m r p = Some t" for p t
    using that assms(4) by (cases p) (auto simp: path_ok_def child_def)
  then have "tree m r" using assms(2) unfolding tree_def by blast
  then show ?thesis using assms(1,3) nil by (auto simp: vm_ok_def)
qed

section \<open>Properties\<close>

lemma map_page_vmap:
  assumes "vm_ok s r xs" "points_to v r" "3 \<le> length xs"
  shows "\<exists>s' ys. map_page s v va pa flags u = Some s' \<and> vm_ok s' r ys \<and> (\<exists>n\<le>3. ys = drop n xs) \<and>
    (\<forall>va'. vmap (fst s') r va' =
       (if page_of va' = page_of va then Some ((pa AND NOT 0xFFF) OR flags OR PRESENT) else vmap (fst s) r va'))"
proof -
  obtain s' ys where "map_page s v va pa flags u = Some s'" "vm_ok s' r ys" "\<exists>n\<le>3. ys = drop n xs"
      "\<forall>q j. path_ok q \<longrightarrow> length q = 3 \<longrightarrow> unat j < 512 \<longrightarrow> leaf (fst s') r q j =
       (if q = va_path va \<and> j = pt_index va then Some ((pa AND NOT 0xFFF) OR flags OR PRESENT) else leaf (fst s) r q j)"
    using map_page_ok [OF assms, of va pa flags u] by blast
  then show ?thesis by (intro exI [of _ s'] exI [of _ ys]) (simp add: vmap_def page_of_iff)
qed

text \<open>
  C7: mapping a page in a well-formed address space with three free frames succeeds,
  keeps the page tables a tree of distinct frames disjoint from the free list, and
  changes the mapping in exactly the one virtual page, to the given frame and flags.
\<close>

theorem map_page_refines:
  assumes "vm_ok s r xs" "points_to v r" "3 \<le> length xs"
  shows "\<exists>s' ys. map_page s v va pa flags u = Some s' \<and> vm_ok s' r ys \<and>
    vmap (fst s') r = (\<lambda>va'. if page_of va' = page_of va then Some ((pa AND NOT 0xFFF) OR flags OR PRESENT) else vmap (fst s) r va')"
  unfolding fun_eq_iff using map_page_vmap [OF assms, of va pa flags u] by blast


text \<open>
  C9: a page mapped with flags in the low twelve bits resolves to the address it was
  mapped to, offset included; a page mapped with the no-execute flag does not: the
  lookup returns the address with bit 63 set.
\<close>

theorem mapped_page_resolves:
  assumes "vm_ok s r xs" "points_to v r" "3 \<le> length xs" "frame_ok pa" "fl AND NOT 0xFFF = 0"
  shows "(\<exists>s'. map_page s v va pa fl u = Some s' \<and> get_physical_addr (fst s') v va = Some (pa OR (va AND 0xFFF))) \<and>
    (\<exists>s'. map_page s v va pa (fl OR NX) u = Some s' \<and> get_physical_addr (fst s') v va = Some (pa OR NX OR (va AND 0xFFF)))"
proof -
  have g: "\<exists>s'. map_page s v va pa f u = Some s' \<and>
      get_physical_addr (fst s') v va = Some (((pa AND NOT 0xFFF) OR f OR PRESENT) AND NOT 0xFFF OR (va AND 0xFFF))" for f
  proof -
    obtain s' ys where s': "map_page s v va pa f u = Some s'" "vm_ok s' r ys"
        "\<forall>va'. vmap (fst s') r va' = (if page_of va' = page_of va then Some ((pa AND NOT 0xFFF) OR f OR PRESENT) else vmap (fst s) r va')"
      using map_page_vmap [OF assms(1-3), of va pa f u] by blast
    then show ?thesis using get_physical_addr_vmap [of "fst s'" r v va] assms(2) by (auto simp: vm_ok_def)
  qed
  have m: "((pa AND NOT 0xFFF) OR f OR PRESENT) AND NOT 0xFFF = pa OR (f AND NOT 0xFFF)" for f
    using frame_mask [OF assms(4)] by (simp add: bit.conj_disj_distrib2 PRESENT_def)
  have n: "(fl OR NX) AND NOT 0xFFF = NX" using assms(5) by (simp add: bit.conj_disj_distrib2 NX_def)
  show ?thesis using g [of fl] g [of "fl OR NX"] unfolding m n assms(5) by (simp add: or.assoc)
qed

section \<open>A concrete address space\<close>

definition demo_vm :: vm where
  "demo_vm = fold (\<lambda>y s. free_page s y) [0x2000, 0x3000, 0x4000] ((\<lambda>_. 0), demo_pmm)"

lemma demo_vm_ok: "vm_ok demo_vm 0x1000 [0x4000, 0x3000, 0x2000]"
proof -
  have f: "frame_ok 0x1000" "frame_ok 0x2000" "frame_ok 0x3000" "frame_ok 0x4000" by (simp_all add: frame_ok_def)
  have "ent (fst demo_vm) 0x1000 j = 0" if "unat j < 512" for j
    using that f by (simp add: demo_vm_def ent_free_page) (simp add: ent_def)
  moreover have "pmm_invar demo_vm [0x4000, 0x3000, 0x2000]"
    using demo_pmm_seeded [of "[0x2000, 0x3000, 0x4000]"] f by (simp add: demo_vm_def)
  ultimately show ?thesis using vm_ok_fresh [of "fst demo_vm" "snd demo_vm"] f by simp
qed

lemma demo_root: "points_to 0x1000 0x1000"
  by (simp add: points_to_def frame_ok_def)

theorem map_page_refines_witness:
  "\<exists>s' ys. map_page demo_vm 0x1000 0x400000 0x7000 (WRITABLE OR USER) True = Some s' \<and> vm_ok s' 0x1000 ys \<and>
     vmap (fst s') 0x1000 0x400000 = Some (0x7000 OR WRITABLE OR USER OR PRESENT)"
  using map_page_refines [OF demo_vm_ok demo_root, of "0x400000" "0x7000" "WRITABLE OR USER" True]
  by (auto simp: or.assoc)


theorem mapped_page_resolves_witness:
  "\<exists>s'. map_page demo_vm 0x1000 0x400123 0x7000 (WRITABLE OR NX) False = Some s' \<and>
     get_physical_addr (fst s') 0x1000 0x400123 = Some 0x8000000000007123"
  using mapped_page_resolves [OF demo_vm_ok demo_root _ _, of "0x7000" WRITABLE "0x400123" False]
  by (simp add: frame_ok_def WRITABLE_def NX_def)

end
