(* ===== verification/Bytes.thy ===== *)
theory Bytes
  imports Prelude
begin

text \<open>
  Conversions between words and byte lists in both byte orders, as the methods
  to\_le\_bytes, from\_le\_bytes, to\_be\_bytes and from\_be\_bytes of the sized integers do.
\<close>

definition to_le :: "nat \<Rightarrow> 'a::len word \<Rightarrow> u8 list" where
  "to_le n w = map (\<lambda>i. ucast (drop_bit (8 * i) w)) [0..<n]"

definition from_le :: "u8 list \<Rightarrow> 'a::len word" where
  "from_le bs = foldr (\<lambda>b acc. ucast b OR push_bit 8 acc) bs 0"

definition to_be :: "nat \<Rightarrow> 'a::len word \<Rightarrow> u8 list" where
  "to_be n w = rev (to_le n w)"

definition from_be :: "u8 list \<Rightarrow> 'a::len word" where
  "from_be bs = from_le (rev bs)"

lemma length_to_le [simp]: "length (to_le n w) = n"
  by (simp add: to_le_def)

lemma length_to_be [simp]: "length (to_be n w) = n"
  by (simp add: to_be_def)

lemma to_le_Suc: "to_le (Suc n) w = ucast w # to_le n (drop_bit 8 w)"
proof -
  have "[0..<Suc n] = 0 # map Suc [0..<n]" by (simp add: upt_conv_Cons map_Suc_upt del: upt_Suc)
  then show ?thesis by (simp add: to_le_def o_def add.commute del: upt_Suc)
qed

lemma from_le_Cons: "from_le (b # bs) = (ucast b OR push_bit 8 (from_le bs) :: 'a::len word)"
  by (simp add: from_le_def)

lemma from_to_le: "from_le (to_le n w) = (take_bit (8 * n) w :: 'a::len word)"
proof (induction n arbitrary: w)
  case 0
  then show ?case by (simp add: to_le_def from_le_def)
next
  case (Suc n)
  have "ucast (ucast w :: u8) OR push_bit 8 (take_bit (8 * n) (drop_bit 8 w)) = take_bit (8 * Suc n) w"
  proof (rule bit_word_eqI)
    fix k assume "k < LENGTH('a)"
    then show "bit (ucast (ucast w :: u8) OR push_bit 8 (take_bit (8 * n) (drop_bit 8 w)) :: 'a word) k = bit (take_bit (8 * Suc n) w) k"
      by (cases "k < 8") (auto simp: bit_simps)
  qed
  then show ?case using Suc by (simp add: to_le_Suc from_le_Cons)
qed

lemma from_to_be: "from_be (to_be n w) = (take_bit (8 * n) w :: 'a::len word)"
  by (simp add: from_be_def to_be_def from_to_le)

lemma from_to_le_64 [simp]: "from_le (to_le 8 w) = (w :: u64)"
  by (simp add: from_to_le take_bit_word_eq_self)

lemma from_to_le_16 [simp]: "from_le (to_le 2 w) = (w :: u16)"
  by (simp add: from_to_le take_bit_word_eq_self)

lemma from_to_be_32 [simp]: "from_be (to_be 4 w) = (w :: u32)"
  by (simp add: from_to_be take_bit_word_eq_self)

lemma from_to_be_64 [simp]: "from_be (to_be 8 w) = (w :: u64)"
  by (simp add: from_to_be take_bit_word_eq_self)

text \<open>A byte string of the right length is the encoding of the word it decodes to.\<close>

lemma to_from_le: "8 * length bs \<le> LENGTH('a) \<Longrightarrow> to_le (length bs) (from_le bs :: 'a::len word) = bs"
proof (induction bs)
  case Nil
  then show ?case by (simp add: to_le_def)
next
  case (Cons b bs)
  have l: "8 \<le> LENGTH('a)" "8 * length bs + 8 \<le> LENGTH('a)" using Cons.prems by simp_all
  have lo: "ucast (ucast b OR push_bit 8 x :: 'a word) = b" for x
  proof (rule bit_word_eqI)
    fix k assume "k < LENGTH(8)"
    then show "bit (ucast (ucast b OR push_bit 8 x :: 'a word) :: u8) k = bit b k" using l(1) by (simp add: bit_simps)
  qed
  have hi: "to_le (length bs) (drop_bit 8 (ucast b OR push_bit 8 (from_le bs) :: 'a word)) = to_le (length bs) (from_le bs :: 'a word)"
  proof -
    have "(ucast (drop_bit (8 * i) (drop_bit 8 (ucast b OR push_bit 8 x :: 'a word))) :: u8) = ucast (drop_bit (8 * i) x)"
      if "i < length bs" for i x
    proof (rule bit_word_eqI)
      fix k assume k: "k < LENGTH(8)"
      then have "8 + (8 * i + k) < LENGTH('a)" using that l(2) by simp
      moreover have "\<not> bit b (8 + (8 * i + k))" by (auto dest: bit_imp_le_length)
      ultimately show "bit (ucast (drop_bit (8 * i) (drop_bit 8 (ucast b OR push_bit 8 x :: 'a word))) :: u8) k =
          bit (ucast (drop_bit (8 * i) x) :: u8) k" by (simp add: bit_simps ac_simps)
    qed
    then show ?thesis by (simp add: to_le_def)
  qed
  show ?case using Cons.IH l lo hi by (simp add: to_le_Suc from_le_Cons)
qed

lemma to_from_be: "8 * length bs \<le> LENGTH('a) \<Longrightarrow> to_be (length bs) (from_be bs :: 'a::len word) = bs"
  using to_from_le [of "rev bs", where 'a = 'a] by (simp add: to_be_def from_be_def)

end
