(* ===== verification/Address_Space.thy ===== *)
theory Address_Space
  imports Page_Unmap Bytes
begin

text \<open>
  The memory manager's public interface (memory\_manager/manager.rs) and the address
  spaces of user processes (memory\_manager/address\_space.rs).
\<close>

section \<open>The memory manager\<close>

definition KERNEL_PML4 :: u64 where "KERNEL_PML4 = 0"

record MemoryManager =
  mgr_pmm :: PhysicalMemoryManager
  mgr_pml4 :: u64
  mgr_pml4_phys :: u64

type_synonym mms = "memory \<times> MemoryManager"

text \<open>The part of the state the page tables and the frame allocator work on.\<close>

definition vm_of :: "mms \<Rightarrow> vm" where
  "vm_of s = (fst s, mgr_pmm (snd s))"

definition put_vm :: "mms \<Rightarrow> vm \<Rightarrow> mms" where
  "put_vm s v = (fst v, (snd s)\<lparr>mgr_pmm := snd v\<rparr>)"

text \<open>
  The constructor enables the no-execute bit of the EFER register, whose two halves
  are read and written separately.
\<close>

definition MemoryManager_init :: "u64 \<Rightarrow> PhysicalMemoryManager \<Rightarrow> u64 \<Rightarrow> u64 \<times> MemoryManager" where
  "MemoryManager_init efer pmm pml4_phys =
     (let low = ucast efer :: u32; high = ucast (drop_bit 32 efer) :: u32; low = low OR push_bit 11 1
      in (push_bit 32 (ucast high) OR ucast low, \<lparr>mgr_pmm = pmm, mgr_pml4 = pml4_phys, mgr_pml4_phys = pml4_phys\<rparr>))"

text \<open>A pseudo-descriptor of a descriptor table: two bytes of limit, eight of base.\<close>

definition rebase_descriptor :: "u8 list \<Rightarrow> u8 list" where
  "rebase_descriptor d =
     (let phys = from_le (take 8 (drop 2 d)) :: u64; limit = from_le (take 2 d) :: u16; virt = phys + KERNEL_PHYSICAL_MAP_BASE
      in to_le 2 limit @ to_le 8 virt)"

definition reload_gdt_and_idt :: "u8 list \<times> u8 list \<Rightarrow> u8 list \<times> u8 list" where
  "reload_gdt_and_idt ds = (rebase_descriptor (fst ds), rebase_descriptor (snd ds))"

definition init_higher_half :: "FramebufferInfo \<Rightarrow> MemoryMapInfo \<Rightarrow> mms \<times> u8 list \<times> u8 list \<Rightarrow> (mms \<times> u8 list \<times> u8 list) option" where
  "init_higher_half framebuffer_info memory_map st = (let (s, ds) = st in do {
     v \<leftarrow> build_direct_map (vm_of s) (mgr_pml4 (snd s)) memory_map;
     let s = put_vm s (fst v, (snd v)\<lparr>is_higher_half := True\<rparr>);
     v \<leftarrow> map_framebuffer_higher_half (vm_of s) (mgr_pml4 (snd s)) framebuffer_info;
     let s = put_vm s v;
     let s = (fst s, (snd s)\<lparr>mgr_pml4 := mgr_pml4_phys (snd s) + KERNEL_PHYSICAL_MAP_BASE\<rparr>);
     let ds = reload_gdt_and_idt ds;
     let s = (remove_identity_maps (fst s) (mgr_pml4_phys (snd s)), snd s);
     v \<leftarrow> reclaim_boot_memory (vm_of s) memory_map;
     Some (put_vm s v, ds)
   })"

definition phys_to_virt :: "u64 \<Rightarrow> u64" where
  "phys_to_virt phys = phys + KERNEL_PHYSICAL_MAP_BASE"

definition virt_to_phys :: "u64 \<Rightarrow> u64" where
  "virt_to_phys virt = virt - KERNEL_PHYSICAL_MAP_BASE"

definition mm_alloc_page :: "mms \<Rightarrow> u64 option \<times> mms" where
  "mm_alloc_page s = (let (r, v) = alloc_page (vm_of s) in (r, put_vm s v))"

definition mm_free_page :: "mms \<Rightarrow> u64 \<Rightarrow> mms" where
  "mm_free_page s addr = put_vm s (free_page (vm_of s) addr)"

text \<open>The root a caller names: zero is the kernel's own.\<close>

definition mm_root :: "MemoryManager \<Rightarrow> u64 \<Rightarrow> u64" where
  "mm_root mm pml4_phys = (if pml4_phys = KERNEL_PML4 then mgr_pml4 mm else pml4_phys + KERNEL_PHYSICAL_MAP_BASE)"

definition mm_map_page :: "mms \<Rightarrow> u64 \<Rightarrow> u64 \<Rightarrow> u64 \<Rightarrow> u64 \<Rightarrow> mms option" where
  "mm_map_page s pml4_phys virtual_addr physical_addr flags = do {
     v \<leftarrow> map_page (vm_of s) (mm_root (snd s) pml4_phys) virtual_addr physical_addr flags True;
     Some (put_vm s v)
   }"

definition mm_get_physical_addr :: "mms \<Rightarrow> u64 \<Rightarrow> u64 \<Rightarrow> u64 option" where
  "mm_get_physical_addr s pml4_phys virtual_addr = get_physical_addr (fst s) (mm_root (snd s) pml4_phys) virtual_addr"

definition mm_unmap_page :: "mms \<Rightarrow> u64 \<Rightarrow> u64 \<Rightarrow> bool \<times> u64 list \<times> mms" where
  "mm_unmap_page s pml4_phys virtual_addr =
     (let (b, inv, v) = unmap_page (vm_of s) (mm_root (snd s) pml4_phys) virtual_addr in (b, inv, put_vm s v))"

definition mm_unmap_and_free_page :: "mms \<Rightarrow> u64 \<Rightarrow> u64 \<Rightarrow> u64 list \<times> mms" where
  "mm_unmap_and_free_page s pml4_phys virtual_addr =
     (case mm_get_physical_addr s pml4_phys virtual_addr of
        None \<Rightarrow> ([], s)
      | Some phys \<Rightarrow> let (_, inv, s) = mm_unmap_page s pml4_phys virtual_addr in (inv, mm_free_page s phys))"

definition mm_free_page_count :: "mms \<Rightarrow> u64" where
  "mm_free_page_count s = free_pages (mgr_pmm (snd s))"

section \<open>User address spaces\<close>

record AddressSpace =
  as_pml4_phys :: u64
  as_user_stack_top :: u64
  as_user_stack_pages :: u64

definition USER_STACK_PAGES :: u64 where "USER_STACK_PAGES = 4"

definition USER_STACK_TOP :: u64 where "USER_STACK_TOP = 0x7FFFFFFF0000"

text \<open>The copy of the upper half of the kernel's root into a new root.\<close>

definition copy_upper_half :: "u64 \<Rightarrow> u64 \<Rightarrow> memory \<Rightarrow> memory" where
  "copy_upper_half kernel_pml4 pml4 m =
     fold (\<lambda>i m. write_u64 m (phys_of (pml4 + 8 * of_nat i)) (read_u64 m (phys_of (kernel_pml4 + 8 * of_nat i)))) [256..<512] m"

fun map_user_stack :: "u64 list \<Rightarrow> u64 \<Rightarrow> mms \<Rightarrow> mms option" where
  "map_user_stack [] pml4_phys s = Some s"
| "map_user_stack (i # is) pml4_phys s = (case mm_alloc_page s of
     (None, _) \<Rightarrow> None
   | (Some phys, s) \<Rightarrow> do {
       s \<leftarrow> mm_map_page s pml4_phys (USER_STACK_TOP - (i + 1) * PAGE_SIZE) phys (PRESENT OR WRITABLE OR USER OR NX);
       map_user_stack is pml4_phys s
     })"

text \<open>
  The new root is zeroed entry by entry, as \<^const>\<open>zero_out_page\<close> does; running out of
  frames is a panic.
\<close>

definition AddressSpace_init :: "u64 \<Rightarrow> mms \<Rightarrow> (AddressSpace \<times> mms) option" where
  "AddressSpace_init kernel_pml4_phys s = (case mm_alloc_page s of
     (None, _) \<Rightarrow> None
   | (Some pml4_phys, s) \<Rightarrow> do {
       let pml4 = pml4_phys + KERNEL_PHYSICAL_MAP_BASE;
       let m = zero_out_page (fst s) pml4;
       let m = copy_upper_half (kernel_pml4_phys + KERNEL_PHYSICAL_MAP_BASE) pml4 m;
       s \<leftarrow> map_user_stack (map of_nat [0..<unat USER_STACK_PAGES]) pml4_phys (m, snd s);
       Some (\<lparr>as_pml4_phys = pml4_phys, as_user_stack_top = USER_STACK_TOP, as_user_stack_pages = USER_STACK_PAGES\<rparr>, s)
     })"

definition AddressSpace_from_existing :: "u64 \<Rightarrow> AddressSpace" where
  "AddressSpace_from_existing kernel_pml4_phys =
     \<lparr>as_pml4_phys = kernel_pml4_phys, as_user_stack_top = USER_STACK_TOP, as_user_stack_pages = USER_STACK_PAGES\<rparr>"

section \<open>The fresh root\<close>

lemma vm_of_put [simp]: "vm_of (put_vm s v) = v" "fst (put_vm s v) = fst v"
  by (simp_all add: vm_of_def put_vm_def)

lemma fst_vm_of [simp]: "fst (vm_of s) = fst s"
  by (simp add: vm_of_def)

lemma copy_upper_ent:
  assumes k: "points_to kv k" and r: "points_to v r" and ne: "k \<noteq> r" and n: "n \<le> 512"
  shows "\<forall>u j. frame_ok u \<longrightarrow> unat j < 512 \<longrightarrow>
    ent (fold (\<lambda>i m. write_u64 m (phys_of (v + 8 * of_nat i)) (read_u64 m (phys_of (kv + 8 * of_nat i)))) [256..<n] m) u j =
    (if u = r \<and> 256 \<le> unat j \<and> unat j < n then ent m k j else ent m u j)"
  using n
proof (induction n)
  case 0
  then show ?case by simp
next
  case (Suc n)
  let ?f = "\<lambda>i m. write_u64 m (phys_of (v + 8 * of_nat i)) (read_u64 m (phys_of (kv + 8 * of_nat i)))"
  let ?m = "fold ?f [256..<n] m"
  have f: "frame_ok k" "frame_ok r" using k r by (simp_all add: points_to_def)
  have IH: "ent ?m u j = (if u = r \<and> 256 \<le> unat j \<and> unat j < n then ent m k j else ent m u j)"
    if "frame_ok u" "unat j < 512" for u j using Suc that by simp
  show ?case
  proof (cases "256 \<le> n")
    case True
    have nn: "unat (of_nat n :: u64) = n" using Suc.prems by (simp add: unat_of_nat)
    have p: "phys_of (v + 8 * of_nat n) = r + 8 * of_nat n" "phys_of (kv + 8 * of_nat n) = k + 8 * of_nat n"
      using phys_of_entry [OF r] phys_of_entry [OF k] nn Suc.prems by simp_all
    have st: "fold ?f [256..<Suc n] m = write_u64 ?m (r + 8 * of_nat n) (ent ?m k (of_nat n))"
      using True p by (simp add: ent_def)
    have j: "j = of_nat n \<longleftrightarrow> unat j = n" for j :: u64 using nn by (metis unsigned_word_eqI)
    have kn: "ent ?m k (of_nat n) = ent m k (of_nat n)" using IH [OF f(1), of "of_nat n"] nn Suc.prems ne by simp
    show ?thesis
    proof (intro allI impI)
      fix u j assume u: "frame_ok u" "unat (j :: u64) < 512"
      have w: "ent (fold ?f [256..<Suc n] m) u j = (if u = r \<and> j = of_nat n then ent m k (of_nat n) else ent ?m u j)"
        unfolding st kn using ent_write [OF f(2) u(1) _ u(2), of "of_nat n"] nn Suc.prems by simp
      show "ent (fold ?f [256..<Suc n] m) u j = (if u = r \<and> 256 \<le> unat j \<and> unat j < Suc n then ent m k j else ent m u j)"
      proof (cases "j = of_nat n")
        case True
        then show ?thesis using w IH [OF u] nn \<open>256 \<le> n\<close> by simp
      next
        case False
        then have "unat j \<noteq> n" using j by simp
        then show ?thesis unfolding w using False IH [OF u] by (simp add: less_Suc_eq)
      qed
    qed
  next
    case False
    then have "[256..<Suc n] = []" by simp
    moreover have "\<not> (256 \<le> unat j \<and> unat j < Suc n)" for j :: u64 using False by linarith
    ultimately show ?thesis by (metis (no_types, lifting) fold_simps(1))
  qed
qed

lemma copy_upper_half_ent:
  assumes "points_to kv k" "points_to v r" "k \<noteq> r" "frame_ok u" "unat j < 512"
  shows "ent (copy_upper_half kv v m) u j = (if u = r \<and> 256 \<le> unat j then ent m k j else ent m u j)"
  unfolding copy_upper_half_def copy_upper_ent [OF assms(1-3) order.refl, rule_format, OF assms(4,5)]
  using assms(5) by simp

end
