(* ===== verification/Free_Blocks.thy ===== *)
theory Free_Blocks
  imports Prelude
begin

text \<open>
  The free list of the kernel heap as a mathematical object: an address-ordered list
  of blocks with a gap between any two, which is the only such list for the set of
  bytes it covers.  Adding a block joins it with its neighbours.
\<close>

type_synonym blocks = "(nat \<times> nat) list"

definition block_bytes :: "nat \<times> nat \<Rightarrow> nat set" where
  "block_bytes b = {fst b..<fst b + snd b}"

definition bytes :: "blocks \<Rightarrow> nat set" where
  "bytes bs = (\<Union>b\<in>set bs. block_bytes b)"

text \<open>
  Blocks between two bounds, in ascending order, each with room for its header and
  none adjacent to the next.
\<close>

fun wf_blocks :: "nat \<Rightarrow> nat \<Rightarrow> blocks \<Rightarrow> bool" where
  "wf_blocks lo hi [] = True"
| "wf_blocks lo hi ((b, n) # bs) = (lo \<le> b \<and> 16 \<le> n \<and> b + n \<le> hi \<and> wf_blocks (b + n + 1) hi bs)"

lemma bytes_simps [simp]:
  "bytes [] = {}" "bytes ((b, n) # bs) = {b..<b + n} \<union> bytes bs" "bytes (bs @ cs) = bytes bs \<union> bytes cs"
  by (auto simp: bytes_def block_bytes_def)

lemma wf_blocks_mono: "wf_blocks lo hi bs \<Longrightarrow> lo' \<le> lo \<Longrightarrow> hi \<le> hi' \<Longrightarrow> wf_blocks lo' hi' bs"
  by (induction lo hi bs arbitrary: lo' rule: wf_blocks.induct) auto

lemma wf_blocks_bytes: "wf_blocks lo hi bs \<Longrightarrow> x \<in> bytes bs \<Longrightarrow> lo \<le> x \<and> x < hi"
  by (induction lo hi bs rule: wf_blocks.induct) auto

lemma wf_blocks_member: "wf_blocks lo hi bs \<Longrightarrow> (b, n) \<in> set bs \<Longrightarrow> lo \<le> b \<and> 16 \<le> n \<and> b + n \<le> hi \<and> {b..<b + n} \<subseteq> bytes bs"
  by (induction lo hi bs rule: wf_blocks.induct) auto

lemma apart_iff:
  "0 < n \<Longrightarrow> 0 < k \<Longrightarrow> {p..<p + n} \<inter> {b..<b + k} = {} \<longleftrightarrow> p + n \<le> b \<or> b + k \<le> (p :: nat)"
proof (rule iffI)
  assume "0 < n" "0 < k" "{p..<p + n} \<inter> {b..<b + k} = {}"
  then have "max p b \<notin> {p..<p + n} \<inter> {b..<b + k}" by blast
  then show "p + n \<le> b \<or> b + k \<le> p" using \<open>0 < n\<close> \<open>0 < k\<close> by (auto simp: max_def split: if_splits)
qed auto

lemma apartD: "{p..<p + n} \<inter> {b..<b + k} = {} \<Longrightarrow> 16 \<le> n \<Longrightarrow> 16 \<le> k \<Longrightarrow> p + n \<le> b \<or> b + k \<le> (p :: nat)"
  by (rule apart_iff [THEN iffD1]) simp_all

text \<open>Joining a block with the head of the list when they meet.\<close>

fun join :: "nat \<Rightarrow> nat \<Rightarrow> blocks \<Rightarrow> blocks" where
  "join b n [] = [(b, n)]"
| "join b n ((c, k) # cs) = (if b + n = c then (b, n + k) # cs else (b, n) # (c, k) # cs)"

fun add_block :: "nat \<Rightarrow> nat \<Rightarrow> blocks \<Rightarrow> blocks" where
  "add_block p n [] = [(p, n)]"
| "add_block p n ((b, k) # bs) = (if b < p then join b k (add_block p n bs) else join p n ((b, k) # bs))"

lemma bytes_join [simp]: "bytes (join b n bs) = {b..<b + n} \<union> bytes bs"
  by (cases "(b, n, bs)" rule: join.cases) auto

lemma bytes_add_block: "bytes (add_block p n bs) = {p..<p + n} \<union> bytes bs"
  by (induction p n bs rule: add_block.induct) auto

lemma wf_join:
  assumes "wf_blocks (b + n) hi bs" "lo \<le> b" "16 \<le> n" "b + n \<le> hi"
  shows "wf_blocks lo hi (join b n bs)"
  using assms by (cases "(b, n, bs)" rule: join.cases) (auto intro: wf_blocks_mono)

lemma wf_add_block:
  assumes "wf_blocks lo hi bs" "lo \<le> p" "p + n \<le> hi" "16 \<le> n" "{p..<p + n} \<inter> bytes bs = {}"
  shows "wf_blocks lo hi (add_block p n bs)"
  using assms
proof (induction p n bs arbitrary: lo rule: add_block.induct)
  case (1 p n)
  then show ?case by simp
next
  case (2 p n b k bs)
  have bs: "wf_blocks (b + k + 1) hi bs" "lo \<le> b" "16 \<le> k" "b + k \<le> hi" using "2.prems"(1) by simp_all
  have "{p..<p + n} \<inter> {b..<b + k} = {}" and dj: "{p..<p + n} \<inter> bytes bs = {}"
    using "2.prems"(5) unfolding bytes_simps by blast+
  then have ap: "p + n \<le> b \<or> b + k \<le> p" using apartD "2.prems"(4) bs(3) by blast
  show ?case
  proof (cases "b < p")
    case True
    have "b + k \<le> p" using True ap by simp
    then have "wf_blocks (b + k) hi (add_block p n bs)"
      using "2.IH" [OF True _ _ "2.prems"(3,4) dj, of "b + k"] wf_blocks_mono [OF bs(1), of "b + k" hi] by simp
    then show ?thesis using True wf_join [OF _ bs(2-4)] by simp
  next
    case False
    have "p + n \<le> b" using False ap bs(3) by simp
    then show ?thesis using False wf_join [of p n hi "(b, k) # bs" lo] "2.prems" by simp
  qed
qed

text \<open>The list is determined by the bytes it covers.\<close>

lemma wf_blocks_head:
  assumes "wf_blocks lo hi ((b, n) # bs)"
  shows "b = (LEAST x. x \<in> bytes ((b, n) # bs))" "b + n = (LEAST x. b \<le> x \<and> x \<notin> bytes ((b, n) # bs))"
proof -
  have w: "wf_blocks (b + n + 1) hi bs" "16 \<le> n" using assms by simp_all
  have r: "x \<in> bytes bs \<Longrightarrow> b + n < x" for x using wf_blocks_bytes [OF w(1)] by fastforce
  show "b = (LEAST x. x \<in> bytes ((b, n) # bs))"
    by (rule Least_equality [symmetric]) (use w r in fastforce)+
  show "b + n = (LEAST x. b \<le> x \<and> x \<notin> bytes ((b, n) # bs))"
    by (rule Least_equality [symmetric]) (use r in fastforce)+
qed

lemma wf_blocks_unique:
  assumes "wf_blocks lo hi bs" "wf_blocks lo' hi' cs" "bytes bs = bytes cs"
  shows "bs = cs"
  using assms
proof (induction bs arbitrary: lo lo' cs)
  case Nil
  then show ?case by (cases "(lo', hi', cs)" rule: wf_blocks.cases) auto
next
  case (Cons x bs)
  obtain b n where x: "x = (b, n)" by (cases x)
  obtain c k cs' where cs: "cs = (c, k) # cs'" using Cons.prems x by (cases "(lo', hi', cs)" rule: wf_blocks.cases) auto
  have wb: "wf_blocks lo hi ((b, n) # bs)" "wf_blocks lo' hi' ((c, k) # cs')" and eq: "bytes ((b, n) # bs) = bytes ((c, k) # cs')"
    using Cons.prems x cs by (simp_all only:)
  have bc: "b = c" by (rule trans [OF wf_blocks_head(1) [OF wb(1), unfolded eq] wf_blocks_head(1) [OF wb(2), symmetric]])
  have "c + n = c + k"
    by (rule trans [OF wf_blocks_head(2) [OF wb(1), unfolded eq, unfolded bc] wf_blocks_head(2) [OF wb(2), symmetric]])
  then have nk: "n = k" by simp
  have w: "wf_blocks (b + n + 1) hi bs" "wf_blocks (b + n + 1) hi' cs'" using Cons.prems x cs bc nk by auto
  have "bytes bs = bytes ((b, n) # bs) - {b..<b + n}" "bytes cs' = bytes ((b, n) # cs') - {b..<b + n}"
    using wf_blocks_bytes [OF w(1)] wf_blocks_bytes [OF w(2)] by fastforce+
  then have "bytes bs = bytes cs'" using Cons.prems(3) x cs bc nk by simp
  then show ?case using Cons.IH [OF w] x cs bc nk by simp
qed

text \<open>Taking a block out and putting the rest of it back.\<close>

lemma wf_blocks_append:
  "wf_blocks lo hi (bs @ (b, n) # cs) \<longleftrightarrow>
     (bs = [] \<or> b \<noteq> 0 \<and> wf_blocks lo (b - 1) bs) \<and> lo \<le> b \<and> 16 \<le> n \<and> b + n \<le> hi \<and> wf_blocks (b + n + 1) hi cs"
proof (induction bs arbitrary: lo)
  case Nil
  then show ?case by simp
next
  case (Cons x bs)
  obtain c k where x: "x = (c, k)" by (cases x)
  show ?case unfolding x append_Cons wf_blocks.simps Cons.IH by (cases bs) auto
qed

lemma wf_blocks_remove:
  assumes "wf_blocks lo hi (bs @ (b, n) # cs)"
  shows "wf_blocks lo hi (bs @ cs)" "bytes (bs @ cs) = bytes (bs @ (b, n) # cs) - {b..<b + n}"
proof -
  have w: "bs = [] \<or> b \<noteq> 0 \<and> wf_blocks lo (b - 1) bs" "lo \<le> b" "16 \<le> n" "b + n \<le> hi" "wf_blocks (b + n + 1) hi cs"
    using assms unfolding wf_blocks_append by simp_all
  have "x < b" if "x \<in> bytes bs" for x using w(1) wf_blocks_bytes [of lo "b - 1" bs x] that by auto
  moreover have "b + n < x" if "x \<in> bytes cs" for x using wf_blocks_bytes [OF w(5) that] by simp
  ultimately show "bytes (bs @ cs) = bytes (bs @ (b, n) # cs) - {b..<b + n}" by fastforce
  show "wf_blocks lo hi (bs @ cs)"
  proof (cases cs)
    case Nil
    then show ?thesis using w by (auto intro: wf_blocks_mono)
  next
    case (Cons c cs')
    then show ?thesis using w by (cases c) (auto simp: wf_blocks_append intro: wf_blocks_mono)
  qed
qed

lemma wf_blocks_interval:
  assumes "wf_blocks lo hi bs" "{r..<r + n} \<subseteq> bytes bs" "0 < n"
  shows "\<exists>x\<in>set bs. n \<le> snd x"
  using assms(1,2)
proof (induction lo hi bs rule: wf_blocks.induct)
  case (1 lo hi)
  then show ?case using assms(3) by simp
next
  case (2 lo hi b k bs)
  have w: "wf_blocks (b + k + 1) hi bs" using "2.prems"(1) by simp
  have gap: "b + k < x" if "x \<in> bytes bs" for x using wf_blocks_bytes [OF w that] by simp
  have r: "r \<in> {r..<r + n}" using assms(3) by simp
  show ?case
  proof (cases "r < b + k")
    case True
    have "b + k \<notin> bytes ((b, k) # bs)" using gap [of "b + k"] by auto
    then have "b + k \<notin> {r..<r + n}" using "2.prems"(2) by blast
    moreover have "r \<in> bytes ((b, k) # bs)" using r "2.prems"(2) by blast
    then have "b \<le> r" using gap [of r] True by auto
    ultimately show ?thesis using True by auto
  next
    case False
    have "{r..<r + n} \<inter> {b..<b + k} = {}" using False by auto
    then have "{r..<r + n} \<subseteq> bytes bs" using "2.prems"(2) unfolding bytes_simps by blast
    then show ?thesis using "2.IH" [OF w] by auto
  qed
qed

end
