(* ===== verification/Kernel_Heap.thy ===== *)
theory Kernel_Heap
  imports Address_Space Free_Blocks
begin

text \<open>
  The kernel heap of kernel_heap.rs: a first-fit allocator over an address-ordered
  free list threaded through the free blocks themselves.  Heap bytes are addressed by
  their virtual addresses; the memory manager's state, which grow changes, is kept
  beside them.
\<close>

section \<open>Definitions\<close>

record KernelHeap =
  heap_base :: u64
  heap_max_size :: u64
  committed :: u64
  heap_free_list :: u64

record Layout =
  layout_size :: u64
  layout_align :: u64

type_synonym heap_state = "KernelHeap \<times> memory \<times> mms"

definition FreeBlock_SIZE :: u64 where "FreeBlock_SIZE = 16"

definition AllocHeader_SIZE :: u64 where "AllocHeader_SIZE = 16"

text \<open>The two fields of a block header, at offsets 0 and 8; a free block and an allocated one share this shape.\<close>

definition block_size :: "memory \<Rightarrow> u64 \<Rightarrow> u64" where
  "block_size m b = read_u64 m b"

definition block_next :: "memory \<Rightarrow> u64 \<Rightarrow> u64" where
  "block_next m b = read_u64 m (b + 8)"

definition set_block_size :: "memory \<Rightarrow> u64 \<Rightarrow> u64 \<Rightarrow> memory" where
  "set_block_size m b v = write_u64 m b v"

definition set_block_next :: "memory \<Rightarrow> u64 \<Rightarrow> u64 \<Rightarrow> memory" where
  "set_block_next m b v = write_u64 m (b + 8) v"

definition KernelHeap_new :: "u64 \<Rightarrow> u64 \<Rightarrow> KernelHeap" where
  "KernelHeap_new b max_size = \<lparr>heap_base = b, heap_max_size = max_size, committed = 0, heap_free_list = 0\<rparr>"

partial_function (option) insert_walk :: "memory \<Rightarrow> u64 \<Rightarrow> u64 \<Rightarrow> u64 \<Rightarrow> (u64 \<times> u64) option" where
  "insert_walk m ptr prev nxt =
     (if nxt \<noteq> 0 \<and> nxt < ptr then insert_walk m ptr nxt (block_next m nxt) else Some (prev, nxt))"

text \<open>Absorbing the block c that follows b.\<close>

definition absorb :: "memory \<Rightarrow> u64 \<Rightarrow> u64 \<Rightarrow> memory" where
  "absorb m b c = (let m = set_block_size m b (block_size m b + block_size m c) in set_block_next m b (block_next m c))"

definition insert_free_block_sorted :: "KernelHeap \<Rightarrow> memory \<Rightarrow> u64 \<Rightarrow> u64 \<Rightarrow> (KernelHeap \<times> memory) option" where
  "insert_free_block_sorted h m ptr total_size =
     (if total_size < FreeBlock_SIZE then None else do {
        (prev, nxt) \<leftarrow> insert_walk m ptr 0 (heap_free_list h);
        let m = set_block_next (set_block_size m ptr total_size) ptr nxt;
        let h = (if prev = 0 then h\<lparr>heap_free_list := ptr\<rparr> else h);
        let m = (if prev = 0 then m else set_block_next m prev ptr);
        let m = (if nxt \<noteq> 0 \<and> ptr + block_size m ptr = nxt then absorb m ptr nxt else m);
        let m = (if prev \<noteq> 0 \<and> prev + block_size m prev = ptr then absorb m prev ptr else m);
        Some (h, m)
      })"

fun grow_pages :: "u64 list \<Rightarrow> u64 \<Rightarrow> mms \<Rightarrow> mms option" where
  "grow_pages [] region s = Some s"
| "grow_pages (i # is) region s = (case mm_alloc_page s of
     (None, _) \<Rightarrow> None
   | (Some phys, s) \<Rightarrow> do {
       s \<leftarrow> mm_map_page s KERNEL_PML4 (region + i * PAGE_SIZE) phys (PRESENT OR WRITABLE OR NX);
       grow_pages is region s
     })"

definition grow :: "u64 \<Rightarrow> heap_state \<Rightarrow> heap_state option" where
  "grow page_count st = (case st of (h, m, s) \<Rightarrow>
     let num_bytes = page_count * PAGE_SIZE; region = heap_base h + committed h in
     if committed h + num_bytes \<le> heap_max_size h then do {
       s \<leftarrow> grow_pages (map of_nat [0..<unat page_count]) region s;
       (h, m) \<leftarrow> insert_free_block_sorted (h\<lparr>committed := committed h + num_bytes\<rparr>) m region num_bytes;
       Some (h, m, s)
     } else None)"

definition KernelHeap_init :: "u64 \<Rightarrow> heap_state \<Rightarrow> heap_state option" where
  "KernelHeap_init initial_pages st = grow initial_pages st"

definition allocation_sizes :: "Layout \<Rightarrow> u64 \<times> u64" where
  "allocation_sizes l = (let align = layout_align l;
      data_offset = (AllocHeader_SIZE + align - 1) AND NOT (align - 1) in
      (data_offset + layout_size l, data_offset))"

text \<open>Taking the block cur, which follows prev in the list, for an allocation.\<close>

definition take_block :: "u64 \<Rightarrow> u64 \<Rightarrow> u64 \<Rightarrow> u64 \<Rightarrow> KernelHeap \<Rightarrow> memory \<Rightarrow> (u64 \<times> KernelHeap \<times> memory) option" where
  "take_block total_size data_offset prev cur h m = (
     let available = block_size m cur; nxt = block_next m cur;
         h = (if prev = 0 then h\<lparr>heap_free_list := nxt\<rparr> else h);
         m = (if prev = 0 then m else set_block_next m prev nxt);
         remaining = available - total_size in do {
       (h, m) \<leftarrow> (if FreeBlock_SIZE \<le> remaining then insert_free_block_sorted h m (cur + total_size) remaining else Some (h, m));
       let m = set_block_size m cur total_size;
       let m = set_block_next m cur data_offset;
       let data_ptr = cur + data_offset;
       let m = write_u64 m (data_ptr - 8) data_offset;
       Some (data_ptr, h, m)
     })"

definition pages_needed :: "u64 \<Rightarrow> u64" where
  "pages_needed total_size = max ((total_size + PAGE_SIZE - 1) div PAGE_SIZE) 4"

partial_function (option) allocate_loop :: "u64 \<Rightarrow> u64 \<Rightarrow> u64 \<Rightarrow> u64 \<Rightarrow> heap_state \<Rightarrow> (u64 \<times> heap_state) option" where
  "allocate_loop total_size data_offset prev cur st =
     (if cur = 0 then do {
        st \<leftarrow> grow (pages_needed total_size) st;
        allocate_loop total_size data_offset 0 (heap_free_list (fst st)) st
      } else if total_size \<le> block_size (fst (snd st)) cur then do {
        (p, h, m) \<leftarrow> take_block total_size data_offset prev cur (fst st) (fst (snd st));
        Some (p, h, m, snd (snd st))
      } else allocate_loop total_size data_offset cur (block_next (fst (snd st)) cur) st)"

definition allocate :: "Layout \<Rightarrow> heap_state \<Rightarrow> (u64 \<times> heap_state) option" where
  "allocate l st = (let (total_size, data_offset) = allocation_sizes l in
     allocate_loop total_size data_offset 0 (heap_free_list (fst st)) st)"

definition deallocate :: "u64 \<Rightarrow> heap_state \<Rightarrow> heap_state option" where
  "deallocate ptr st = (case st of (h, m, s) \<Rightarrow> do {
     let data_offset = read_u64 m (ptr - 8);
     let block_ptr = ptr - data_offset;
     let total_size = block_size m block_ptr;
     (h, m) \<leftarrow> insert_free_block_sorted h m block_ptr total_size;
     Some (h, m, s)
   })"

section \<open>The free list in memory\<close>

fun ordered :: "nat \<Rightarrow> nat \<Rightarrow> blocks \<Rightarrow> bool" where
  "ordered lo hi [] = True"
| "ordered lo hi ((b, n) # bs) = (lo \<le> b \<and> 16 \<le> n \<and> b + n \<le> hi \<and> ordered (b + n) hi bs)"

lemma ordered_mono: "ordered lo hi bs \<Longrightarrow> lo' \<le> lo \<Longrightarrow> ordered lo' hi bs"
  by (cases "(lo, hi, bs)" rule: ordered.cases) auto

lemma wf_ordered: "wf_blocks lo hi bs \<Longrightarrow> ordered lo hi bs"
  by (induction lo hi bs rule: wf_blocks.induct) (auto intro: ordered_mono)

lemma ordered_append: "ordered lo hi (us @ (b, n) # vs) \<longleftrightarrow> (us = [] \<or> ordered lo b us) \<and> lo \<le> b \<and> 16 \<le> n \<and> b + n \<le> hi \<and> ordered (b + n) hi vs"
proof (induction us arbitrary: lo)
  case Nil
  then show ?case by simp
next
  case (Cons x us)
  obtain c k where x: "x = (c, k)" by (cases x)
  show ?case unfolding x append_Cons ordered.simps Cons.IH by (cases us) auto
qed

lemma ordered_member: "ordered lo hi bs \<Longrightarrow> (c, k) \<in> set bs \<Longrightarrow> lo \<le> c \<and> 16 \<le> k \<and> c + k \<le> hi"
  by (induction lo hi bs rule: ordered.induct) fastforce+

fun lseg :: "memory \<Rightarrow> u64 \<Rightarrow> blocks \<Rightarrow> u64 \<Rightarrow> bool" where
  "lseg m a [] e = (a = e)"
| "lseg m a ((b, n) # bs) e = (a \<noteq> 0 \<and> unat a = b \<and> unat (block_size m a) = n \<and> lseg m (block_next m a) bs e)"

lemma lseg_append: "lseg m a (bs @ cs) e \<longleftrightarrow> (\<exists>x. lseg m a bs x \<and> lseg m x cs e)"
  by (induction m a bs e rule: lseg.induct) auto

lemma lseg_unat: "lseg m a ((unat b, n) # bs) e \<longleftrightarrow> a = b \<and> b \<noteq> 0 \<and> unat (block_size m b) = n \<and> lseg m (block_next m b) bs e"
  by (auto simp: word_unat_eq_iff [symmetric])

text \<open>Writes inside the header at one address leave the headers of the other blocks alone.\<close>

definition hdr_only :: "memory \<Rightarrow> memory \<Rightarrow> u64 \<Rightarrow> bool" where
  "hdr_only m m' b \<longleftrightarrow> (\<forall>c. unat c + 16 < 2 ^ 64 \<longrightarrow> unat c + 16 \<le> unat b \<or> unat b + 16 \<le> unat c \<longrightarrow>
     block_size m' c = block_size m c \<and> block_next m' c = block_next m c)"

lemma unat_plus8: "unat (b :: u64) + 16 < 2 ^ 64 \<Longrightarrow> unat (b + 8) = unat b + 8"
  by (subst unat_add_lem [THEN iffD1]) simp_all

lemma disj8_headers:
  assumes "unat (b :: u64) + 16 \<le> unat c" "unat c + 16 < 2 ^ 64"
  shows "disj8 b c \<and> disj8 b (c + 8) \<and> disj8 (b + 8) c \<and> disj8 (b + 8) (c + 8)"
  using assms unat_plus8 [of b] unat_plus8 [of c] by (intro conjI disj8I) simp_all

lemma hdr_only_write:
  assumes "unat b + 16 < 2 ^ 64"
  shows "hdr_only m (set_block_size m b v) b" "hdr_only m (set_block_next m b v) b"
proof -
  have "disj8 b c \<and> disj8 b (c + 8) \<and> disj8 (b + 8) c \<and> disj8 (b + 8) (c + 8)"
    if c: "unat c + 16 < 2 ^ 64" "unat c + 16 \<le> unat b \<or> unat b + 16 \<le> unat c" for c
    using c(2) disj8_headers [of b c] disj8_headers [of c b] c(1) assms by (auto intro: disj8_sym)
  then show "hdr_only m (set_block_size m b v) b" "hdr_only m (set_block_next m b v) b"
    by (simp_all add: hdr_only_def block_size_def block_next_def set_block_size_def set_block_next_def read_write_other)
qed

lemma hdr_only_trans: "hdr_only m m' b \<Longrightarrow> hdr_only m' m'' b \<Longrightarrow> hdr_only m m'' b"
  by (simp add: hdr_only_def)

lemma lseg_other:
  assumes "hdr_only m m' b" "hi < 2 ^ 64" "ordered lo hi bs" "\<And>c k. (c, k) \<in> set bs \<Longrightarrow> c + 16 \<le> unat b \<or> unat b + 16 \<le> c"
  shows "lseg m' a bs e = lseg m a bs e"
  using assms(3,4)
proof (induction bs arbitrary: lo a)
  case Nil
  then show ?case by simp
next
  case (Cons x bs)
  obtain c k where x: "x = (c, k)" by (cases x)
  have ord: "16 \<le> k" "c + k \<le> hi" "ordered (c + k) hi bs" using Cons.prems(1) x by simp_all
  have far: "c' + 16 \<le> unat b \<or> unat b + 16 \<le> c'" if "(c', k') \<in> set bs" for c' k'
    by (rule Cons.prems(2) [of c' k']) (simp add: that)
  have IH: "lseg m' a bs e = lseg m a bs e" for a by (rule Cons.IH [OF ord(3) far])
  have c: "c + 16 \<le> unat b \<or> unat b + 16 \<le> c" by (rule Cons.prems(2) [of c k]) (simp add: x)
  have c64: "c + 16 < 2 ^ 64" using ord(1,2) assms(2) by linarith
  have "block_size m' a = block_size m a \<and> block_next m' a = block_next m a" if "unat a = c"
    using assms(1) c c64 that unfolding hdr_only_def by blast
  then show ?case unfolding x lseg.simps IH by (cases "unat a = c") simp_all
qed

lemma own_header:
  assumes "unat b + 16 < 2 ^ 64"
  shows "block_size (set_block_size m b v) b = v" "block_next (set_block_next m b v) b = v"
    "block_size (set_block_next m b v) b = block_size m b" "block_next (set_block_size m b v) b = block_next m b"
proof -
  have d: "disj8 b (b + 8)" using unat_plus8 [OF assms] assms by (intro disj8I) simp_all
  show "block_size (set_block_size m b v) b = v" "block_next (set_block_next m b v) b = v"
    "block_size (set_block_next m b v) b = block_size m b" "block_next (set_block_size m b v) b = block_next m b"
    using d disj8_sym [OF d] by (simp_all add: block_size_def block_next_def set_block_size_def set_block_next_def read_write_other)
qed

text \<open>Replacing the header of one block of the list.\<close>

lemma lseg_relink:
  assumes seg: "lseg m a (us @ (unat b, n) # vs) e" and ord: "ordered lo hi (us @ (unat b, n) # vs)" and hi: "hi < 2 ^ 64"
    and hdr: "hdr_only m m' b" "unat (block_size m' b) = n'" "16 \<le> n'" and tl: "lseg m (block_next m' b) ws e'"
    and ws: "ordered (unat b + n) hi ws"
  shows "lseg m' a (us @ (unat b, n') # ws) e'"
proof -
  have o: "us = [] \<or> ordered lo (unat b) us" "16 \<le> n" "unat b + n \<le> hi" using ord unfolding ordered_append by simp_all
  from seg have x: "lseg m a us b" "b \<noteq> 0" unfolding lseg_append lseg_unat by auto
  have us: "c + 16 \<le> unat b" if "(c, k) \<in> set us" for c k using o(1) ordered_member [of lo "unat b" us c k] that by fastforce
  have "lseg m' a us b"
  proof (cases "us = []")
    case True
    then show ?thesis using x(1) by simp
  next
    case False
    have "unat b < 2 ^ 64" using unsigned_less [of b] by simp
    then show ?thesis using False o(1) us x(1) lseg_other [OF hdr(1), of "unat b" lo us a b] by blast
  qed
  moreover have "lseg m' (block_next m' b) ws e'"
  proof (subst lseg_other [OF hdr(1) hi ws])
    show "c + 16 \<le> unat b \<or> unat b + 16 \<le> c" if "(c, k) \<in> set ws" for c k
      using ordered_member [OF ws that] o(2) by simp
  qed (rule tl)
  ultimately show ?thesis unfolding lseg_append lseg_unat using x(2) hdr(2) by auto
qed

lemma absorb_header:
  assumes "unat b + 16 < 2 ^ 64" "unat b + 16 \<le> unat c" "unat c + 16 < 2 ^ 64"
  shows "hdr_only m (absorb m b c) b" "block_size (absorb m b c) b = block_size m b + block_size m c"
    "block_next (absorb m b c) b = block_next m c"
proof -
  let ?m = "set_block_size m b (block_size m b + block_size m c)"
  have h: "hdr_only m ?m b" by (rule hdr_only_write [OF assms(1)])
  then show "hdr_only m (absorb m b c) b"
    using hdr_only_trans [OF h] hdr_only_write(2) [OF assms(1)] by (simp add: absorb_def Let_def)
  show "block_size (absorb m b c) b = block_size m b + block_size m c" "block_next (absorb m b c) b = block_next m c"
    using h assms by (simp_all add: absorb_def own_header Let_def hdr_only_def)
qed

lemma lseg_absorb:
  assumes seg: "lseg m a (us @ (unat b, n) # (unat c, k) # vs) e" and ord: "ordered lo hi (us @ (unat b, n) # (unat c, k) # vs)"
    and hi: "hi < 2 ^ 64" and adj: "unat b + n = unat c"
  shows "lseg (absorb m b c) a (us @ (unat b, n + k) # vs) e" "ordered lo hi (us @ (unat b, n + k) # vs)"
proof -
  have o: "16 \<le> n" "16 \<le> k" "unat c + k \<le> hi" "ordered (unat c + k) hi vs" using ord unfolding ordered_append by simp_all
  from seg have bc: "block_next m b = c" "unat (block_size m b) = n" "unat (block_size m c) = k" "lseg m (block_next m c) vs e"
    unfolding lseg_append lseg_unat by auto
  have bd: "unat b + 16 < 2 ^ 64" "unat b + 16 \<le> unat c" "unat c + 16 < 2 ^ 64" using o hi adj by simp_all
  note ab = absorb_header [OF bd, of m]
  have sz: "unat (block_size (absorb m b c) b) = n + k" unfolding ab(2)
    using bc(2,3) o hi adj by (subst unat_add_lem [THEN iffD1]) simp_all
  show "lseg (absorb m b c) a (us @ (unat b, n + k) # vs) e"
  proof (rule lseg_relink [OF seg ord hi ab(1) sz])
    show "16 \<le> n + k" using o(1) by simp
    show "lseg m (block_next (absorb m b c) b) vs e" using bc(4) ab(3) by simp
    show "ordered (unat b + n) hi vs" using ordered_mono [OF o(4), of "unat c"] adj by simp
  qed
  have e: "unat b + (n + k) = unat c + k" using adj by simp
  show "ordered lo hi (us @ (unat b, n + k) # vs)" using ord o unfolding ordered_append e by simp
qed

section \<open>Insertion\<close>

definition addr_of :: "blocks \<Rightarrow> u64" where
  "addr_of bs = (case bs of [] \<Rightarrow> 0 | b # _ \<Rightarrow> of_nat (fst b))"

lemma lseg_addr: "lseg m a bs 0 \<Longrightarrow> a = addr_of bs"
  by (cases "(m, a, bs, 0 :: u64)" rule: lseg.cases) (auto simp: addr_of_def)

lemma insert_walk_ok:
  assumes "lseg m nxt (us @ vs) 0" "\<forall>c\<in>set us. fst c < unat ptr" "vs = [] \<or> unat ptr \<le> fst (hd vs)"
  shows "insert_walk m ptr prev nxt = Some (if us = [] then prev else of_nat (fst (last us)), addr_of vs)"
  using assms(1,2)
proof (induction us arbitrary: prev nxt)
  case Nil
  have "nxt = addr_of vs" using lseg_addr Nil by simp
  moreover have "nxt = 0 \<or> \<not> nxt < ptr"
    using Nil assms(3) by (cases "(m, nxt, vs, 0 :: u64)" rule: lseg.cases) (auto simp: word_less_nat_alt)
  ultimately show ?case by (subst insert_walk.simps) auto
next
  case (Cons x us)
  obtain c k where x: "x = (c, k)" by (cases x)
  have n: "nxt \<noteq> 0" "nxt = of_nat c" "nxt < ptr" "lseg m (block_next m nxt) (us @ vs) 0"
    using Cons.prems x by (auto simp: word_less_nat_alt)
  show ?case using Cons.IH [OF n(4), of nxt] Cons.prems(2) x n by (subst insert_walk.simps) simp
qed

text \<open>Memories that agree outside a set of addresses.\<close>

definition agree :: "nat set \<Rightarrow> memory \<Rightarrow> memory \<Rightarrow> bool" where
  "agree S m m' \<longleftrightarrow> (\<forall>a. unat a \<notin> S \<longrightarrow> m' a = m a)"

lemma agree_refl [simp]: "agree S m m"
  by (simp add: agree_def)

lemma agree_trans: "agree S m m' \<Longrightarrow> agree S m' m'' \<Longrightarrow> agree S m m''"
  by (simp add: agree_def)

lemma agree_mono: "agree S m m' \<Longrightarrow> S \<subseteq> T \<Longrightarrow> agree T m m'"
  by (auto simp: agree_def)

lemma agree_write:
  assumes "unat a + 8 \<le> 2 ^ 64"
  shows "agree {unat a..<unat a + 8} m (write_u64 m a v)"
  unfolding agree_def
proof (intro allI impI)
  fix x :: u64 assume x: "unat x \<notin> {unat a..<unat a + 8}"
  have "8 \<le> unat (x - a)"
  proof (cases "unat x < unat a")
    case True
    then have "unat (x - a) = 2 ^ 64 + unat x - unat a" by (simp add: unat_sub_if')
    then show ?thesis using assms by simp
  next
    case False
    then show ?thesis using x by (simp add: unat_sub_if')
  qed
  then show "write_u64 m a v x = m x" by (rule write_u64_byte)
qed

lemma agree_header:
  assumes "unat b + 16 < 2 ^ 64"
  shows "agree {unat b..<unat b + 16} m (set_block_size m b v)" "agree {unat b..<unat b + 16} m (set_block_next m b v)"
  using agree_write [of b m v] agree_write [of "b + 8" m v] unat_plus8 [OF assms] assms
  by (auto simp: set_block_size_def set_block_next_def intro: agree_mono)

lemma agree_absorb:
  assumes "unat b + 16 < 2 ^ 64"
  shows "agree {unat b..<unat b + 16} m (absorb m b c)"
  unfolding absorb_def Let_def by (rule agree_trans [OF agree_header(1) agree_header(2)]) (rule assms)+

lemma ordered_insert:
  assumes "ordered lo hi (us @ vs)" "\<forall>c\<in>set us. fst c < p" "vs = [] \<or> p \<le> fst (hd vs)"
    "lo \<le> p" "p + n \<le> hi" "16 \<le> n" "{p..<p + n} \<inter> bytes (us @ vs) = {}"
  shows "ordered lo hi (us @ (p, n) # vs)"
  using assms(1,2,4,7)
proof (induction us arbitrary: lo)
  case Nil
  show ?case
  proof (cases vs)
    case Nil
    then show ?thesis using assms(5,6) Nil.prems by simp
  next
    case (Cons x ws)
    obtain c k where x: "x = (c, k)" by (cases x)
    have "{p..<p + n} \<inter> {c..<c + k} = {}" using Nil.prems(4) unfolding Cons x append_Nil bytes_simps by blast
    moreover have vs: "16 \<le> k" "c + k \<le> hi" "ordered (c + k) hi ws" "p \<le> c" using Nil.prems(1) assms(3) Cons x by simp_all
    ultimately have "p + n \<le> c" using apartD [OF _ assms(6), of p c k] by linarith
    then show ?thesis using vs Nil.prems(3) assms(5,6) unfolding Cons x by simp
  qed
next
  case (Cons x us)
  obtain c k where x: "x = (c, k)" by (cases x)
  have o: "lo \<le> c" "16 \<le> k" "c + k \<le> hi" "ordered (c + k) hi (us @ vs)" using Cons.prems(1) x by simp_all
  have lt: "c < p" "\<forall>c\<in>set us. fst c < p" using Cons.prems(2) x by simp_all
  have dj: "{p..<p + n} \<inter> {c..<c + k} = {}" "{p..<p + n} \<inter> bytes (us @ vs) = {}"
    using Cons.prems(4) unfolding x append_Cons bytes_simps by blast+
  have "c + k \<le> p" using apartD [OF dj(1) assms(6) o(2)] lt(1) by linarith
  then show ?case using Cons.IH [OF o(4) lt(2) _ dj(2)] o unfolding x by simp
qed

lemma add_block_split:
  assumes "wf_blocks lo hi (us @ vs)" "\<forall>c\<in>set us. fst c < p" "vs = [] \<or> p \<le> fst (hd vs)"
  shows "add_block p n (us @ vs) =
    (if us = [] then join p n vs else butlast us @ join (fst (last us)) (snd (last us)) (join p n vs))"
  using assms(1,2)
proof (induction us arbitrary: lo)
  case Nil
  then show ?case using assms(3) by (cases vs) auto
next
  case (Cons x us)
  obtain c k where x: "x = (c, k)" by (cases x)
  have IH: "add_block p n (us @ vs) = (if us = [] then join p n vs else butlast us @ join (fst (last us)) (snd (last us)) (join p n vs))"
    using Cons.IH [of "c + k + 1"] Cons.prems x by simp
  show ?case
  proof (cases us)
    case Nil
    then show ?thesis using IH Cons.prems x by simp
  next
    case (Cons y ws)
    obtain d l where y: "y = (d, l)" by (cases y)
    have gap: "c + k \<noteq> d" using Cons.prems(1) Cons x y by simp
    have "\<exists>l' zs. add_block p n (us @ vs) = (d, l') # zs"
      unfolding IH using Cons y by (cases ws; cases "join p n vs") auto
    then show ?thesis using IH gap Cons.prems(2) Cons x by auto
  qed
qed

end
