(* ===== verification/Heap_Insert.thy ===== *)
theory Heap_Insert
  imports Kernel_Heap
begin

text \<open>
  Insertion into the free list refines the joining insertion on block lists, and
  touches only headers of free blocks and of the block inserted.
\<close>

section \<open>Linking the new block\<close>

definition link_block :: "KernelHeap \<Rightarrow> memory \<Rightarrow> u64 \<Rightarrow> u64 \<Rightarrow> u64 \<Rightarrow> u64 \<Rightarrow> KernelHeap \<times> memory" where
  "link_block h m ptr total_size prev nxt =
     (let m = set_block_next (set_block_size m ptr total_size) ptr nxt in
      (if prev = 0 then h\<lparr>heap_free_list := ptr\<rparr> else h, if prev = 0 then m else set_block_next m prev ptr))"

lemma insert_free_block_sorted_link:
  "insert_free_block_sorted h m ptr total_size =
     (if total_size < FreeBlock_SIZE then None else do {
        (prev, nxt) \<leftarrow> insert_walk m ptr 0 (heap_free_list h);
        let (h, m) = link_block h m ptr total_size prev nxt;
        let m = (if nxt \<noteq> 0 \<and> ptr + block_size m ptr = nxt then absorb m ptr nxt else m);
        let m = (if prev \<noteq> 0 \<and> prev + block_size m prev = ptr then absorb m prev ptr else m);
        Some (h, m)
      })"
  by (simp add: insert_free_block_sorted_def link_block_def Let_def)

text \<open>The address before which a list of lower blocks ends.\<close>

definition last_addr :: "blocks \<Rightarrow> u64" where
  "last_addr us = (if us = [] then 0 else of_nat (fst (last us)))"

lemma ordered_last:
  assumes "ordered lo hi (us @ vs)" "us \<noteq> []" "hi < 2 ^ 64" "0 < lo"
  obtains us' q k where "us = us' @ [(unat q, k)]" "last_addr us = q" "q \<noteq> 0" "unat q + 16 < 2 ^ 64" "16 \<le> k"
proof -
  obtain us' c k where us: "us = us' @ [(c, k)]" using assms(2) by (metis append_butlast_last_id surj_pair)
  have c: "lo \<le> c" "16 \<le> k" "c + k \<le> hi" using ordered_member [OF assms(1), of c k] us by auto
  then have "c < 2 ^ 64" using assms(3) by linarith
  then have u: "unat (of_nat c :: u64) = c" by (simp add: unat_of_nat)
  show ?thesis
  proof (rule that [of us' "of_nat c" k])
    show "us = us' @ [(unat (of_nat c :: u64), k)]" using us u by simp
    show "last_addr us = of_nat c" using us by (simp add: last_addr_def)
    show "(of_nat c :: u64) \<noteq> 0" using u c(1) assms(4) by (metis gr_implies_not0 le_zero_eq unat_0)
    show "unat (of_nat c :: u64) + 16 < 2 ^ 64" using u c assms(3) by linarith
  qed (rule c(2))
qed

lemma new_header:
  assumes "unat p + 16 < 2 ^ 64" "m1 = set_block_next (set_block_size m p n) p x"
  shows "hdr_only m m1 p" "block_size m1 p = n" "block_next m1 p = x" "agree {unat p..<unat p + 16} m m1"
proof -
  show "hdr_only m m1 p" unfolding assms(2)
    by (rule hdr_only_trans [OF hdr_only_write(1) hdr_only_write(2)]) (rule assms(1))+
  show "block_size m1 p = n" "block_next m1 p = x" unfolding assms(2) using own_header [OF assms(1)] by simp_all
  show "agree {unat p..<unat p + 16} m m1" unfolding assms(2)
    by (rule agree_trans [OF agree_header(1) agree_header(2)]) (rule assms(1))+
qed

lemma link_block_ok:
  assumes seg: "lseg m (heap_free_list h) (us @ vs) 0" and ord: "ordered lo hi (us @ (unat p, unat n) # vs)"
    and hi: "hi < 2 ^ 64" "0 < lo" and r: "link_block h m p n (last_addr us) (addr_of vs) = (h', m')"
  shows "lseg m' (heap_free_list h') (us @ (unat p, unat n) # vs) 0" "h' = h\<lparr>heap_free_list := heap_free_list h'\<rparr>"
    "agree (bytes (us @ vs) \<union> {unat p..<unat p + unat n}) m m'" "block_size m' p = n"
proof -
  have o: "us = [] \<or> ordered lo (unat p) us" "lo \<le> unat p" "16 \<le> unat n" "unat p + unat n \<le> hi" "ordered (unat p + unat n) hi vs"
    using ord unfolding ordered_append by simp_all
  have pb: "unat p + 16 < 2 ^ 64" "p \<noteq> 0" using o hi by auto
  define m1 where "m1 = set_block_next (set_block_size m p n) p (addr_of vs)"
  note hd = new_header(1) [OF pb(1) m1_def] and own = new_header(2,3) [OF pb(1) m1_def] and ag = new_header(4) [OF pb(1) m1_def]
  obtain x where x: "lseg m (heap_free_list h) us x" "lseg m x vs 0" using seg unfolding lseg_append by blast
  then have xa: "x = addr_of vs" using lseg_addr by blast
  have "lseg m1 (addr_of vs) vs 0"
  proof (subst lseg_other [OF hd hi(1) o(5)])
    show "c + 16 \<le> unat p \<or> unat p + 16 \<le> c" if "(c, k) \<in> set vs" for c k using ordered_member [OF o(5) that] o(3) by simp
  qed (use x xa in simp)
  then have p1: "lseg m1 p ((unat p, unat n) # vs) 0" using own pb by (simp add: lseg_unat)
  have op: "ordered (unat p) hi ((unat p, unat n) # vs)" using o by simp
  have sub: "{unat p..<unat p + 16} \<subseteq> bytes (us @ vs) \<union> {unat p..<unat p + unat n}" using o(3) by auto
  have "lseg m' (heap_free_list h') (us @ (unat p, unat n) # vs) 0 \<and> h' = h\<lparr>heap_free_list := heap_free_list h'\<rparr> \<and>
    agree (bytes (us @ vs) \<union> {unat p..<unat p + unat n}) m m' \<and> block_size m' p = n"
  proof (cases "us = []")
    case True
    then have "h' = h\<lparr>heap_free_list := p\<rparr>" "m' = m1" using r by (auto simp: link_block_def last_addr_def m1_def Let_def)
    then show ?thesis using True p1 own(1) agree_mono [OF ag sub] by simp
  next
    case False
    have olo: "ordered lo (unat p) us" and ordus: "ordered lo hi (us @ [(unat p, unat n)] @ vs)" using o(1) ord False by simp_all
    obtain us' q k where q: "us = us' @ [(unat q, k)]" "last_addr us = q" "q \<noteq> 0" "unat q + 16 < 2 ^ 64" "16 \<le> k"
      using ordered_last [OF ordus False hi] by blast
    have h': "h' = h" "m' = set_block_next m1 q p" using r q(2,3) by (auto simp: link_block_def m1_def Let_def)
    have pl: "unat p < 2 ^ 64" using pb(1) by simp
    have far: "c + 16 \<le> unat p \<or> unat p + 16 \<le> c" if "(c, j) \<in> set us" for c j using ordered_member [OF olo that] by simp
    have u1: "lseg m1 (heap_free_list h) (us' @ (unat q, k) # []) x" using lseg_other [OF hd pl olo far] x(1) q(1) by simp
    have qp: "unat q + k \<le> unat p" using ordered_member [OF olo, of "unat q" k] q(1) by simp
    have "unat (block_size m1 q) = k" using u1 unfolding lseg_append lseg_unat by blast
    then have hdq: "hdr_only m1 m' q" "unat (block_size m' q) = k" "block_next m' q = p"
      unfolding h'(2) using hdr_only_write(2) [OF q(4)] own_header [OF q(4)] by simp_all
    have "lseg m' (heap_free_list h) (us' @ (unat q, k) # (unat p, unat n) # vs) 0"
      by (rule lseg_relink [OF u1 _ hi(1) hdq(1,2) q(5), of lo]) (use olo ordered_mono [OF op qp] p1 hdq(3) q(1) o hi in \<open>auto simp: ordered_append\<close>)
    moreover have "{unat q..<unat q + 16} \<subseteq> bytes (us @ vs) \<union> {unat p..<unat p + unat n}" using q(1,5) by auto
    then have "agree (bytes (us @ vs) \<union> {unat p..<unat p + unat n}) m1 m'"
      using agree_mono [OF agree_header(2) [OF q(4)]] h'(2) by blast
    moreover have "block_size m' p = n" using hdq(1) own(1) qp q(5) pb(1) unfolding hdr_only_def by auto
    ultimately show ?thesis using h'(1) q(1) agree_trans [OF agree_mono [OF ag sub]] by simp
  qed
  then show "lseg m' (heap_free_list h') (us @ (unat p, unat n) # vs) 0" "h' = h\<lparr>heap_free_list := heap_free_list h'\<rparr>"
    "agree (bytes (us @ vs) \<union> {unat p..<unat p + unat n}) m m'" "block_size m' p = n" by blast+
qed

section \<open>Merging\<close>

definition merge_next :: "memory \<Rightarrow> u64 \<Rightarrow> u64 \<Rightarrow> memory" where
  "merge_next m b c = (if c \<noteq> 0 \<and> b + block_size m b = c then absorb m b c else m)"

lemma merge_next_ok:
  assumes seg: "lseg m a (us @ (unat b, n) # vs) 0" and ord: "ordered lo hi (us @ (unat b, n) # vs)" and hi: "hi < 2 ^ 64" "0 < lo"
    and m': "m' = merge_next m b (addr_of vs)"
  shows "lseg m' a (us @ join (unat b) n vs) 0 \<and> ordered lo hi (us @ join (unat b) n vs) \<and> agree {unat b..<unat b + n} m m'"
proof -
  have o: "16 \<le> n" "unat b + n \<le> hi" "ordered (unat b + n) hi vs" using ord unfolding ordered_append by simp_all
  have bb: "unat b + 16 < 2 ^ 64" using o hi by linarith
  have s: "unat (block_size m b) = n" "lseg m (block_next m b) vs 0" using seg unfolding lseg_append lseg_unat by blast+
  have ag: "agree {unat b..<unat b + n} m (absorb m b c)" for c by (rule agree_mono [OF agree_absorb [OF bb]]) (use o(1) in auto)
  show ?thesis
  proof (cases vs)
    case Nil
    then show ?thesis using seg ord m' by (simp add: merge_next_def addr_of_def)
  next
    case (Cons x ws)
    define c where "c = addr_of vs"
    have c: "c \<noteq> 0" "x = (unat c, snd x)" using lseg_addr [OF s(2)] s(2) Cons by (cases x, simp_all add: c_def)+
    have e: "unat (b + block_size m b) = unat b + n" using s(1) o hi by (subst unat_add_lem [THEN iffD1]) simp_all
    have adj: "b + block_size m b = c \<longleftrightarrow> unat b + n = unat c" unfolding word_unat_eq_iff e ..
    have vs: "vs = (unat c, snd x) # ws" using Cons c(2) by simp
    show ?thesis
    proof (cases "unat b + n = unat c")
      case True
      then have "m' = absorb m b c" using m' c(1) adj by (simp add: merge_next_def c_def)
      moreover have "join (unat b) n vs = (unat b, n + snd x) # ws" using True vs by simp
      ultimately show ?thesis using lseg_absorb [OF seg [unfolded vs] ord [unfolded vs] hi(1) True] ag by simp
    next
      case False
      then have "m' = m" using m' adj by (simp add: merge_next_def c_def)
      moreover have "join (unat b) n vs = (unat b, n) # vs" using False vs by simp
      ultimately show ?thesis using seg ord by simp
    qed
  qed
qed

lemma addr_of_join [simp]: "addr_of (join (unat b) n vs) = b"
  by (cases vs) (auto simp: addr_of_def)

section \<open>Insertion\<close>

lemma insert_free_block_sorted_ok:
  assumes seg: "lseg m (heap_free_list h) bs 0" and wf: "wf_blocks lo hi bs" and hi: "hi < 2 ^ 64" "0 < lo"
    and p: "lo \<le> unat p" "unat p + unat n \<le> hi" "16 \<le> unat n" "{unat p..<unat p + unat n} \<inter> bytes bs = {}"
  shows "\<exists>h' m'. insert_free_block_sorted h m p n = Some (h', m') \<and> h' = h\<lparr>heap_free_list := heap_free_list h'\<rparr> \<and>
    lseg m' (heap_free_list h') (add_block (unat p) (unat n) bs) 0 \<and> agree (bytes bs \<union> {unat p..<unat p + unat n}) m m'"
proof -
  define us vs where "us = takeWhile (\<lambda>c. fst c < unat p) bs" and "vs = dropWhile (\<lambda>c. fst c < unat p) bs"
  have bs: "bs = us @ vs" by (simp add: us_def vs_def)
  have lt: "\<forall>c\<in>set us. fst c < unat p" unfolding us_def by (auto dest: set_takeWhileD)
  have lt2: "vs = [] \<or> unat p \<le> fst (hd vs)" unfolding vs_def using hd_dropWhile [of "\<lambda>c. fst c < unat p" bs] not_less by blast
  let ?S = "bytes bs \<union> {unat p..<unat p + unat n}"
  have ord: "ordered lo hi (us @ (unat p, unat n) # vs)"
    by (rule ordered_insert [OF _ lt lt2 p(1-3)]) (use wf_ordered [OF wf] p(4) bs in simp_all)
  obtain h1 m1 where l: "link_block h m p n (last_addr us) (addr_of vs) = (h1, m1)" by fastforce
  note lk = link_block_ok [OF seg [unfolded bs] ord hi l]
  define m2 where "m2 = merge_next m1 p (addr_of vs)"
  note st2 = merge_next_ok [OF lk(1) ord hi m2_def]
  define m3 where "m3 = (if last_addr us \<noteq> 0 \<and> last_addr us + block_size m2 (last_addr us) = p then absorb m2 (last_addr us) p else m2)"
  have "p \<noteq> 0" using p(1) hi(2) by auto
  have st3: "lseg m3 (heap_free_list h1) (add_block (unat p) (unat n) bs) 0 \<and> agree ?S m2 m3"
  proof (cases "us = []")
    case True
    then show ?thesis using st2 add_block_split [OF wf [unfolded bs] lt lt2] bs by (simp add: m3_def last_addr_def)
  next
    case False
    obtain us' q k where q: "us = us' @ [(unat q, k)]" "last_addr us = q" "q \<noteq> 0"
      using ordered_last [OF ord False hi] by blast
    have "m3 = merge_next m2 q (addr_of (join (unat p) (unat n) vs))" using q \<open>p \<noteq> 0\<close> by (simp add: m3_def merge_next_def)
    then have "lseg m3 (heap_free_list h1) (us' @ join (unat q) k (join (unat p) (unat n) vs)) 0 \<and> agree {unat q..<unat q + k} m2 m3"
      using merge_next_ok [of m2 "heap_free_list h1" us' q k "join (unat p) (unat n) vs" lo hi m3] st2 q(1) hi by simp
    moreover have "{unat q..<unat q + k} \<subseteq> ?S" using bs q(1) by auto
    ultimately show ?thesis using add_block_split [OF wf [unfolded bs] lt lt2] bs q(1) by (auto intro: agree_mono)
  qed
  have walk: "insert_walk m p 0 (heap_free_list h) = Some (last_addr us, addr_of vs)"
    using insert_walk_ok [OF seg [unfolded bs] lt lt2] by (simp add: last_addr_def)
  have "\<not> n < FreeBlock_SIZE" using p(3) by (simp add: FreeBlock_SIZE_def word_less_nat_alt)
  then have "insert_free_block_sorted h m p n = Some (h1, m3)"
    using walk l by (simp add: insert_free_block_sorted_link Let_def m3_def m2_def merge_next_def)
  moreover have "agree ?S m1 m2" using st2 agree_mono [of _ m1 m2 ?S] by blast
  then have "agree ?S m m3" using agree_trans lk(3) [folded bs] st3 by blast
  ultimately show ?thesis using lk(2) st3 by blast
qed

end
