(* ===== verification/Heap_Alloc.thy ===== *)
theory Heap_Alloc
  imports Heap_Insert
begin

text \<open>
  Allocation and release on the kernel heap: first fit with splitting, growth when
  nothing fits, and the recovery of the block from the pointer alone.
\<close>

section \<open>The invariant\<close>

definition heap_inv :: "KernelHeap \<Rightarrow> memory \<Rightarrow> blocks \<Rightarrow> bool" where
  "heap_inv h m bs \<longleftrightarrow> lseg m (heap_free_list h) bs 0 \<and>
     wf_blocks (unat (heap_base h)) (unat (heap_base h) + unat (committed h)) bs \<and> 0 < unat (heap_base h) \<and>
     unat (heap_base h) + unat (heap_max_size h) < 2 ^ 64 \<and> unat (heap_max_size h) \<le> 2 ^ 62 \<and>
     unat (committed h) \<le> unat (heap_max_size h)"

abbreviation heap_end :: "KernelHeap \<Rightarrow> nat" where
  "heap_end h \<equiv> unat (heap_base h) + unat (committed h)"

lemma heap_invD:
  assumes "heap_inv h m bs"
  shows "lseg m (heap_free_list h) bs 0" "wf_blocks (unat (heap_base h)) (heap_end h) bs" "heap_end h < 2 ^ 64" "0 < unat (heap_base h)"
  using assms by (auto simp: heap_inv_def)

lemma read_u64_agree:
  assumes "agree S m m'" "unat a + 8 \<le> 2 ^ 64" "{unat a..<unat a + 8} \<inter> S = {}"
  shows "read_u64 m' a = read_u64 m a"
proof -
  have "m' (a + of_nat i) = m (a + of_nat i)" if "i < 8" for i
  proof -
    have "unat (a + of_nat i) = unat a + i" using assms(2) that by (subst unat_add_lem [THEN iffD1]) (simp_all add: unat_of_nat)
    then have "unat (a + of_nat i) \<in> {unat a..<unat a + 8}" using that by simp
    then show ?thesis using assms(1,3) unfolding agree_def by blast
  qed
  from this [of 0] this [of 1] this [of 2] this [of 3] this [of 4] this [of 5] this [of 6] this [of 7]
  show ?thesis by (simp add: read_u64_def)
qed

lemma disjoint_sub: "B \<inter> S = {} \<Longrightarrow> A \<subseteq> B \<Longrightarrow> A \<inter> S = {}"
  by blast

lemma header_agree:
  assumes "agree S m m'" "unat a + 16 < 2 ^ 64" "{unat a..<unat a + 16} \<inter> S = {}"
  shows "block_size m' a = block_size m a" "block_next m' a = block_next m a"
proof -
  have "{unat a..<unat a + 8} \<inter> S = {}" "{unat (a + 8)..<unat (a + 8) + 8} \<inter> S = {}"
    using unat_plus8 [OF assms(2)] by (auto intro!: disjoint_sub [OF assms(3)])
  then show "block_size m' a = block_size m a" "block_next m' a = block_next m a"
    using read_u64_agree [OF assms(1)] unat_plus8 [OF assms(2)] assms(2) by (simp_all add: block_size_def block_next_def)
qed

lemma lseg_agree:
  assumes "agree S m m'" "hi < 2 ^ 64" "ordered lo hi bs" "bytes bs \<inter> S = {}"
  shows "lseg m' a bs e = lseg m a bs e"
  using assms(3,4)
proof (induction bs arbitrary: lo a)
  case Nil
  then show ?case by simp
next
  case (Cons x bs)
  obtain c k where x: "x = (c, k)" by (cases x)
  have o: "16 \<le> k" "c + k \<le> hi" "ordered (c + k) hi bs" using Cons.prems(1) x by simp_all
  have dj: "{c..<c + k} \<inter> S = {}" "bytes bs \<inter> S = {}" using Cons.prems(2) unfolding x bytes_simps by blast+
  have c: "c + 16 < 2 ^ 64" "{c..<c + 16} \<inter> S = {}" using o assms(2) by (auto intro!: disjoint_sub [OF dj(1)])
  have IH: "lseg m' a bs e = lseg m a bs e" for a by (rule Cons.IH [OF o(3) dj(2)])
  have "block_size m' a = block_size m a" "block_next m' a = block_next m a" if "unat a = c"
    using header_agree [OF assms(1), of a] c that by simp_all
  then show ?case unfolding x lseg.simps IH by (cases "unat a = c") simp_all
qed

lemma heap_inv_agree:
  assumes "heap_inv h m bs" "agree S m m'" "bytes bs \<inter> S = {}"
  shows "heap_inv h m' bs"
proof -
  note d = heap_invD [OF assms(1)]
  have "lseg m' (heap_free_list h) bs 0" using lseg_agree [OF assms(2) d(3) wf_ordered [OF d(2)] assms(3)] d(1) by blast
  then show ?thesis using assms(1) unfolding heap_inv_def by (elim conjE, intro conjI)
qed

lemma heap_inv_insert:
  assumes inv: "heap_inv h m bs" and p: "unat (heap_base h) \<le> unat p" "unat p + unat n \<le> heap_end h" "16 \<le> unat n"
    "{unat p..<unat p + unat n} \<inter> bytes bs = {}"
  shows "\<exists>h' m'. insert_free_block_sorted h m p n = Some (h', m') \<and> h' = h\<lparr>heap_free_list := heap_free_list h'\<rparr> \<and>
    heap_inv h' m' (add_block (unat p) (unat n) bs) \<and> agree (bytes bs \<union> {unat p..<unat p + unat n}) m m'"
proof -
  note d = heap_invD [OF inv]
  obtain h' m' where r: "insert_free_block_sorted h m p n = Some (h', m')" "h' = h\<lparr>heap_free_list := heap_free_list h'\<rparr>"
      "lseg m' (heap_free_list h') (add_block (unat p) (unat n) bs) 0" "agree (bytes bs \<union> {unat p..<unat p + unat n}) m m'"
    using insert_free_block_sorted_ok [OF d p] by blast
  have same: "heap_base h' = heap_base h" "heap_max_size h' = heap_max_size h" "committed h' = committed h"
    using arg_cong [OF r(2), of heap_base] arg_cong [OF r(2), of heap_max_size] arg_cong [OF r(2), of committed] by simp_all
  have "heap_inv h' m' (add_block (unat p) (unat n) bs)"
    using inv r(3) wf_add_block [OF d(2) p] unfolding heap_inv_def same by (elim conjE, intro conjI)
  then show ?thesis using r by blast
qed

section \<open>Taking a block\<close>

definition unlink :: "u64 \<Rightarrow> u64 \<Rightarrow> KernelHeap \<Rightarrow> memory \<Rightarrow> KernelHeap \<times> memory" where
  "unlink prev cur h m = (if prev = 0 then h\<lparr>heap_free_list := block_next m cur\<rparr> else h,
     if prev = 0 then m else set_block_next m prev (block_next m cur))"

definition write_header :: "memory \<Rightarrow> u64 \<Rightarrow> u64 \<Rightarrow> u64 \<Rightarrow> memory" where
  "write_header m cur total_size data_offset =
     write_u64 (set_block_next (set_block_size m cur total_size) cur data_offset) (cur + data_offset - 8) data_offset"

lemma take_block_parts:
  "take_block total_size data_offset prev cur h m = (let (h1, m1) = unlink prev cur h m; remaining = block_size m cur - total_size in do {
     (h2, m2) \<leftarrow> (if FreeBlock_SIZE \<le> remaining then insert_free_block_sorted h1 m1 (cur + total_size) remaining else Some (h1, m1));
     Some (cur + data_offset, h2, write_header m2 cur total_size data_offset)
   })"
  by (simp add: take_block_def unlink_def write_header_def Let_def)

lemma unlink_ok:
  assumes inv: "heap_inv h m (us @ (unat c, k) # vs)" and r: "unlink (last_addr us) c h m = (h', m')"
  shows "heap_inv h' m' (us @ vs)" "h' = h\<lparr>heap_free_list := heap_free_list h'\<rparr>" "agree (bytes us) m m'"
proof -
  note d = heap_invD [OF inv]
  note rm = wf_blocks_remove(1) [OF d(2)]
  have ord: "ordered (unat (heap_base h)) (heap_end h) (us @ (unat c, k) # vs)" by (rule wf_ordered [OF d(2)])
  have nx: "lseg m (block_next m c) vs 0" using d(1) unfolding lseg_append lseg_unat by blast
  have "lseg m' (heap_free_list h') (us @ vs) 0 \<and> h' = h\<lparr>heap_free_list := heap_free_list h'\<rparr> \<and> agree (bytes us) m m'"
  proof (cases "us = []")
    case True
    then have "h' = h\<lparr>heap_free_list := block_next m c\<rparr>" "m' = m" using r by (auto simp: unlink_def last_addr_def)
    then show ?thesis using True nx by simp
  next
    case False
    obtain us' q j where q: "us = us' @ [(unat q, j)]" "last_addr us = q" "q \<noteq> 0" "unat q + 16 < 2 ^ 64" "16 \<le> j"
      using ordered_last [OF ord False d(3,4)] by blast
    have h': "h' = h" "m' = set_block_next m q (block_next m c)" using r q(2,3) by (auto simp: unlink_def)
    have sg: "lseg m (heap_free_list h) (us' @ (unat q, j) # (unat c, k) # vs) 0"
      and og: "ordered (unat (heap_base h)) (heap_end h) (us' @ (unat q, j) # (unat c, k) # vs)" using d(1) ord q(1) by simp_all
    have "unat (block_size m q) = j" using sg unfolding lseg_append lseg_unat by blast
    then have hdq: "hdr_only m m' q" "unat (block_size m' q) = j" "block_next m' q = block_next m c"
      unfolding h'(2) using hdr_only_write(2) [OF q(4)] own_header [OF q(4)] by simp_all
    have oo: "ordered (unat q + j) (heap_end h) vs" using og unfolding ordered_append by (auto intro: ordered_mono)
    have "lseg m' (heap_free_list h) (us' @ (unat q, j) # vs) 0"
      using lseg_relink [OF sg og d(3) hdq(1,2) q(5) _ oo] nx hdq(3) by simp
    moreover have "agree (bytes us) m m'" unfolding h'(2)
      by (rule agree_mono [OF agree_header(2) [OF q(4)]]) (use q(1,5) in auto)
    ultimately show ?thesis using h'(1) q(1) by simp
  qed
  then have l: "lseg m' (heap_free_list h') (us @ vs) 0" and h': "h' = h\<lparr>heap_free_list := heap_free_list h'\<rparr>" and "agree (bytes us) m m'" by blast+
  then show "h' = h\<lparr>heap_free_list := heap_free_list h'\<rparr>" "agree (bytes us) m m'" by blast+
  have same: "heap_base h' = heap_base h" "heap_max_size h' = heap_max_size h" "committed h' = committed h"
    using arg_cong [OF h', of heap_base] arg_cong [OF h', of heap_max_size] arg_cong [OF h', of committed] by simp_all
  show "heap_inv h' m' (us @ vs)" using inv l rm unfolding heap_inv_def same by (elim conjE, intro conjI)
qed

lemma write_header_ok:
  assumes "unat c + unat total_size < 2 ^ 64" "16 \<le> unat off" "unat off \<le> unat total_size" "m' = write_header m c total_size off"
  shows "agree {unat c..<unat c + unat total_size} m m'" "block_size m' c = total_size" "read_u64 m' (c + off - 8) = off"
proof -
  have u: "unat (c + off) = unat c + unat off" using assms by (subst unat_add_lem [THEN iffD1]) simp_all
  have u8: "unat (c + off - 8) = unat c + unat off - 8" using u assms(2) by (simp add: unat_sub word_le_nat_alt)
  have c16: "unat c + 16 < 2 ^ 64" using assms by linarith
  define m1 where "m1 = set_block_next (set_block_size m c total_size) c off"
  have m1: "agree {unat c..<unat c + 16} m m1" "block_size m1 c = total_size" using new_header [OF c16 m1_def] by blast+
  have m': "m' = write_u64 m1 (c + off - 8) off" using assms(4) by (simp add: write_header_def m1_def)
  have d: "disj8 (c + off - 8) c" using u8 assms by (intro disj8_sym [OF disj8I]) simp_all
  show "read_u64 m' (c + off - 8) = off" "block_size m' c = total_size"
    using m1(2) d unfolding m' by (simp_all add: block_size_def read_write_other)
  have "agree {unat c..<unat c + unat total_size} m1 m'" unfolding m'
    by (rule agree_mono [OF agree_write]) (use u8 assms in auto)
  moreover have "agree {unat c..<unat c + unat total_size} m m1" by (rule agree_mono [OF m1(1)]) (use assms in auto)
  ultimately show "agree {unat c..<unat c + unat total_size} m m'" using agree_trans by blast
qed

text \<open>How much of a block an allocation consumes: a remainder too small for a header goes with it.\<close>

definition used :: "nat \<Rightarrow> nat \<Rightarrow> nat" where
  "used total_size k = (if 16 \<le> k - total_size then total_size else k)"

lemma split_block:
  assumes inv: "heap_inv h m bs" and c: "unat (heap_base h) \<le> unat c" "unat c + k \<le> heap_end h" "{unat c..<unat c + k} \<inter> bytes bs = {}"
    and t: "unat total_size \<le> k" "unat av = k" "16 \<le> unat total_size"
  shows "\<exists>h' m' bs'. (if FreeBlock_SIZE \<le> av - total_size then insert_free_block_sorted h m (c + total_size) (av - total_size)
      else Some (h, m)) = Some (h', m') \<and> h' = h\<lparr>heap_free_list := heap_free_list h'\<rparr> \<and> heap_inv h' m' bs' \<and>
    bytes bs' = bytes bs \<union> {unat c + used (unat total_size) k..<unat c + k} \<and> agree (bytes bs \<union> {unat c..<unat c + k}) m m'"
proof -
  have r: "unat (av - total_size) = k - unat total_size" using t by (simp add: unat_sub word_le_nat_alt)
  have e: "heap_end h < 2 ^ 64" by (rule heap_invD [OF inv])
  have u: "unat (c + total_size) = unat c + unat total_size" using c t e by (subst unat_add_lem [THEN iffD1]) simp_all
  show ?thesis
  proof (cases "16 \<le> k - unat total_size")
    case True
    have sub: "{unat c + unat total_size..<unat c + k} \<subseteq> {unat c..<unat c + k}" by auto
    have ce: "unat c + unat total_size + (k - unat total_size) = unat c + k" using t by simp
    obtain h' m' where i: "insert_free_block_sorted h m (c + total_size) (av - total_size) = Some (h', m')"
        "h' = h\<lparr>heap_free_list := heap_free_list h'\<rparr>" "heap_inv h' m' (add_block (unat c + unat total_size) (k - unat total_size) bs)"
        "agree (bytes bs \<union> {unat c + unat total_size..<unat c + k}) m m'"
      using heap_inv_insert [OF inv, of "c + total_size" "av - total_size", unfolded u r ce] True c disjoint_sub [OF c(3) sub] by auto
    have "FreeBlock_SIZE \<le> av - total_size" using True r by (simp add: FreeBlock_SIZE_def word_le_nat_alt)
    moreover have "bytes (add_block (unat c + unat total_size) (k - unat total_size) bs) = bytes bs \<union> {unat c + used (unat total_size) k..<unat c + k}"
      unfolding bytes_add_block ce using True by (simp add: used_def Un_commute)
    moreover have "agree (bytes bs \<union> {unat c..<unat c + k}) m m'" by (rule agree_mono [OF i(4)]) (use sub in blast)
    ultimately show ?thesis using i(1-3) by (intro exI conjI) (simp, assumption+)
  next
    case False
    then have "\<not> FreeBlock_SIZE \<le> av - total_size" using r by (simp add: FreeBlock_SIZE_def word_le_nat_alt)
    then show ?thesis using False inv by (intro exI [of _ h] exI [of _ m] exI [of _ bs]) (simp add: used_def)
  qed
qed

text \<open>An allocated block: its header holds the total size, and the cell before the data the offset.\<close>

definition live_block :: "memory \<Rightarrow> u64 \<Rightarrow> u64 \<Rightarrow> u64 \<Rightarrow> bool" where
  "live_block m c total_size off \<longleftrightarrow> block_size m c = total_size \<and> read_u64 m (c + off - 8) = off"

lemma heap_same:
  assumes "h' = h\<lparr>heap_free_list := heap_free_list h'\<rparr>"
  shows "heap_base h' = heap_base h" "heap_max_size h' = heap_max_size h" "committed h' = committed h"
  using arg_cong [OF assms, of heap_base] arg_cong [OF assms, of heap_max_size] arg_cong [OF assms, of committed] by simp_all

lemma heap_same_trans:
  assumes "h1 = h\<lparr>heap_free_list := heap_free_list h1\<rparr>" "h2 = h1\<lparr>heap_free_list := heap_free_list h2\<rparr>"
  shows "h2 = h\<lparr>heap_free_list := heap_free_list h2\<rparr>"
  by (subst assms(2), subst assms(1)) simp

lemma cut_interval:
  assumes "{c..<c + k} \<inter> B = {}" "u \<le> k"
  shows "B \<union> {c + u..<c + k} = B \<union> {c..<c + k} - {c..<c + (u :: nat)}"
proof -
  have "x \<notin> {c..<c + u}" if "x \<in> B" for x
  proof -
    have "x \<notin> {c..<c + k}" using assms(1) that by blast
    then show ?thesis using assms(2) by auto
  qed
  then have "B - {c..<c + u} = B" by blast
  moreover have "{c + u..<c + k} = {c..<c + k} - {c..<c + u}" by auto
  ultimately show ?thesis by (simp add: Un_Diff)
qed

lemma take_block_ok:
  assumes inv: "heap_inv h m bs" and bs: "bs = us @ (unat c, k) # vs"
    and t: "unat total_size \<le> k" "16 \<le> unat off" "unat off \<le> unat total_size"
  shows "\<exists>h' m' bs'. take_block total_size off (last_addr us) c h m = Some (c + off, h', m') \<and>
    h' = h\<lparr>heap_free_list := heap_free_list h'\<rparr> \<and> heap_inv h' m' bs' \<and>
    bytes bs' = bytes bs - {unat c..<unat c + used (unat total_size) k} \<and> agree (bytes bs) m m' \<and> live_block m' c total_size off"
proof -
  note d = heap_invD [OF inv]
  have w: "unat (heap_base h) \<le> unat c" "unat c + k \<le> heap_end h" using wf_blocks_member [OF d(2), of "unat c" k] bs by simp_all
  have av: "unat (block_size m c) = k" using d(1) unfolding bs lseg_append lseg_unat by blast
  have t16: "16 \<le> unat total_size" using t by simp
  obtain h1 m1 where u: "unlink (last_addr us) c h m = (h1, m1)" by fastforce
  note ul = unlink_ok [OF inv [unfolded bs] u]
  note rm = wf_blocks_remove(2) [OF d(2) [unfolded bs], folded bs]
  have dj: "{unat c..<unat c + k} \<inter> bytes (us @ vs) = {}" unfolding rm by blast
  obtain h2 m2 bs' where sp: "(if FreeBlock_SIZE \<le> block_size m c - total_size
        then insert_free_block_sorted h1 m1 (c + total_size) (block_size m c - total_size) else Some (h1, m1)) = Some (h2, m2)"
      "h2 = h1\<lparr>heap_free_list := heap_free_list h2\<rparr>" "heap_inv h2 m2 bs'"
      "bytes bs' = bytes (us @ vs) \<union> {unat c + used (unat total_size) k..<unat c + k}"
      "agree (bytes (us @ vs) \<union> {unat c..<unat c + k}) m1 m2"
    using split_block [OF ul(1) w [folded heap_same [OF ul(2)]] dj t(1) av t16] by blast
  define m' where "m' = write_header m2 c total_size off"
  have "unat c + unat total_size < 2 ^ 64" using w t(1) d(3) by linarith
  note wh = write_header_ok [OF this t(2,3) m'_def]
  have sub: "{unat c..<unat c + unat total_size} \<subseteq> {unat c..<unat c + used (unat total_size) k}" "used (unat total_size) k \<le> k"
    using t(1) by (auto simp: used_def)
  have all: "bytes bs = bytes (us @ vs) \<union> {unat c..<unat c + k}" unfolding bs by auto
  have b': "bytes bs' = bytes bs - {unat c..<unat c + used (unat total_size) k}" unfolding sp(4) all by (rule cut_interval [OF dj sub(2)])
  have "bytes bs' \<inter> {unat c..<unat c + unat total_size} = {}" unfolding b' using sub(1) by blast
  then have i: "heap_inv h2 m' bs'" by (rule heap_inv_agree [OF sp(3) wh(1)])
  have a1: "agree (bytes bs) m m1" by (rule agree_mono [OF ul(3)]) (simp add: bs)
  have a2: "agree (bytes bs) m1 m2" unfolding all by (rule sp(5))
  have "{unat c..<unat c + unat total_size} \<subseteq> {unat c..<unat c + k}" using t(1) by auto
  then have a3: "agree (bytes bs) m2 m'" unfolding all by (intro agree_mono [OF wh(1)]) blast
  have "agree (bytes bs) m m'" by (rule agree_trans [OF agree_trans [OF a1 a2] a3])
  moreover have "take_block total_size off (last_addr us) c h m = Some (c + off, h2, m')"
    unfolding take_block_parts u Let_def case_prod_conv sp(1) m'_def by simp
  moreover have "live_block m' c total_size off" using wh(2,3) by (simp add: live_block_def)
  ultimately show ?thesis using i b' heap_same_trans [OF ul(2) sp(2)] by blast
qed

end
