(* ===== verification/Heap_Machine.thy ===== *)
theory Heap_Machine
  imports Heap_Alloc
begin

text \<open>
  The allocator as its clients see it: what allocate and deallocate do on every heap
  that satisfies the invariant, and the machine of all sequences of allocations,
  releases and writes by the owners of blocks.
\<close>

section \<open>Sizes\<close>

definition layout_ok :: "Layout \<Rightarrow> bool" where
  "layout_ok l \<longleftrightarrow> (\<exists>k<62. layout_align l = 2 ^ k) \<and> unat (layout_size l) < 2 ^ 62"

definition data_off :: "Layout \<Rightarrow> nat" where
  "data_off l = max 16 (unat (layout_align l))"

lemma unat_exp:
  assumes "k < 62"
  shows "unat (2 ^ k :: u64) = 2 ^ k"
proof -
  have "(2::nat) ^ k < 2 ^ 64" using assms by (intro power_strict_increasing) simp_all
  moreover have "unat (of_nat (2 ^ k) :: u64) = 2 ^ k mod 2 ^ 64" unfolding unat_of_nat by simp
  ultimately show ?thesis by simp
qed

lemma round_up_header:
  assumes "k < 62"
  shows "unat ((16 + 2 ^ k - 1 :: u64) AND NOT (2 ^ k - 1)) = max 16 (2 ^ k)"
proof -
  note u = unat_exp [OF assms]
  have lt: "(2::nat) ^ k \<le> 2 ^ 61" using assms by (intro power_increasing) simp_all
  have ux: "unat (16 + 2 ^ k - 1 :: u64) = 15 + 2 ^ k"
  proof -
    have "(16 + 2 ^ k - 1 :: u64) = 15 + 2 ^ k" by simp
    moreover have "unat (15 + 2 ^ k :: u64) = 15 + 2 ^ k" using u lt by (subst unat_add_lem [THEN iffD1]) simp_all
    ultimately show ?thesis by (rule ssubst)
  qed
  have r: "unat ((16 + 2 ^ k - 1 :: u64) AND NOT (2 ^ k - 1)) = (15 + 2 ^ k) - (15 + 2 ^ k) mod 2 ^ k"
    using unat_and_not_mask [of "16 + 2 ^ k - 1 :: u64" k] ux by (simp add: mask_eq_exp_minus_1)
  show ?thesis
  proof (cases "k \<le> 4")
    case True
    then have "k = 0 \<or> k = 1 \<or> k = 2 \<or> k = 3 \<or> k = 4" by linarith
    then show ?thesis unfolding r by auto
  next
    case False
    then have "(2::nat) ^ 5 \<le> 2 ^ k" by (intro power_increasing) simp_all
    then show ?thesis unfolding r by simp
  qed
qed

lemma allocation_sizes_ok:
  assumes "layout_ok l"
  obtains total_size off where "allocation_sizes l = (total_size, off)" "unat off = data_off l"
    "unat total_size = data_off l + unat (layout_size l)" "16 \<le> unat off" "unat off \<le> unat total_size" "unat total_size < 2 ^ 63"
proof -
  obtain k where k: "k < 62" "layout_align l = 2 ^ k" using assms by (auto simp: layout_ok_def)
  define off where "off = (AllocHeader_SIZE + layout_align l - 1) AND NOT (layout_align l - 1)"
  have o: "unat off = data_off l"
    using round_up_header [OF k(1)] k by (simp add: off_def data_off_def AllocHeader_SIZE_def unat_exp)
  have lt: "(2::nat) ^ k \<le> 2 ^ 61" using k(1) by (intro power_increasing) simp_all
  have d: "data_off l \<le> 2 ^ 61" using k lt by (simp add: data_off_def unat_exp)
  have sz: "unat (layout_size l) < 2 ^ 62" using assms by (simp add: layout_ok_def)
  have t: "unat (off + layout_size l) = data_off l + unat (layout_size l)"
    using o d sz by (subst unat_add_lem [THEN iffD1]) simp_all
  show ?thesis
  proof (rule that [of "off + layout_size l" off])
    show "allocation_sizes l = (off + layout_size l, off)" by (simp add: allocation_sizes_def off_def Let_def)
    show "unat (off + layout_size l) < 2 ^ 63" using t d sz by simp
    show "16 \<le> unat off" using o by (simp add: data_off_def)
  qed (use o t in simp_all)
qed

section \<open>The search\<close>

lemma last_addr_snoc: "unat cur = b \<Longrightarrow> last_addr (us @ [(b, n)]) = cur"
  by (auto simp: last_addr_def)

lemma allocate_loop_fit:
  assumes "lseg m cur (ws @ (unat c, k) # vs) 0" "\<forall>x\<in>set ws. snd x < unat total_size" "unat total_size \<le> k"
  shows "allocate_loop total_size off (last_addr us) cur (h, m, s) = do {
    (p, h', m') \<leftarrow> take_block total_size off (last_addr (us @ ws)) c h m; Some (p, h', m', s) }"
  using assms(1,2)
proof (induction ws arbitrary: us cur)
  case Nil
  then have "cur = c" "c \<noteq> 0" "unat (block_size m c) = k" unfolding append_Nil lseg_unat by simp_all
  then show ?case using assms(3) by (subst allocate_loop.simps) (simp add: word_le_nat_alt)
next
  case (Cons x ws)
  obtain b n where x: "x = (b, n)" by (cases x)
  have c: "cur \<noteq> 0" "unat cur = b" "\<not> total_size \<le> block_size m cur" "lseg m (block_next m cur) (ws @ (unat c, k) # vs) 0"
    using Cons.prems x by (auto simp: word_le_nat_alt)
  have ws: "\<forall>x\<in>set ws. snd x < unat total_size" using Cons.prems(2) by simp
  show ?case using Cons.IH [OF c(4) ws, of "us @ [(b, n)]"] c last_addr_snoc [OF c(2), of us n] x
    by (subst allocate_loop.simps) simp
qed

lemma allocate_loop_nofit:
  assumes "lseg m cur ws 0" "\<forall>x\<in>set ws. snd x < unat total_size"
  shows "allocate_loop total_size off prev cur (h, m, s) = do {
    st \<leftarrow> grow (pages_needed total_size) (h, m, s); allocate_loop total_size off 0 (heap_free_list (fst st)) st }"
  using assms
proof (induction ws arbitrary: prev cur)
  case Nil
  then show ?case by (subst allocate_loop.simps) simp
next
  case (Cons x ws)
  obtain b n where x: "x = (b, n)" by (cases x)
  have c: "cur \<noteq> 0" "\<not> total_size \<le> block_size m cur" "lseg m (block_next m cur) ws 0"
    using Cons.prems x by (auto simp: word_le_nat_alt)
  show ?case using Cons.IH [OF c(3)] Cons.prems(2) c by (subst allocate_loop.simps) simp
qed

text \<open>
  What an allocation does to the free bytes, which growth may have extended at the end
  of the heap: the block leaves them, with less than a header of waste, and holds its
  sizes.
\<close>

definition allocated :: "nat \<Rightarrow> blocks \<Rightarrow> KernelHeap \<Rightarrow> memory \<Rightarrow> u64 \<Rightarrow> u64 \<Rightarrow> u64 \<Rightarrow> KernelHeap \<Rightarrow> memory \<Rightarrow> blocks \<Rightarrow> bool" where
  "allocated w bs h m c total_size off h' m' bs' \<longleftrightarrow> (let B = bytes bs \<union> {heap_end h..<heap_end h'} in
     heap_inv h' m' bs' \<and> w < 16 \<and> {unat c..<unat c + unat total_size + w} \<subseteq> B \<and>
     bytes bs' = B - {unat c..<unat c + unat total_size + w} \<and> agree B m m' \<and> live_block m' c total_size off \<and>
     heap_base h' = heap_base h \<and> heap_max_size h' = heap_max_size h \<and> heap_end h \<le> heap_end h')"

text \<open>The first block that is large enough, and what its split wastes.\<close>

definition first_fit :: "blocks \<Rightarrow> nat \<Rightarrow> nat \<Rightarrow> nat \<Rightarrow> bool" where
  "first_fit bs t c w \<longleftrightarrow> (\<exists>k. find (\<lambda>x. t \<le> snd x) bs = Some (c, k) \<and> w = used t k - t)"

lemma allocate_loop_hit:
  assumes inv: "heap_inv h m bs" and fit: "\<exists>x\<in>set bs. unat total_size \<le> snd x" and t: "16 \<le> unat off" "unat off \<le> unat total_size"
  shows "\<exists>w c h' m' bs'. allocate_loop total_size off 0 (heap_free_list h) (h, m, s) = Some (c + off, h', m', s) \<and>
    committed h' = committed h \<and> allocated w bs h m c total_size off h' m' bs' \<and> first_fit bs (unat total_size) (unat c) w"
proof -
  obtain us x vs where x: "bs = us @ x # vs" "unat total_size \<le> snd x" "\<forall>y\<in>set us. \<not> unat total_size \<le> snd y"
    using split_list_first_prop [OF fit] by blast
  note d = heap_invD [OF inv]
  define c :: u64 where "c = of_nat (fst x)"
  have "fst x + snd x \<le> heap_end h" using wf_blocks_member [OF d(2), of "fst x" "snd x"] x(1) by simp
  then have "fst x < 2 ^ 64" using d(3) by linarith
  then have "unat c = fst x" by (simp add: c_def unat_of_nat)
  then have bs: "bs = us @ (unat c, snd x) # vs" using x(1) by simp
  have lt: "\<forall>y\<in>set us. snd y < unat total_size" using x(3) by (simp add: not_le)
  obtain h' m' bs' where r: "take_block total_size off (last_addr us) c h m = Some (c + off, h', m')"
      "h' = h\<lparr>heap_free_list := heap_free_list h'\<rparr>" "heap_inv h' m' bs'"
      "bytes bs' = bytes bs - {unat c..<unat c + used (unat total_size) (snd x)}" "agree (bytes bs) m m'" "live_block m' c total_size off"
    using take_block_ok [OF inv bs x(2) t] by blast
  define w where "w = used (unat total_size) (snd x) - unat total_size"
  have w: "used (unat total_size) (snd x) = unat total_size + w" "w < 16" "unat total_size + w \<le> snd x" using x(2) by (auto simp: w_def used_def)
  have "{unat c..<unat c + unat total_size + w} \<subseteq> bytes bs" using w(3) unfolding bs by auto
  then have "allocated w bs h m c total_size off h' m' bs'"
    using r(3-6) w(2) heap_same [OF r(2)] unfolding allocated_def w(1) Let_def by (simp add: add.assoc)
  moreover have "allocate_loop total_size off 0 (heap_free_list h) (h, m, s) = Some (c + off, h', m', s)"
    using allocate_loop_fit [OF d(1) [unfolded bs] lt x(2), of off "[]" h s] r(1) by (simp add: last_addr_def)
  moreover have "find (\<lambda>y. unat total_size \<le> snd y) (us @ x # vs) = Some x" using x(2,3) by (induction us) auto
  then have "first_fit bs (unat total_size) (unat c) w" using x(1) \<open>unat c = fst x\<close> by (cases x) (auto simp: first_fit_def w_def)
  ultimately show ?thesis using heap_same(3) [OF r(2)] by blast
qed

section \<open>Growth\<close>

lemma pages_needed_ok:
  assumes "unat total_size < 2 ^ 63"
  shows "unat total_size \<le> unat (pages_needed total_size) * 4096" "4 \<le> unat (pages_needed total_size)"
    "unat (pages_needed total_size) * 4096 \<le> 2 ^ 63 + 2 ^ 14"
proof -
  have "unat (total_size + PAGE_SIZE - 1) = unat total_size + 4095"
  proof -
    have "total_size + PAGE_SIZE - 1 = total_size + 4095" by (simp add: PAGE_SIZE_def)
    moreover have "unat (total_size + 4095) = unat total_size + 4095" using assms by (subst unat_add_lem [THEN iffD1]) simp_all
    ultimately show ?thesis by (rule ssubst)
  qed
  then have d: "unat ((total_size + PAGE_SIZE - 1) div PAGE_SIZE) = (unat total_size + 4095) div 4096"
    by (simp add: unat_div PAGE_SIZE_def)
  then have "unat (pages_needed total_size) = max ((unat total_size + 4095) div 4096) 4"
    by (simp add: pages_needed_def max_def word_le_nat_alt)
  then show "unat total_size \<le> unat (pages_needed total_size) * 4096" "4 \<le> unat (pages_needed total_size)"
    "unat (pages_needed total_size) * 4096 \<le> 2 ^ 63 + 2 ^ 14" using assms by (simp_all add: max_def) linarith+
qed

lemma grow_ok:
  assumes inv: "heap_inv h m bs" and n: "1 \<le> unat n" "unat n * 4096 \<le> 2 ^ 63 + 2 ^ 14"
  shows "if unat (committed h) + unat n * 4096 \<le> unat (heap_max_size h)
    then grow n (h, m, s) = None \<and> grow_pages (map of_nat [0..<unat n]) (heap_base h + committed h) s = None \<or>
      (\<exists>h' m' s'. grow n (h, m, s) = Some (h', m', s') \<and> grow_pages (map of_nat [0..<unat n]) (heap_base h + committed h) s = Some s' \<and>
        heap_inv h' m' (add_block (heap_end h) (unat n * 4096) bs) \<and> heap_base h' = heap_base h \<and> heap_max_size h' = heap_max_size h \<and>
        heap_end h' = heap_end h + unat n * 4096 \<and> agree (bytes bs \<union> {heap_end h..<heap_end h'}) m m')
    else grow n (h, m, s) = None"
proof -
  have i: "unat (heap_base h) + unat (heap_max_size h) < 2 ^ 64" "unat (heap_max_size h) \<le> 2 ^ 62" "unat (committed h) \<le> unat (heap_max_size h)"
    using inv by (simp_all add: heap_inv_def)
  define nb where "nb = n * PAGE_SIZE"
  have nb: "unat nb = unat n * 4096" unfolding nb_def PAGE_SIZE_def using n(2) by (subst unat_mult_lem [THEN iffD1]) simp_all
  have cm: "unat (committed h + nb) = unat (committed h) + unat n * 4096" using nb i n(2) by (subst unat_add_lem [THEN iffD1]) simp_all
  have rg: "unat (heap_base h + committed h) = heap_end h" using i by (subst unat_add_lem [THEN iffD1]) simp_all
  show ?thesis
  proof (cases "unat (committed h) + unat n * 4096 \<le> unat (heap_max_size h)")
    case False
    then show ?thesis using cm by (simp add: grow_def nb_def [symmetric] word_le_nat_alt Let_def)
  next
    case True
    let ?h = "h\<lparr>committed := committed h + nb\<rparr>"
    have e: "heap_end ?h = heap_end h + unat n * 4096" using cm by simp
    have "wf_blocks (unat (heap_base h)) (heap_end ?h) bs" by (rule wf_blocks_mono [OF heap_invD(2) [OF inv]]) (simp_all add: cm)
    then have hi: "heap_inv ?h m bs" using inv True cm by (simp add: heap_inv_def)
    have dj: "{heap_end h..<heap_end h + unat n * 4096} \<inter> bytes bs = {}"
      unfolding disjoint_iff using wf_blocks_bytes [OF heap_invD(2) [OF inv]] by (meson atLeastLessThan_iff not_le)
    have p: "unat (heap_base ?h) \<le> heap_end h" "heap_end h + unat n * 4096 \<le> heap_end h + unat n * 4096" "16 \<le> unat n * 4096" using n(1) by simp_all
    obtain h' m' where r: "insert_free_block_sorted ?h m (heap_base h + committed h) nb = Some (h', m')"
        "h' = ?h\<lparr>heap_free_list := heap_free_list h'\<rparr>" "heap_inv h' m' (add_block (heap_end h) (unat n * 4096) bs)"
        "agree (bytes bs \<union> {heap_end h..<heap_end h + unat n * 4096}) m m'"
      using heap_inv_insert [OF hi, of "heap_base h + committed h" nb, unfolded rg nb e, OF p dj] by blast
    note hs = heap_same [OF r(2)]
    have h': "heap_end h' = heap_end h + unat n * 4096" "heap_base h' = heap_base h" "heap_max_size h' = heap_max_size h" using hs cm by simp_all
    have g: "grow n (h, m, s) = map_option (\<lambda>s'. (h', m', s')) (grow_pages (map of_nat [0..<unat n]) (heap_base h + committed h) s)"
      using True cm r(1) by (simp add: grow_def nb_def [symmetric] word_le_nat_alt Let_def)
        (cases "grow_pages (map of_nat [0..<unat n]) (heap_base h + committed h) s"; simp)
    show ?thesis
    proof (cases "grow_pages (map of_nat [0..<unat n]) (heap_base h + committed h) s")
      case None
      then show ?thesis using True g by simp
    next
      case (Some s')
      have "agree (bytes bs \<union> {heap_end h..<heap_end h'}) m m'" unfolding h'(1) by (rule r(4))
      moreover have "grow n (h, m, s) = Some (h', m', s')" using g Some by simp
      ultimately show ?thesis unfolding if_P [OF True] using Some r(3) h' by blast
    qed
  qed
qed

section \<open>Allocation and release\<close>

definition fits :: "Layout \<Rightarrow> blocks \<Rightarrow> bool" where
  "fits l bs \<longleftrightarrow> (\<exists>x\<in>set bs. unat (fst (allocation_sizes l)) \<le> snd x)"

text \<open>The mapping of the pages that an allocation which does not fit asks for.\<close>

definition can_grow :: "Layout \<Rightarrow> KernelHeap \<Rightarrow> mms \<Rightarrow> bool" where
  "can_grow l h s \<longleftrightarrow> (let n = unat (pages_needed (fst (allocation_sizes l))) in
     unat (committed h) + n * 4096 \<le> unat (heap_max_size h) \<and>
     grow_pages (map of_nat [0..<n]) (heap_base h + committed h) s \<noteq> None)"

lemma allocated_grow:
  assumes "allocated w bs1 h1 m1 c t off h' m' bs'" "agree (bytes bs \<union> {heap_end h..<heap_end h1}) m m1"
    "bytes bs1 = bytes bs \<union> {heap_end h..<heap_end h1}" "heap_base h1 = heap_base h" "heap_max_size h1 = heap_max_size h" "heap_end h \<le> heap_end h1"
  shows "allocated w bs h m c t off h' m' bs'"
proof -
  have le: "heap_end h1 \<le> heap_end h'" using assms(1) unfolding allocated_def Let_def by blast
  have B: "bytes bs1 \<union> {heap_end h1..<heap_end h'} = bytes bs \<union> {heap_end h..<heap_end h'}" unfolding assms(3) using le assms(6) by auto
  have a1: "agree (bytes bs \<union> {heap_end h..<heap_end h'}) m m1" by (rule agree_mono [OF assms(2)]) (use le in auto)
  have a2: "agree (bytes bs \<union> {heap_end h..<heap_end h'}) m1 m'" using assms(1) unfolding allocated_def Let_def B by blast
  have "agree (bytes bs \<union> {heap_end h..<heap_end h'}) m m'" by (rule agree_trans [OF a1 a2])
  moreover have "heap_end h \<le> heap_end h'" using le assms(6) by linarith
  ultimately show ?thesis using assms(1,4,5) unfolding allocated_def Let_def B by (elim conjE, intro conjI) simp_all
qed

lemma grow_can:
  assumes inv: "heap_inv h m bs" and l: "allocation_sizes l = (t, off)" "unat t < 2 ^ 63" and can: "can_grow l h s"
  shows "\<exists>h1 m1 s1 bs1. grow (pages_needed t) (h, m, s) = Some (h1, m1, s1) \<and> heap_inv h1 m1 bs1 \<and> heap_base h1 = heap_base h \<and>
    heap_max_size h1 = heap_max_size h \<and> heap_end h \<le> heap_end h1 \<and> bytes bs1 = bytes bs \<union> {heap_end h..<heap_end h1} \<and>
    agree (bytes bs \<union> {heap_end h..<heap_end h1}) m m1 \<and> (\<exists>x\<in>set bs1. unat t \<le> snd x)"
proof -
  note pn = pages_needed_ok [OF l(2)]
  have n1: "1 \<le> unat (pages_needed t)" using pn(2) by linarith
  have le: "unat (committed h) + unat (pages_needed t) * 4096 \<le> unat (heap_max_size h)"
    and gp: "grow_pages (map of_nat [0..<unat (pages_needed t)]) (heap_base h + committed h) s \<noteq> None"
    using can unfolding can_grow_def l(1) Let_def fst_conv by blast+
  let ?bs = "add_block (heap_end h) (unat (pages_needed t) * 4096) bs"
  obtain h1 m1 s1 where h1: "grow (pages_needed t) (h, m, s) = Some (h1, m1, s1)" "heap_inv h1 m1 ?bs" "heap_base h1 = heap_base h"
      "heap_max_size h1 = heap_max_size h" "heap_end h1 = heap_end h + unat (pages_needed t) * 4096"
      "agree (bytes bs \<union> {heap_end h..<heap_end h1}) m m1"
    using grow_ok [OF inv n1 pn(3), of s] gp unfolding if_P [OF le] by blast
  have b1: "bytes ?bs = bytes bs \<union> {heap_end h..<heap_end h1}" unfolding bytes_add_block h1(5) by (rule Un_commute)
  have sub: "{heap_end h..<heap_end h + unat (pages_needed t) * 4096} \<subseteq> bytes ?bs" unfolding bytes_add_block by blast
  obtain x where "x \<in> set ?bs" "unat (pages_needed t) * 4096 \<le> snd x"
    using wf_blocks_interval [OF heap_invD(2) [OF h1(2)] sub] n1 by auto
  then have "\<exists>x\<in>set ?bs. unat t \<le> snd x" using pn(1) order.trans by blast
  moreover have "heap_end h \<le> heap_end h1" unfolding h1(5) by (rule le_add1)
  ultimately show ?thesis using h1(1-4,6) b1 by blast
qed

lemma grow_cannot:
  assumes inv: "heap_inv h m bs" and l: "allocation_sizes l = (t, off)" "unat t < 2 ^ 63" and can: "\<not> can_grow l h s"
  shows "grow (pages_needed t) (h, m, s) = None"
proof -
  note pn = pages_needed_ok [OF l(2)]
  have n1: "1 \<le> unat (pages_needed t)" using pn(2) by linarith
  note g = grow_ok [OF inv n1 pn(3), of s]
  show ?thesis
  proof (cases "unat (committed h) + unat (pages_needed t) * 4096 \<le> unat (heap_max_size h)")
    case True
    have "grow_pages (map of_nat [0..<unat (pages_needed t)]) (heap_base h + committed h) s = None"
      using can True unfolding can_grow_def l(1) Let_def fst_conv by blast
    then show ?thesis using g unfolding if_P [OF True] by (metis option.distinct(1))
  next
    case False
    show ?thesis using g unfolding if_not_P [OF False] .
  qed
qed

text \<open>Allocation succeeds exactly when a block fits or the heap can grow; the loop runs at most twice over the list.\<close>

lemma allocate_some:
  assumes inv: "heap_inv h m bs" and l: "layout_ok l" "allocation_sizes l = (t, off)" and ok: "fits l bs \<or> can_grow l h s"
  shows "\<exists>w c h' m' s' bs'. allocate l (h, m, s) = Some (c + off, h', m', s') \<and> allocated w bs h m c t off h' m' bs' \<and>
      (fits l bs \<longrightarrow> s' = s \<and> committed h' = committed h \<and> first_fit bs (unat t) (unat c) w)"
proof -
  have sz: "16 \<le> unat off" "unat off \<le> unat t" "unat t < 2 ^ 63" using allocation_sizes_ok [OF l(1)] l(2) by (metis prod.inject)+
  have al: "allocate l (h, m, s) = allocate_loop t off 0 (heap_free_list h) (h, m, s)" by (simp add: allocate_def l(2))
  show ?thesis
  proof (cases "fits l bs")
    case True
    then have "\<exists>x\<in>set bs. unat t \<le> snd x" by (simp add: fits_def l(2))
    then show ?thesis unfolding al using allocate_loop_hit [OF inv _ sz(1,2), of s] by blast
  next
    case False
    then have lt: "\<forall>x\<in>set bs. snd x < unat t" by (auto simp: fits_def l(2) not_le)
    obtain h1 m1 s1 bs1 where h1: "grow (pages_needed t) (h, m, s) = Some (h1, m1, s1)" "heap_inv h1 m1 bs1" "heap_base h1 = heap_base h"
        "heap_max_size h1 = heap_max_size h" "heap_end h \<le> heap_end h1" "bytes bs1 = bytes bs \<union> {heap_end h..<heap_end h1}"
        "agree (bytes bs \<union> {heap_end h..<heap_end h1}) m m1" "\<exists>x\<in>set bs1. unat t \<le> snd x"
      using grow_can [OF inv l(2) sz(3)] ok False by blast
    obtain w c h' m' bs' where r: "allocate_loop t off 0 (heap_free_list h1) (h1, m1, s1) = Some (c + off, h', m', s1)"
        "allocated w bs1 h1 m1 c t off h' m' bs'"
      using allocate_loop_hit [OF h1(2,8) sz(1,2), of s1] by blast
    have "allocated w bs h m c t off h' m' bs'" by (rule allocated_grow [OF r(2) h1(7,6,3,4,5)])
    moreover have "allocate l (h, m, s) = Some (c + off, h', m', s1)"
      unfolding al allocate_loop_nofit [OF heap_invD(1) [OF inv] lt] using h1(1) r(1) by simp
    ultimately show ?thesis using False by blast
  qed
qed

lemma allocate_none:
  assumes inv: "heap_inv h m bs" and l: "layout_ok l" and no: "\<not> fits l bs" "\<not> can_grow l h s"
  shows "allocate l (h, m, s) = None"
proof -
  obtain t off where sz: "allocation_sizes l = (t, off)" "unat t < 2 ^ 63" using allocation_sizes_ok [OF l] by metis
  have lt: "\<forall>x\<in>set bs. snd x < unat t" using no(1) by (auto simp: fits_def sz(1) not_le)
  have "allocate l (h, m, s) = allocate_loop t off 0 (heap_free_list h) (h, m, s)" by (simp add: allocate_def sz(1))
  then show ?thesis
    unfolding allocate_loop_nofit [OF heap_invD(1) [OF inv] lt] using grow_cannot [OF inv sz no(2)] by simp
qed

lemma deallocate_ok:
  assumes inv: "heap_inv h m bs" and lv: "live_block m c t off" and c: "unat (heap_base h) \<le> unat c" "unat c + unat t \<le> heap_end h"
    "16 \<le> unat t" "{unat c..<unat c + unat t} \<inter> bytes bs = {}"
  shows "\<exists>h' m' bs'. deallocate (c + off) (h, m, s) = Some (h', m', s) \<and> h' = h\<lparr>heap_free_list := heap_free_list h'\<rparr> \<and>
    heap_inv h' m' bs' \<and> bytes bs' = bytes bs \<union> {unat c..<unat c + unat t} \<and> agree (bytes bs \<union> {unat c..<unat c + unat t}) m m'"
proof -
  have "read_u64 m (c + off - 8) = off" "block_size m c = t" using lv by (simp_all add: live_block_def)
  then have d: "deallocate (c + off) (h, m, s) = do { (h, m) \<leftarrow> insert_free_block_sorted h m c t; Some (h, m, s) }"
    by (simp add: deallocate_def)
  obtain h' m' where "insert_free_block_sorted h m c t = Some (h', m')" "h' = h\<lparr>heap_free_list := heap_free_list h'\<rparr>"
      "heap_inv h' m' (add_block (unat c) (unat t) bs)" "agree (bytes bs \<union> {unat c..<unat c + unat t}) m m'"
    using heap_inv_insert [OF inv c] by blast
  moreover have "bytes (add_block (unat c) (unat t) bs) = bytes bs \<union> {unat c..<unat c + unat t}"
    unfolding bytes_add_block by (rule Un_commute)
  ultimately show ?thesis unfolding d by (intro exI conjI) (simp, assumption+)
qed

section \<open>The machine\<close>

text \<open>
  The live allocations are the pointers handed out and not yet released, with their
  layouts.  A step is an allocation, the release of a live pointer, or a write by the
  owner inside the bytes it asked for.
\<close>

type_synonym live = "u64 \<times> Layout"

definition blk_addr :: "live \<Rightarrow> u64" where
  "blk_addr x = fst x - snd (allocation_sizes (snd x))"

definition blk_span :: "live \<Rightarrow> nat set" where
  "blk_span x = {unat (blk_addr x)..<unat (blk_addr x) + unat (fst (allocation_sizes (snd x)))}"

definition data_span :: "live \<Rightarrow> nat set" where
  "data_span x = {unat (fst x)..<unat (fst x) + unat (layout_size (snd x))}"

inductive heap_step :: "heap_state \<times> live list \<Rightarrow> heap_state \<times> live list \<Rightarrow> bool" where
  Alloc: "layout_ok l \<Longrightarrow> allocate l st = Some (p, st') \<Longrightarrow> heap_step (st, L) (st', (p, l) # L)"
| Free: "deallocate p st = Some st' \<Longrightarrow> heap_step (st, L1 @ (p, l) # L2) (st', L1 @ L2)"
| Write: "x \<in> set L \<Longrightarrow> agree (data_span x) m m' \<Longrightarrow> heap_step ((h, m, s), L) ((h, m', s), L)"

inductive_cases heap_stepE: "heap_step (st, L) y"

definition live_ok :: "KernelHeap \<Rightarrow> memory \<Rightarrow> blocks \<Rightarrow> live \<Rightarrow> bool" where
  "live_ok h m bs x \<longleftrightarrow> layout_ok (snd x) \<and> unat (heap_base h) \<le> unat (blk_addr x) \<and>
     live_block m (blk_addr x) (fst (allocation_sizes (snd x))) (snd (allocation_sizes (snd x))) \<and>
     unat (blk_addr x) + unat (fst (allocation_sizes (snd x))) \<le> heap_end h \<and> blk_span x \<inter> bytes bs = {}"

definition heap_live :: "heap_state \<Rightarrow> live list \<Rightarrow> blocks \<Rightarrow> bool" where
  "heap_live st L bs \<longleftrightarrow> heap_inv (fst st) (fst (snd st)) bs \<and> (\<forall>x\<in>set L. live_ok (fst st) (fst (snd st)) bs x) \<and>
     sorted_wrt (\<lambda>x y. blk_span x \<inter> blk_span y = {}) L"

lemma live_data:
  assumes "live_ok h m bs x" "heap_end h < 2 ^ 64"
  shows "unat (fst x) = unat (blk_addr x) + data_off (snd x)" "data_span x \<subseteq> blk_span x"
    "data_span x \<inter> {unat (blk_addr x)..<unat (blk_addr x) + data_off (snd x)} = {}"
proof -
  obtain t off where sz: "allocation_sizes (snd x) = (t, off)" "unat off = data_off (snd x)" "unat t = data_off (snd x) + unat (layout_size (snd x))"
    using allocation_sizes_ok [of "snd x"] assms(1) by (metis live_ok_def)
  have e: "unat (blk_addr x) + unat t < 2 ^ 64" using assms sz(1) by (auto simp: live_ok_def)
  have p: "fst x = blk_addr x + off" by (simp add: blk_addr_def sz(1))
  show u: "unat (fst x) = unat (blk_addr x) + data_off (snd x)"
    unfolding p using e sz(2,3) by (subst unat_add_lem [THEN iffD1]) simp_all
  show "data_span x \<subseteq> blk_span x" using u sz by (auto simp: data_span_def blk_span_def)
  show "data_span x \<inter> {unat (blk_addr x)..<unat (blk_addr x) + data_off (snd x)} = {}" using u by (auto simp: data_span_def)
qed

text \<open>A live block keeps its header when memory changes elsewhere, or only in its own data.\<close>

lemma live_block_agree:
  assumes "live_ok h m bs x" "heap_end h < 2 ^ 64" "agree S m m'" "{unat (blk_addr x)..<unat (blk_addr x) + data_off (snd x)} \<inter> S = {}"
  shows "live_block m' (blk_addr x) (fst (allocation_sizes (snd x))) (snd (allocation_sizes (snd x)))"
proof -
  obtain t off where sz: "allocation_sizes (snd x) = (t, off)" "unat off = data_off (snd x)" "16 \<le> unat off" "unat off \<le> unat t"
    using allocation_sizes_ok [of "snd x"] assms(1) by (metis live_ok_def)
  let ?c = "blk_addr x"
  have e: "unat ?c + unat t < 2 ^ 64" and lv: "block_size m ?c = t" "read_u64 m (?c + off - 8) = off"
    using assms(1,2) sz(1) by (auto simp: live_ok_def live_block_def)
  have "unat (?c + off) = unat ?c + unat off" using e sz(4) by (subst unat_add_lem [THEN iffD1]) simp_all
  then have u: "unat (?c + off - 8) = unat ?c + unat off - 8" using sz(3) by (simp add: unat_sub word_le_nat_alt)
  have s1: "{unat ?c..<unat ?c + 8} \<inter> S = {}" by (rule disjoint_sub [OF assms(4)]) (use sz in auto)
  have s2: "{unat (?c + off - 8)..<unat (?c + off - 8) + 8} \<inter> S = {}" by (rule disjoint_sub [OF assms(4)]) (use sz u in auto)
  have "read_u64 m' ?c = t" using read_u64_agree [OF assms(3) _ s1] e sz lv(1) by (simp add: block_size_def)
  moreover have "read_u64 m' (?c + off - 8) = off" using read_u64_agree [OF assms(3) _ s2] e sz u lv(2) by simp
  ultimately show ?thesis by (simp add: live_block_def sz(1) block_size_def)
qed

lemma hdr_sub:
  assumes "live_ok h m bs x"
  shows "{unat (blk_addr x)..<unat (blk_addr x) + data_off (snd x)} \<subseteq> blk_span x"
proof -
  obtain t off where "allocation_sizes (snd x) = (t, off)" "unat t = data_off (snd x) + unat (layout_size (snd x))"
    using allocation_sizes_ok [of "snd x"] assms by (metis live_ok_def)
  then show ?thesis by (auto simp: blk_span_def)
qed

lemma live_ok_step:
  assumes x: "live_ok h m bs x" "heap_end h < 2 ^ 64" and ag: "agree S m m'"
    and dj: "blk_span x \<inter> S = {}" "blk_span x \<inter> bytes bs' = {}" and h: "heap_base h' = heap_base h" "heap_end h \<le> heap_end h'"
  shows "live_ok h' m' bs' x"
proof -
  have "live_block m' (blk_addr x) (fst (allocation_sizes (snd x))) (snd (allocation_sizes (snd x)))"
    by (rule live_block_agree [OF x ag disjoint_sub [OF dj(1) hdr_sub [OF x(1)]]])
  moreover have "unat (blk_addr x) + unat (fst (allocation_sizes (snd x))) \<le> heap_end h'" using x(1) h(2) unfolding live_ok_def by linarith
  ultimately show ?thesis using x(1) dj(2) unfolding live_ok_def h(1) by (elim conjE, intro conjI)
qed

lemma live_below:
  assumes "live_ok h m bs x" "heap_end h \<le> e"
  shows "blk_span x \<inter> (bytes bs \<union> {heap_end h..<e}) = {}"
proof -
  have "blk_span x \<subseteq> {..<heap_end h}" using assms(1) by (auto simp: live_ok_def blk_span_def)
  then have "blk_span x \<inter> {heap_end h..<e} = {}" by fastforce
  then show ?thesis using assms(1) unfolding live_ok_def by blast
qed

lemma step_alloc:
  assumes live: "heap_live (h, m, s) L bs" and l: "layout_ok l" "allocation_sizes l = (t, off)"
    and al: "allocate l (h, m, s) = Some (p, h', m', s')"
  shows "\<exists>w c bs'. p = c + off \<and> allocated w bs h m c t off h' m' bs' \<and> heap_live (h', m', s') ((p, l) # L) bs' \<and>
    (fits l bs \<longrightarrow> committed h' = committed h \<and> first_fit bs (unat t) (unat c) w)"
proof -
  have inv: "heap_inv h m bs" and lv: "\<And>x. x \<in> set L \<Longrightarrow> live_ok h m bs x"
    and srt: "sorted_wrt (\<lambda>x y. blk_span x \<inter> blk_span y = {}) L" using live by (simp_all add: heap_live_def)
  note sz = l(2)
  have "fits l bs \<or> can_grow l h s" using allocate_none [OF inv l(1), of s] al by fastforce
  then obtain w c bs' where r: "p = c + off" "allocated w bs h m c t off h' m' bs'"
      "fits l bs \<longrightarrow> committed h' = committed h \<and> first_fit bs (unat t) (unat c) w"
    using allocate_some [OF inv l] al by (metis option.inject prod.inject)
  let ?B = "bytes bs \<union> {heap_end h..<heap_end h'}"
  have a: "heap_inv h' m' bs'" "{unat c..<unat c + unat t + w} \<subseteq> ?B" "bytes bs' = ?B - {unat c..<unat c + unat t + w}"
    "agree ?B m m'" "live_block m' c t off" "heap_base h' = heap_base h" "heap_end h \<le> heap_end h'"
    using r(2) unfolding allocated_def Let_def by blast+
  note d = heap_invD [OF inv] and d' = heap_invD [OF a(1)]
  have c: "blk_addr (p, l) = c" "blk_span (p, l) = {unat c..<unat c + unat t}" using r(1) by (simp_all add: blk_addr_def blk_span_def sz)
  have sub: "{unat c..<unat c + unat t} \<subseteq> {unat c..<unat c + unat t + w}" by auto
  have low: "blk_span x \<inter> ?B = {}" if "x \<in> set L" for x by (rule live_below [OF lv [OF that] a(7)])
  have old: "live_ok h' m' bs' x" if "x \<in> set L" for x
    by (rule live_ok_step [OF lv [OF that] d(3) a(4) low [OF that] _ a(6,7)]) (use low [OF that] a(3) in blast)
  have "16 \<le> unat t" using allocation_sizes_ok [OF l(1)] sz by (metis order.trans prod.inject)
  then have t0: "unat c \<in> {unat c..<unat c + unat t}" "unat c + unat t - 1 \<in> {unat c..<unat c + unat t}" by simp_all
  have rng: "unat (heap_base h') \<le> x \<and> x < heap_end h'" if "x \<in> ?B" for x
    using that wf_blocks_bytes [OF d(2), of x] a(6,7) by fastforce
  have "unat (heap_base h') \<le> unat c" "unat c + unat t - 1 < heap_end h'" using rng t0 sub a(2) by blast+
  moreover have "{unat c..<unat c + unat t} \<inter> bytes bs' = {}" using sub unfolding a(3) by blast
  ultimately have "live_ok h' m' bs' (p, l)" using l(1) a(5) \<open>16 \<le> unat t\<close> by (simp add: live_ok_def c sz)
  moreover have "blk_span (p, l) \<inter> blk_span x = {}" if "x \<in> set L" for x using low [OF that] sub a(2) unfolding c by blast
  ultimately have "heap_live (h', m', s') ((p, l) # L) bs'" using a(1) old srt by (simp add: heap_live_def)
  then show ?thesis using r by blast
qed

lemma sorted_wrt_mem:
  "sorted_wrt (\<lambda>x y. A x \<inter> A y = {}) (L1 @ x # L2) \<Longrightarrow> y \<in> set (L1 @ L2) \<Longrightarrow> A y \<inter> A x = {}"
  by (auto simp: sorted_wrt_append)

lemma step_free_ok:
  assumes live: "heap_live (h, m, s) (L1 @ x # L2) bs"
  shows "\<exists>h' m' bs'. deallocate (fst x) (h, m, s) = Some (h', m', s) \<and> heap_live (h', m', s) (L1 @ L2) bs' \<and> bytes bs' = bytes bs \<union> blk_span x"
proof -
  have inv: "heap_inv h m bs" and lv: "\<And>y. y \<in> set (L1 @ x # L2) \<Longrightarrow> live_ok h m bs y"
    and srt: "sorted_wrt (\<lambda>x y. blk_span x \<inter> blk_span y = {}) (L1 @ x # L2)" using live unfolding heap_live_def fst_conv snd_conv by blast+
  note d = heap_invD [OF inv]
  have lx: "live_ok h m bs x" by (rule lv) simp
  obtain t off where sz: "allocation_sizes (snd x) = (t, off)" "16 \<le> unat t"
    using allocation_sizes_ok [of "snd x"] lx by (metis live_ok_def order.trans)
  have sp: "blk_span x = {unat (blk_addr x)..<unat (blk_addr x) + unat t}" and p: "fst x = blk_addr x + off"
    by (simp_all add: blk_span_def blk_addr_def sz(1))
  have lb: "live_block m (blk_addr x) t off" "unat (heap_base h) \<le> unat (blk_addr x)" "unat (blk_addr x) + unat t \<le> heap_end h"
    "{unat (blk_addr x)..<unat (blk_addr x) + unat t} \<inter> bytes bs = {}"
    using lx unfolding live_ok_def sp sz(1) fst_conv snd_conv by blast+
  obtain h' m' bs' where r: "deallocate (fst x) (h, m, s) = Some (h', m', s)" "h' = h\<lparr>heap_free_list := heap_free_list h'\<rparr>"
      "heap_inv h' m' bs'" "bytes bs' = bytes bs \<union> blk_span x" "agree (bytes bs \<union> blk_span x) m m'"
    using deallocate_ok [OF inv lb(1,2,3) sz(2) lb(4), of s] unfolding p sp by blast
  note hs = heap_same [OF r(2)]
  have "live_ok h' m' bs' y" if y: "y \<in> set (L1 @ L2)" for y
  proof -
    have ly: "live_ok h m bs y" by (rule lv) (use y in auto)
    have "blk_span y \<inter> (bytes bs \<union> blk_span x) = {}" using sorted_wrt_mem [OF srt y] ly unfolding live_ok_def by blast
    then show ?thesis using live_ok_step [OF ly d(3) r(5), of bs' h'] hs r(4) by simp
  qed
  moreover have "sorted_wrt (\<lambda>x y. blk_span x \<inter> blk_span y = {}) (L1 @ L2)" using srt by (simp add: sorted_wrt_append)
  ultimately show ?thesis using r(1,3,4) by (intro exI [of _ h'] exI [of _ m'] exI [of _ bs']) (simp add: heap_live_def)
qed

lemma step_write:
  assumes live: "heap_live (h, m, s) L bs" and x: "x \<in> set L" and ag: "agree (data_span x) m m'"
  shows "heap_live (h, m', s) L bs"
proof -
  have inv: "heap_inv h m bs" and lv: "\<And>y. y \<in> set L \<Longrightarrow> live_ok h m bs y"
    and srt: "sorted_wrt (\<lambda>x y. blk_span x \<inter> blk_span y = {}) L" using live by (simp_all add: heap_live_def)
  note d = heap_invD [OF inv]
  note dat = live_data [OF lv [OF x] d(3)]
  obtain L1 L2 where L: "L = L1 @ x # L2" using split_list [OF x] by blast
  have "live_ok h m' bs y" if y: "y \<in> set L" for y
  proof (cases "y = x")
    case True
    have "live_block m' (blk_addr x) (fst (allocation_sizes (snd x))) (snd (allocation_sizes (snd x)))"
      by (rule live_block_agree [OF lv [OF x] d(3) ag]) (use dat(3) in blast)
    then show ?thesis using lv [OF y] True unfolding live_ok_def by blast
  next
    case False
    then have "y \<in> set (L1 @ L2)" using y L by auto
    then have "blk_span y \<inter> blk_span x = {}" using sorted_wrt_mem [OF srt [unfolded L]] by blast
    then show ?thesis using live_ok_step [OF lv [OF y] d(3) ag, of bs h] dat(2) lv [OF y] unfolding live_ok_def by blast
  qed
  moreover have "bytes bs \<inter> data_span x = {}" using dat(2) lv [OF x] unfolding live_ok_def by blast
  then have "heap_inv h m' bs" by (rule heap_inv_agree [OF inv ag])
  ultimately show ?thesis using srt by (simp add: heap_live_def)
qed

end
