(* ===== verification/User_Space.thy ===== *)
theory User_Space
  imports Address_Space
begin

text \<open>
  A new user address space is isolated: its lower half holds exactly the user stack,
  its upper half is the kernel's, and building it leaves the kernel's own mapping as
  it was.  The proof keeps two page-table trees at once, the kernel's and the new
  one, which share the tables of the upper half.
\<close>

section \<open>Two roots\<close>

lemma tbl_same:
  assumes "\<And>q u j. path_ok q \<Longrightarrow> tbl m r q = Some u \<Longrightarrow> unat j < 512 \<Longrightarrow> ent m' u j = ent m u j" "path_ok q"
  shows "tbl m' r q = tbl m r q"
  using assms(2)
proof (induction q rule: rev_induct)
  case Nil
  then show ?case by simp
next
  case (snoc j q)
  have q: "path_ok q" "unat j < 512" using snoc.prems by (auto simp: path_ok_snoc)
  have "child m' u j = child m u j" if "tbl m r q = Some u" for u
    using assms(1) [OF q(1) that q(2)] by (simp add: child_def)
  then show ?case using snoc.IH [OF q(1)] by (auto simp: tbl_append split: option.split)
qed

lemma leaf_same:
  assumes "\<And>q u j. path_ok q \<Longrightarrow> tbl m r q = Some u \<Longrightarrow> unat j < 512 \<Longrightarrow> ent m' u j = ent m u j" "path_ok q" "unat j < 512"
  shows "leaf m' r q j = leaf m r q j"
  using tbl_same [OF assms(1,2)] assms(1) [OF assms(2) _ assms(3)] by (simp add: leaf_def split: option.split)

lemma vm_ok_same:
  assumes "vm_ok s r xs" "pmm_invar s' ys" "set ys \<subseteq> set xs"
    and same: "\<And>q u j. path_ok q \<Longrightarrow> tbl (fst s) r q = Some u \<Longrightarrow> unat j < 512 \<Longrightarrow> ent (fst s') u j = ent (fst s) u j"
  shows "vm_ok s' r ys"
proof -
  have t: "tbl (fst s') r q = tbl (fst s) r q" if "path_ok q" for q by (rule tbl_same [OF same that])
  have "tree (fst s') r" using assms(1) t unfolding vm_ok_def tree_def by simp
  then show ?thesis using assms(1,2,3) t by (auto simp: vm_ok_def)
qed

text \<open>The lower half of a root, and the invariant of the pair of roots.\<close>

definition low :: "u64 list \<Rightarrow> bool" where
  "low q \<longleftrightarrow> q = [] \<or> unat (hd q) < 256"

definition two_roots :: "vm \<Rightarrow> u64 \<Rightarrow> u64 \<Rightarrow> u64 list \<Rightarrow> bool" where
  "two_roots s k x ys \<longleftrightarrow> vm_ok s k ys \<and> vm_ok s x ys \<and>
     (\<forall>q t p. path_ok q \<longrightarrow> low q \<longrightarrow> tbl (fst s) x q = Some t \<longrightarrow> path_ok p \<longrightarrow> tbl (fst s) k p \<noteq> Some t)"

lemma low_prefix: "prefix q p \<Longrightarrow> low p \<Longrightarrow> low q"
  by (auto simp: low_def prefix_def hd_append split: if_splits)

text \<open>Mapping a page of the lower half keeps both trees and the kernel's mapping.\<close>

lemma two_roots_map:
  assumes tr: "two_roots s k x ys" and len: "3 \<le> length ys" and v: "points_to v x" and lo: "unat (pml4_index va) < 256"
  shows "\<exists>s' n. map_page s v va pa f u = Some s' \<and> n \<le> 3 \<and> two_roots s' k x (drop n ys) \<and>
    (\<forall>va'. vmap (fst s') k va' = vmap (fst s) k va') \<and>
    (\<forall>va'. vmap (fst s') x va' = (if page_of va' = page_of va then Some ((pa AND NOT 0xFFF) OR f OR PRESENT) else vmap (fst s) x va'))"
proof -
  have ok: "vm_ok s x ys" "vm_ok s k ys" and dj: "\<And>q t p. path_ok q \<Longrightarrow> low q \<Longrightarrow> tbl (fst s) x q = Some t \<Longrightarrow> path_ok p \<Longrightarrow> tbl (fst s) k p \<noteq> Some t"
    using tr by (auto simp: two_roots_def)
  obtain s' zs n where s': "map_page s v va pa f u = Some s'" "vm_ok s' x zs" "n \<le> 3" "zs = drop n ys"
      and tb: "\<And>q t. path_ok q \<Longrightarrow> tbl (fst s') x q = Some t \<Longrightarrow> t \<in> set ys \<or> tbl (fst s) x q = Some t"
      and out: "\<And>w j. frame_ok w \<Longrightarrow> w \<notin> touched (fst s) x (va_path va) ys \<Longrightarrow> unat j < 512 \<Longrightarrow> ent (fst s') w j = ent (fst s) w j"
      and lf: "\<And>q j. path_ok q \<Longrightarrow> length q = 3 \<Longrightarrow> unat j < 512 \<Longrightarrow> leaf (fst s') x q j =
         (if q = va_path va \<and> j = pt_index va then Some ((pa AND NOT 0xFFF) OR f OR PRESENT) else leaf (fst s) x q j)"
    using map_page_ok [OF ok(1) v len, of va pa f u] by blast
  have low: "low q" if "prefix q (va_path va)" for q using low_prefix [OF that] lo by (simp add: low_def va_path_def)
  have kt: "t \<notin> touched (fst s) x (va_path va) ys" if "path_ok p" "tbl (fst s) k p = Some t" for p t
    using that dj low path_ok_prefix [OF va_path_ok(1)] ok(2) unfolding touched_def vm_ok_def by blast
  have same: "ent (fst s') t j = ent (fst s) t j" if "path_ok p" "tbl (fst s) k p = Some t" "unat j < 512" for p t j
    using out [OF _ kt [OF that(1,2)] that(3)] tree_frame [of "fst s" k p t] ok(2) that by (simp add: vm_ok_def)
  have sub: "set zs \<subseteq> set ys" using s'(4) by (auto dest: in_set_dropD)
  have kok: "vm_ok s' k zs" by (rule vm_ok_same [OF ok(2) _ sub same]) (use s'(2) in \<open>simp add: vm_ok_def\<close>)
  have ktb: "tbl (fst s') k p = tbl (fst s) k p" if "path_ok p" for p by (rule tbl_same [OF same that])
  have "tbl (fst s') k p \<noteq> Some t" if "path_ok q" "low q" "tbl (fst s') x q = Some t" "path_ok p" for q t p
    using tb [OF that(1,3)] dj [OF that(1,2) _ that(4)] ktb [OF that(4)] ok(2) that(4) by (auto simp: vm_ok_def)
  then have "two_roots s' k x zs" using kok s'(2) by (auto simp: two_roots_def)
  moreover have "vmap (fst s') k va' = vmap (fst s) k va'" for va' unfolding vmap_def by (rule leaf_same [OF same]) simp_all
  ultimately show ?thesis
    using s' lf by (intro exI [of _ s'] exI [of _ n]) (simp add: vmap_def page_of_iff)
qed

section \<open>The user stack\<close>

definition stack_va :: "u64 \<Rightarrow> u64" where
  "stack_va i = USER_STACK_TOP - (i + 1) * PAGE_SIZE"

definition user_pte :: "u64 \<Rightarrow> u64" where
  "user_pte ph = ph OR (PRESENT OR WRITABLE OR USER OR NX)"

lemma user_pte_flags: "frame_ok ph \<Longrightarrow> (ph AND NOT 0xFFF) OR (PRESENT OR WRITABLE OR USER OR NX) OR PRESENT = user_pte ph"
  using frame_mask [of ph] by (simp add: user_pte_def or.assoc PRESENT_def WRITABLE_def USER_def NX_def)

lemma two_roots_alloc:
  assumes "two_roots s k x ys" "ys \<noteq> []"
  shows "\<exists>s'. alloc_page s = (Some (hd ys), s') \<and> two_roots s' k x (tl ys) \<and> fst s' = fst s \<and> frame_ok (hd ys) \<and> hd ys \<notin> set (tl ys)"
proof -
  obtain y zs where y: "ys = y # zs" using assms(2) by (cases ys) auto
  have ok: "vm_ok s k (y # zs)" "vm_ok s x (y # zs)" using assms(1) y by (auto simp: two_roots_def)
  then have inv: "pmm_invar s (y # zs)" by (simp add: vm_ok_def)
  obtain s' where s': "alloc_page s = (Some y, s')" "pmm_invar s' zs" using pmm_pages.alloc_cons [OF inv] by blast
  have m: "fst s' = fst s" using alloc_page_mem [OF s'(1)] by simp
  have "vm_ok s' k zs" "vm_ok s' x zs" using ok s'(2) m by (auto simp: vm_ok_def)
  then have "two_roots s' k x zs" using assms(1) m by (simp add: two_roots_def)
  then show ?thesis using s'(1) m y pmm_pages.frames [OF inv] by (intro exI [of _ s']) auto
qed

lemma map_user_stack_ok:
  assumes "two_roots (vm_of s) k x ys" "4 * length is \<le> length ys" "frame_ok x"
    and "\<forall>i\<in>set is. unat (pml4_index (stack_va i)) < 256" "distinct (map (page_of \<circ> stack_va) is)"
  shows "\<exists>s' phs zs. map_user_stack is x s = Some s' \<and> length phs = length is \<and> set phs \<subseteq> set ys \<and> distinct phs \<and>
    two_roots (vm_of s') k x zs \<and> set zs \<subseteq> set ys - set phs \<and> (\<forall>va. vmap (fst s') k va = vmap (fst s) k va) \<and>
    (\<forall>va. vmap (fst s') x va = (case map_of (zip (map (page_of \<circ> stack_va) is) phs) (page_of va) of
       None \<Rightarrow> vmap (fst s) x va | Some ph \<Rightarrow> Some (user_pte ph)))"
  using assms(1,2,4,5)
proof (induction "is" arbitrary: s ys)
  case Nil
  then show ?case by (intro exI [of _ s] exI [of _ "[]"] exI [of _ ys]) simp
next
  case (Cons i "is")
  have ne: "ys \<noteq> []" using Cons.prems(2) by auto
  obtain v1 where v1: "alloc_page (vm_of s) = (Some (hd ys), v1)" "two_roots v1 k x (tl ys)" "fst v1 = fst s"
      and ph: "frame_ok (hd ys)" "hd ys \<notin> set (tl ys)" using two_roots_alloc [OF Cons.prems(1) ne] by auto
  have x0: "x \<noteq> KERNEL_PML4" "points_to (x + KERNEL_PHYSICAL_MAP_BASE) x"
    using assms(3) by (auto simp: frame_ok_def KERNEL_PML4_def points_to_def)
  have l3: "3 \<le> length (tl ys)" using Cons.prems(2) by simp
  obtain v2 n where v2: "map_page v1 (x + KERNEL_PHYSICAL_MAP_BASE) (stack_va i) (hd ys) (PRESENT OR WRITABLE OR USER OR NX) True = Some v2"
      "n \<le> 3" "two_roots v2 k x (drop n (tl ys))" "\<And>va. vmap (fst v2) k va = vmap (fst s) k va"
      "\<And>va. vmap (fst v2) x va = (if page_of va = page_of (stack_va i) then Some (user_pte (hd ys)) else vmap (fst s) x va)"
    using two_roots_map [OF v1(2) l3 x0(2), of "stack_va i" "hd ys" "PRESENT OR WRITABLE OR USER OR NX" True]
      Cons.prems(3) user_pte_flags [OF ph(1)] v1(3) by auto
  define s1 where "s1 = put_vm (put_vm s v1) v2"
  have step: "map_user_stack (i # is) x s = map_user_stack is x s1"
    using v1(1) v2(1) x0(1) by (simp add: s1_def mm_alloc_page_def mm_map_page_def mm_root_def stack_va_def)
  have s1: "vm_of s1 = v2" "fst s1 = fst v2" by (simp_all add: s1_def)
  have len: "4 * length is \<le> length (drop n (tl ys))" using Cons.prems(2) v2(2) by simp
  have tr: "two_roots (vm_of s1) k x (drop n (tl ys))" using v2(3) s1(1) by simp
  have rest: "\<forall>i\<in>set is. unat (pml4_index (stack_va i)) < 256" "distinct (map (page_of \<circ> stack_va) is)"
    using Cons.prems(3,4) by (simp_all add: o_def)
  obtain s' phs zs where IH: "map_user_stack is x s1 = Some s'" "length phs = length is" "set phs \<subseteq> set (drop n (tl ys))"
      "distinct phs" "two_roots (vm_of s') k x zs" "\<And>va. vmap (fst s') k va = vmap (fst s1) k va"
      "\<And>va. vmap (fst s') x va = (case map_of (zip (map (page_of \<circ> stack_va) is) phs) (page_of va) of
         None \<Rightarrow> vmap (fst s1) x va | Some ph \<Rightarrow> Some (user_pte ph))"
      "set zs \<subseteq> set (drop n (tl ys)) - set phs"
    using Cons.IH [OF tr len rest] by blast
  have sub: "set phs \<subseteq> set (tl ys)" using IH(3) by (auto dest: in_set_dropD)
  have zs: "set zs \<subseteq> set (tl ys)" using IH(8) by (auto dest: in_set_dropD)
  have nw: "map_of (zip (map (page_of \<circ> stack_va) is) phs) (page_of (stack_va i)) = None"
    using Cons.prems(4) IH(2) by (simp add: map_of_zip_is_None)
  show ?case
  proof (intro exI conjI allI)
    show "map_user_stack (i # is) x s = Some s'" using step IH(1) by simp
    show "two_roots (vm_of s') k x zs" by (rule IH(5))
    show "length (hd ys # phs) = length (i # is)" "distinct (hd ys # phs)" using IH(2,4) sub ph(2) by auto
    show "set zs \<subseteq> set ys - set (hd ys # phs)" using zs IH(8) ph(2) list.set_sel(2) [OF ne] by auto
    show "set (hd ys # phs) \<subseteq> set ys" using sub ne by (auto dest: list.set_sel)
    fix va
    show "vmap (fst s') k va = vmap (fst s) k va" using IH(6) v2(4) s1 by simp
    show "vmap (fst s') x va = (case map_of (zip (map (page_of \<circ> stack_va) (i # is)) (hd ys # phs)) (page_of va) of
       None \<Rightarrow> vmap (fst s) x va | Some ph \<Rightarrow> Some (user_pte ph))"
    proof (cases "page_of va = page_of (stack_va i)")
      case True
      then show ?thesis unfolding IH(7) s1(2) v2(5) using nw by simp
    next
      case False
      then have "map_of (zip (map (page_of \<circ> stack_va) (i # is)) (hd ys # phs)) (page_of va) =
          map_of (zip (map (page_of \<circ> stack_va) is) phs) (page_of va)" by simp
      then show ?thesis unfolding IH(7) s1(2) v2(5) using False by (simp split: option.split)
    qed
  qed
qed

section \<open>The fresh root\<close>

definition fresh_root :: "memory \<Rightarrow> u64 \<Rightarrow> u64 \<Rightarrow> memory \<Rightarrow> bool" where
  "fresh_root m k x m' \<longleftrightarrow> (\<forall>u j. frame_ok u \<longrightarrow> unat j < 512 \<longrightarrow>
     ent m' u j = (if u = x then (if 256 \<le> unat j then ent m k j else 0) else ent m u j))"

lemma fresh_rootD:
  "fresh_root m k x m' \<Longrightarrow> frame_ok u \<Longrightarrow> unat j < 512 \<Longrightarrow>
     ent m' u j = (if u = x then (if 256 \<le> unat j then ent m k j else 0) else ent m u j)"
  by (simp add: fresh_root_def)

lemma fresh_root_copy:
  assumes "frame_ok k" "frame_ok x" "k \<noteq> x"
  shows "fresh_root m k x (copy_upper_half (k + KERNEL_PHYSICAL_MAP_BASE) (x + KERNEL_PHYSICAL_MAP_BASE)
    (zero_out_page m (x + KERNEL_PHYSICAL_MAP_BASE)))"
proof -
  have p: "points_to (k + KERNEL_PHYSICAL_MAP_BASE) k" "points_to (x + KERNEL_PHYSICAL_MAP_BASE) x"
    using assms by (simp_all add: points_to_def)
  show ?thesis unfolding fresh_root_def
    using copy_upper_half_ent [OF p assms(3)] zero_out_page_ent [OF p(2)] assms by simp
qed

lemma fresh_root_tbl:
  assumes tree: "tree m k" and x: "frame_ok x" "\<And>q. path_ok q \<Longrightarrow> tbl m k q \<noteq> Some x" and fr: "fresh_root m k x m'"
  shows "path_ok q \<Longrightarrow> tbl m' k q = tbl m k q"
    and "path_ok (j # q) \<Longrightarrow> tbl m' x (j # q) = (if 256 \<le> unat j then tbl m k (j # q) else None)"
proof -
  have k: "frame_ok k" using tree_frame [OF tree, of "[]" k] by (simp add: path_ok_def)
  have same: "ent m' u j = ent m u j" if "path_ok q" "tbl m k q = Some u" "unat j < 512" for q u j
    using fresh_rootD [OF fr tree_frame [OF tree that(1,2)] that(3)] x(2) that by auto
  show 1: "tbl m' k q = tbl m k q" if "path_ok q" for q by (rule tbl_same [OF same that])
  assume ok: "path_ok (j # q)"
  then have j: "unat j < 512" by (simp add: path_ok_def)
  have "k \<noteq> x" using x(2) [of "[]"] by (auto simp: path_ok_def)
  then have "child m' x j = (if 256 \<le> unat j then child m' k j else None)"
    using fresh_rootD [OF fr x(1) j] fresh_rootD [OF fr k j] by (simp add: child_def)
  then show "tbl m' x (j # q) = (if 256 \<le> unat j then tbl m k (j # q) else None)" using 1 [OF ok] by simp
qed

lemma fresh_two_roots:
  assumes ok: "vm_ok (m, p) k (x # ys)" and inv: "pmm_invar (m, p') ys" and fr: "fresh_root m k x m'"
  shows "two_roots (m', p') k x ys"
    and "vmap m' k va = vmap m k va"
    and "vmap m' x va = (if 256 \<le> unat (pml4_index va) then vmap m k va else None)"
proof -
  have tree: "tree m k" and fx: "frame_ok x" and nx: "\<And>q. path_ok q \<Longrightarrow> tbl m k q \<noteq> Some x"
    and ny: "\<And>q t. path_ok q \<Longrightarrow> tbl m k q = Some t \<Longrightarrow> t \<notin> set ys"
    and dist: "x \<notin> set ys" and fy: "\<And>y. y \<in> set ys \<Longrightarrow> frame_ok y"
    using ok pmm_pages.frames [of "(m, p)" "x # ys"] by (auto simp: vm_ok_def)
  note tb = fresh_root_tbl [OF tree fx nx fr]
  have same: "ent m' u j = ent m u j" if "path_ok q" "tbl m k q = Some u" "unat j < 512" for q u j
    using fresh_rootD [OF fr tree_frame [OF tree that(1,2)] that(3)] nx that by auto
  have inv': "pmm_invar (m', p') ys"
    by (rule pmm_invar_cong [OF inv]) (use fresh_rootD [OF fr fy, of _ 0] dist in auto)
  have xt: "(q = [] \<and> t = x) \<or> (q \<noteq> [] \<and> \<not> low q \<and> tbl m k q = Some t)" if "path_ok q" "tbl m' x q = Some t" for q t
    using that tb(2) by (cases q) (auto simp: low_def simp del: tbl.simps(2) split: if_splits)
  have "tree m' x" unfolding tree_def
  proof (intro conjI allI impI)
    fix q t assume "path_ok q" "tbl m' x q = Some t"
    then show "frame_ok t" using xt fx tree_frame [OF tree] by blast
  next
    fix q q' t assume "path_ok q" "path_ok q'" "tbl m' x q = Some t" "tbl m' x q' = Some t"
    then show "q = q'" using xt [of q t] xt [of q' t] nx tree_inj [OF tree, of q q' t] by blast
  qed
  then have x: "vm_ok (m', p') x ys" using inv' xt dist ny unfolding vm_ok_def by auto
  have k: "vm_ok (m', p') k ys" by (rule vm_ok_same [OF ok inv']) (use same in auto)
  have "tbl m' k q \<noteq> Some t" if "path_ok q'" "low q'" "tbl m' x q' = Some t" "path_ok q" for q q' t
    using xt [OF that(1,3)] that tb(1) nx by auto
  then show "two_roots (m', p') k x ys" using x k by (auto simp: two_roots_def)
  show "vmap m' k va = vmap m k va" unfolding vmap_def by (rule leaf_same [OF same]) simp_all
  have "va_path va = pml4_index va # tl (va_path va)" by (simp add: va_path_def)
  then have "tbl m' x (va_path va) = (if 256 \<le> unat (pml4_index va) then tbl m k (va_path va) else None)"
    using tb(2) [of "pml4_index va" "tl (va_path va)"] va_path_ok(1) [of va] by simp
  then show "vmap m' x va = (if 256 \<le> unat (pml4_index va) then vmap m k va else None)"
    using same [OF va_path_ok(1)] by (simp add: vmap_def leaf_def split: option.split)
qed

section \<open>Isolation\<close>

lemma user_stack_pages:
  "map of_nat [0..<unat USER_STACK_PAGES] = [0, 1, 2, 3 :: u64]"
  "\<forall>i\<in>set [0, 1, 2, 3]. unat (pml4_index (stack_va i)) < 256"
  "distinct (map (page_of \<circ> stack_va) [0, 1, 2, 3])"
  by (simp_all add: USER_STACK_PAGES_def USER_STACK_TOP_def stack_va_def PAGE_SIZE_def pml4_index_def page_of_def upt_rec)

lemma pml4_of_page: "page_of va' = page_of va \<Longrightarrow> pml4_index va' = pml4_index va"
  unfolding page_of_iff by (simp add: va_path_def)

definition user_stack_map :: "u64 list \<Rightarrow> u64 \<Rightarrow> u64 option" where
  "user_stack_map phs va = map_option user_pte (map_of (zip (map (page_of \<circ> stack_va) [0, 1, 2, 3]) phs) (page_of va))"

lemma user_stack_map_low:
  assumes "map_of (zip (map (page_of \<circ> stack_va) [0, 1, 2, 3]) phs) (page_of va) = Some ph"
  shows "unat (pml4_index va) < 256"
proof -
  have "page_of va \<in> set (map (page_of \<circ> stack_va) [0, 1, 2, 3])" using assms by (auto dest!: map_of_SomeD set_zip_leftD)
  then obtain i where "i \<in> set [0, 1, 2, 3]" "page_of va = page_of (stack_va i)" unfolding set_map o_def by blast
  then show ?thesis using bspec [OF user_stack_pages(2)] pml4_of_page [of va "stack_va i"] by metis
qed

lemma AddressSpace_init_isolated:
  assumes ok: "vm_ok (vm_of s) k xs" and len: "17 \<le> length xs"
  shows "\<exists>as s' phs zs. AddressSpace_init k s = Some (as, s') \<and> as_pml4_phys as = hd xs \<and>
    length phs = 4 \<and> distinct phs \<and> set phs \<subseteq> set (tl xs) \<and> set zs \<subseteq> set (tl xs) - set phs \<and>
    vm_ok (vm_of s') k zs \<and> vm_ok (vm_of s') (hd xs) zs \<and> vmap (fst s') k = vmap (fst s) k \<and>
    vmap (fst s') (hd xs) = (\<lambda>va. if unat (pml4_index va) < 256 then user_stack_map phs va else vmap (fst s) k va)"
proof -
  obtain x ys where xs: "xs = x # ys" "16 \<le> length ys" using len by (cases xs) auto
  obtain v1 where v1: "alloc_page (vm_of s) = (Some x, v1)" "pmm_invar v1 ys"
    using pmm_pages.alloc_cons [of "vm_of s" x ys] ok xs by (auto simp: vm_ok_def)
  have m1: "fst v1 = fst s" using alloc_page_mem [OF v1(1)] by simp
  have fx: "frame_ok x" using pmm_pages.frames [of "vm_of s" xs] ok xs by (auto simp: vm_ok_def)
  have fk: "frame_ok k" "k \<noteq> x" using ok xs(1) by (auto simp: vm_ok_def tree_def path_ok_def dest: spec [of _ "[]"])
  define m' where "m' = copy_upper_half (k + KERNEL_PHYSICAL_MAP_BASE) (x + KERNEL_PHYSICAL_MAP_BASE)
    (zero_out_page (fst s) (x + KERNEL_PHYSICAL_MAP_BASE))"
  let ?s1 = "(m', snd (put_vm s v1))"
  have fr: "fresh_root (fst s) k x m'" unfolding m'_def by (rule fresh_root_copy [OF fk(1) fx fk(2)])
  have vm: "vm_of ?s1 = (m', snd v1)" by (simp add: vm_of_def put_vm_def)
  have ok': "vm_ok (fst s, snd (vm_of s)) k (x # ys)" and inv: "pmm_invar (fst s, snd v1) ys"
    using ok xs(1) v1(2) m1 by (simp_all add: vm_of_def) (metis prod.collapse)
  note fresh = fresh_two_roots [OF ok' inv fr]
  have l: "4 * length [0, 1, 2, 3 :: u64] \<le> length ys" using xs(2) by simp
  have l4: "length [0, 1, 2, 3 :: u64] = 4" by simp
  obtain s' phs zs where s': "map_user_stack [0, 1, 2, 3] x ?s1 = Some s'" "length phs = 4" "set phs \<subseteq> set ys" "distinct phs"
      "two_roots (vm_of s') k x zs" "set zs \<subseteq> set ys - set phs" "\<And>va. vmap (fst s') k va = vmap m' k va"
      "\<And>va. vmap (fst s') x va = (case map_of (zip (map (page_of \<circ> stack_va) [0, 1, 2, 3]) phs) (page_of va) of
         None \<Rightarrow> vmap m' x va | Some ph \<Rightarrow> Some (user_pte ph))"
    using map_user_stack_ok [of ?s1 k x ys "[0, 1, 2, 3]", unfolded vm, OF fresh(1) l fx user_stack_pages(2,3)]
    unfolding fst_conv l4 by blast
  have "AddressSpace_init k s = Some (\<lparr>as_pml4_phys = x, as_user_stack_top = USER_STACK_TOP, as_user_stack_pages = USER_STACK_PAGES\<rparr>, s')"
    using v1(1) m1 s'(1) unfolding AddressSpace_init_def user_stack_pages(1) m'_def by (simp add: mm_alloc_page_def Let_def)
  moreover have "vmap (fst s') x va = (if unat (pml4_index va) < 256 then user_stack_map phs va else vmap (fst s) k va)" for va
    unfolding s'(8) fresh(3) user_stack_map_def using user_stack_map_low [of phs va] by (auto split: option.split)
  moreover have "vmap (fst s') k = vmap (fst s) k" using s'(7) fresh(2) by auto
  ultimately show ?thesis using s'(2-6) xs(1) unfolding two_roots_def
    by (intro exI [of _ "\<lparr>as_pml4_phys = x, as_user_stack_top = USER_STACK_TOP, as_user_stack_pages = USER_STACK_PAGES\<rparr>"]
      exI [of _ s'] exI [of _ phs] exI [of _ zs]) (simp add: fun_eq_iff)
qed


definition demo_frames :: "u64 list" where
  "demo_frames = [0x2000, 0x3000, 0x4000, 0x5000, 0x6000, 0x7000, 0x8000, 0x9000, 0xA000, 0xB000, 0xC000, 0xD000,
     0xE000, 0xF000, 0x10000, 0x11000, 0x12000]"

definition demo_mms :: mms where
  "demo_mms = (let v = fold (\<lambda>y s. free_page s y) demo_frames ((\<lambda>_. 0), demo_pmm) in
     (fst v, \<lparr>mgr_pmm = snd v, mgr_pml4 = 0xFFFF800000001000, mgr_pml4_phys = 0x1000\<rparr>))"

lemma ent_free_pages:
  "frame_ok u \<Longrightarrow> unat j < 512 \<Longrightarrow> \<forall>y\<in>set ys. frame_ok y \<and> y \<noteq> u \<Longrightarrow>
   ent (fst (fold (\<lambda>y s. free_page s y) ys s)) u j = ent (fst s) u j"
  by (induction ys arbitrary: s) (simp_all add: ent_free_page)

lemma demo_mms_ok: "vm_ok (vm_of demo_mms) 0x1000 (rev demo_frames)"
proof -
  have f: "\<forall>y\<in>set demo_frames. frame_ok y \<and> y \<noteq> 0x1000" "distinct demo_frames" "frame_ok 0x1000"
    by (simp_all add: demo_frames_def frame_ok_def)
  have v: "vm_of demo_mms = fold (\<lambda>y s. free_page s y) demo_frames ((\<lambda>_. 0), demo_pmm)"
    by (simp add: demo_mms_def vm_of_def Let_def)
  have "pmm_invar (vm_of demo_mms) (rev demo_frames)" unfolding v using demo_pmm_seeded [of demo_frames] f by simp
  moreover have "ent (fst (vm_of demo_mms)) 0x1000 j = 0" if "unat j < 512" for j
    unfolding v using ent_free_pages [OF f(3) that f(1)] by (simp add: ent_def)
  moreover have "0x1000 \<notin> set (rev demo_frames)" using f(1) by auto
  ultimately show ?thesis
    using vm_ok_fresh [of "fst (vm_of demo_mms)" "snd (vm_of demo_mms)" "rev demo_frames" "0x1000"] f(3)
    unfolding prod.collapse by blast
qed


end
