(* ===== verification/Heap_Properties.thy ===== *)
theory Heap_Properties
  imports Heap_Machine User_Space "HOL-Library.Multiset"
begin

text \<open>
  The properties of the kernel heap: safety of every sequence of allocations, writes
  and releases, the round trip, success whenever frames are available, and the
  alignment of the pointers handed out.
\<close>

section \<open>Mapping the pages of a growing heap\<close>

definition heap_pte :: "u64 \<Rightarrow> u64" where
  "heap_pte ph = (ph AND NOT 0xFFF) OR (PRESENT OR WRITABLE OR NX) OR PRESENT"

lemma mgr_put_vm [simp]: "mgr_pml4 (snd (put_vm s v)) = mgr_pml4 (snd s)"
  by (simp add: put_vm_def)

lemma grow_pages_ok:
  assumes "vm_ok (vm_of s) r xs" "points_to (mgr_pml4 (snd s)) r" "4 * length is \<le> length xs"
    "distinct (map (\<lambda>i. page_of (region + i * PAGE_SIZE)) is)"
  shows "\<exists>s' ys phs. grow_pages is region s = Some s' \<and> vm_ok (vm_of s') r ys \<and> mgr_pml4 (snd s') = mgr_pml4 (snd s) \<and>
    length phs = length is \<and> distinct phs \<and> set phs \<subseteq> set xs \<and> set ys \<subseteq> set xs - set phs \<and>
    (\<forall>va. vmap (fst s') r va = (case map_of (zip (map (\<lambda>i. page_of (region + i * PAGE_SIZE)) is) phs) (page_of va) of
       None \<Rightarrow> vmap (fst s) r va | Some ph \<Rightarrow> Some (heap_pte ph)))"
  using assms
proof (induction "is" arbitrary: s xs)
  case Nil
  then show ?case by (intro exI [of _ s] exI [of _ xs] exI [of _ "[]"]) simp
next
  case (Cons i "is")
  let ?pg = "\<lambda>i. page_of (region + i * PAGE_SIZE)"
  obtain x zs where xs: "xs = x # zs" "3 \<le> length zs" using Cons.prems(3) by (cases xs) auto
  have inv: "pmm_invar (vm_of s) (x # zs)" using Cons.prems(1) xs by (simp add: vm_ok_def)
  obtain v1 where v1: "alloc_page (vm_of s) = (Some x, v1)" "pmm_invar v1 zs" using pmm_pages.alloc_cons [OF inv] by blast
  have m1: "fst v1 = fst s" using alloc_page_mem [OF v1(1)] by simp
  have x: "x \<notin> set zs" using pmm_pages.frames [OF inv] by simp
  have ok1: "vm_ok v1 r zs" using Cons.prems(1) v1(2) m1 xs by (auto simp: vm_ok_def)
  obtain v2 ws where v2: "map_page v1 (mgr_pml4 (snd s)) (region + i * PAGE_SIZE) x (PRESENT OR WRITABLE OR NX) True = Some v2"
      "vm_ok v2 r ws" "\<exists>n\<le>3. ws = drop n zs"
      "\<And>va. vmap (fst v2) r va = (if page_of va = ?pg i then Some (heap_pte x) else vmap (fst s) r va)"
    using map_page_vmap [OF ok1 Cons.prems(2) xs(2), of "region + i * PAGE_SIZE" x "PRESENT OR WRITABLE OR NX" True] m1
    unfolding heap_pte_def by metis
  define s1 where "s1 = put_vm (put_vm s v1) v2"
  have step: "grow_pages (i # is) region s = grow_pages is region s1"
    using v1(1) v2(1) by (simp add: s1_def mm_alloc_page_def mm_map_page_def mm_root_def KERNEL_PML4_def)
  have s1: "vm_of s1 = v2" "fst s1 = fst v2" "mgr_pml4 (snd s1) = mgr_pml4 (snd s)" by (simp_all add: s1_def)
  have ws: "4 * length is \<le> length ws" "set ws \<subseteq> set zs" using v2(3) Cons.prems(3) xs by (auto dest: in_set_dropD)
  obtain s' ys phs where IH: "grow_pages is region s1 = Some s'" "vm_ok (vm_of s') r ys" "mgr_pml4 (snd s') = mgr_pml4 (snd s)"
      "length phs = length is" "distinct phs" "set phs \<subseteq> set ws" "set ys \<subseteq> set ws - set phs"
      "\<And>va. vmap (fst s') r va = (case map_of (zip (map ?pg is) phs) (page_of va) of
         None \<Rightarrow> vmap (fst s1) r va | Some ph \<Rightarrow> Some (heap_pte ph))"
    using Cons.IH [of s1 ws] v2(2) s1 Cons.prems(2,4) ws(1) by auto
  have nw: "map_of (zip (map ?pg is) phs) (?pg i) = None" using Cons.prems(4) IH(4) by (simp add: map_of_zip_is_None)
  show ?case
  proof (intro exI conjI allI)
    show "grow_pages (i # is) region s = Some s'" using step IH(1) by simp
    show "vm_ok (vm_of s') r ys" "mgr_pml4 (snd s') = mgr_pml4 (snd s)" by (rule IH(2), rule IH(3))
    show "length (x # phs) = length (i # is)" "distinct (x # phs)" "set (x # phs) \<subseteq> set xs" "set ys \<subseteq> set xs - set (x # phs)"
      using IH(4-7) ws(2) x xs(1) by auto
    fix va
    show "vmap (fst s') r va = (case map_of (zip (map ?pg (i # is)) (x # phs)) (page_of va) of
       None \<Rightarrow> vmap (fst s) r va | Some ph \<Rightarrow> Some (heap_pte ph))"
      unfolding IH(8) s1(2) v2(4) using nw by (cases "page_of va = ?pg i") (simp_all split: option.split)
  qed
qed

text \<open>The pages of a region that starts on a page boundary and does not wrap are distinct.\<close>

lemma page_of_unat: "unat (page_of va) = unat va div 4096 mod 2 ^ 36"
proof -
  have "page_of va = take_bit 36 (drop_bit 12 va)" by (simp add: page_of_def drop_bit_take_bit)
  moreover have "unat (take_bit 36 (drop_bit 12 va) :: u64) = take_bit 36 (drop_bit 12 (unat va))"
    by (simp only: unsigned_take_bit_eq unsigned_drop_bit_eq) (simp add: take_bit_drop_bit)
  ultimately show ?thesis by (simp add: take_bit_eq_mod drop_bit_eq_div)
qed

lemma mod_shift_inj:
  assumes "(a + i) mod M = (a + j) mod M" "i < M" "j < (M :: nat)"
  shows "i = j"
proof -
  have key: "j = i" if "i \<le> j" "(a + j) mod M = (a + i) mod M" "j < M" for i j
  proof -
    have "a + i \<le> a + j" using that(1) by simp
    then have "M dvd (a + j) - (a + i)" using that(2) mod_eq_dvd_iff_nat by blast
    then have "M dvd j - i" by simp
    then have "j - i = 0" using that(3) by (meson dvd_imp_le gr0I le_less_trans less_imp_diff_less not_less)
    then show ?thesis using that(1) by simp
  qed
  show ?thesis
  proof (cases "i \<le> j")
    case True
    then show ?thesis using key [OF True] assms by simp
  next
    case False
    then show ?thesis using key [of j i] assms by simp
  qed
qed

lemma region_pages_distinct:
  assumes "unat region + n * 4096 \<le> 2 ^ 64" "n < 2 ^ 36" "unat region mod 4096 = 0"
  shows "distinct (map (\<lambda>i. page_of (region + i * PAGE_SIZE)) (map of_nat [0..<n]))"
proof -
  have pg: "unat (page_of (region + of_nat i * PAGE_SIZE)) = (unat region div 4096 + i) mod 2 ^ 36" if "i < n" for i
  proof -
    have "unat (of_nat i :: u64) = i" using that assms(2) by (simp add: unat_of_nat)
    then have im: "unat (of_nat i * 4096 :: u64) = i * 4096" using that assms(1) by (subst unat_mult_lem [THEN iffD1]) simp_all
    have "unat (region + of_nat i * 4096) = unat region + i * 4096" using im that assms(1) by (subst unat_add_lem [THEN iffD1]) simp_all
    then show ?thesis unfolding page_of_unat PAGE_SIZE_def by (simp add: add.commute)
  qed
  have "inj_on (\<lambda>i. page_of (region + of_nat i * PAGE_SIZE)) {0..<n}"
  proof (rule inj_onI)
    fix i j assume ij: "i \<in> {0..<n}" "j \<in> {0..<n}" "page_of (region + of_nat i * PAGE_SIZE) = page_of (region + of_nat j * PAGE_SIZE)"
    then have "(unat region div 4096 + i) mod 2 ^ 36 = (unat region div 4096 + j) mod 2 ^ 36" using pg [of i] pg [of j] by simp
    then show "i = j" using ij(1,2) assms(2) mod_shift_inj [of "unat region div 4096" i "2 ^ 36" j] by simp
  qed
  then show ?thesis by (simp add: distinct_map o_def)
qed

lemma can_growI:
  assumes vm: "vm_ok (vm_of s) r xs" "points_to (mgr_pml4 (snd s)) r" and n: "n = unat (pages_needed (fst (allocation_sizes l)))" "4 * n \<le> length xs"
    and h: "heap_inv h m bs" "unat (heap_max_size h) < 2 ^ 48" "unat (committed h) + n * 4096 \<le> unat (heap_max_size h)"
      "(unat (heap_base h) + unat (committed h)) mod 4096 = 0"
  shows "can_grow l h s"
proof -
  have i: "unat (heap_base h) + unat (heap_max_size h) < 2 ^ 64" using h(1) by (simp add: heap_inv_def)
  have e: "unat (heap_base h + committed h) = heap_end h" using i h(3) by (subst unat_add_lem [THEN iffD1]) simp_all
  have "n < 2 ^ 36" using h(2,3) by simp
  moreover have "unat (heap_base h + committed h) + n * 4096 \<le> 2 ^ 64" unfolding e using i h(3) by linarith
  ultimately have d: "distinct (map (\<lambda>i. page_of (heap_base h + committed h + i * PAGE_SIZE)) (map of_nat [0..<n]))"
    using region_pages_distinct [of "heap_base h + committed h" n] h(4) e by simp
  have "grow_pages (map of_nat [0..<n]) (heap_base h + committed h) s \<noteq> None"
    using grow_pages_ok [OF vm _ d] n(2) by fastforce
  then show ?thesis using h(3) n(1) by (simp add: can_grow_def Let_def)
qed

section \<open>Safety of every run\<close>

lemma heap_step_live: "heap_step x y \<Longrightarrow> heap_live (fst x) (snd x) bs \<Longrightarrow> \<exists>bs'. heap_live (fst y) (snd y) bs'"
proof (induction rule: heap_step.induct)
  case (Alloc l st p st' L)
  obtain h m s where st: "st = (h, m, s)" by (cases st)
  then show ?case using step_alloc [of h m s L bs l _ _ p "fst st'" "fst (snd st')" "snd (snd st')"] Alloc
    by (cases "allocation_sizes l") auto
next
  case (Free p st st' L1 l L2)
  obtain h m s where st: "st = (h, m, s)" by (cases st)
  then show ?case using step_free_ok [of h m s L1 "(p, l)" L2 bs] Free by fastforce
next
  case (Write x L m m' h s)
  then show ?case using step_write [of h m s L bs x m'] by auto
qed

lemma heap_reachable_live:
  "heap_step\<^sup>*\<^sup>* x y \<Longrightarrow> heap_live (fst x) (snd x) bs \<Longrightarrow> \<exists>bs'. heap_live (fst y) (snd y) bs'"
  by (induction rule: rtranclp_induct) (auto dest: heap_step_live)

lemma heap_live_data:
  assumes "heap_live st L bs"
  shows "sorted_wrt (\<lambda>x y. data_span x \<inter> data_span y = {}) L"
    "x \<in> set L \<Longrightarrow> data_span x \<inter> bytes bs = {} \<and> data_span x \<subseteq> {unat (heap_base (fst st))..<heap_end (fst st)} \<and> deallocate (fst x) st \<noteq> None"
proof -
  obtain h m s where st: "st = (h, m, s)" by (cases st)
  have inv: "heap_inv h m bs" and lv: "\<And>x. x \<in> set L \<Longrightarrow> live_ok h m bs x"
    and srt: "sorted_wrt (\<lambda>x y. blk_span x \<inter> blk_span y = {}) L" using assms st by (simp_all add: heap_live_def)
  have sub: "data_span x \<subseteq> blk_span x" if "x \<in> set L" for x by (rule live_data(2) [OF lv [OF that] heap_invD(3) [OF inv]])
  show "sorted_wrt (\<lambda>x y. data_span x \<inter> data_span y = {}) L"
    by (rule sorted_wrt_mono_rel [OF _ srt]) (use sub in blast)
  assume x: "x \<in> set L"
  obtain L1 L2 where L: "L = L1 @ x # L2" using split_list [OF x] by blast
  have "deallocate (fst x) st \<noteq> None" using step_free_ok [of h m s L1 x L2 bs] assms st L by auto
  moreover have "blk_span x \<subseteq> {unat (heap_base h)..<heap_end h}" using lv [OF x] by (auto simp: live_ok_def blk_span_def)
  moreover have "blk_span x \<inter> bytes bs = {}" using lv [OF x] by (simp add: live_ok_def)
  ultimately show "data_span x \<inter> bytes bs = {} \<and> data_span x \<subseteq> {unat (heap_base (fst st))..<heap_end (fst st)} \<and> deallocate (fst x) st \<noteq> None"
    using sub [OF x] st by auto
qed

text \<open>
  C13: from a heap that satisfies the invariant with nothing allocated, every sequence
  of allocations, releases of live pointers and writes by owners leads to a state in
  which the free list is again well formed, the data regions of the live allocations
  are pairwise disjoint, lie inside the committed heap and outside the free list, and
  every live pointer can be released without a panic.
\<close>

theorem heap_runs_safe:
  assumes "heap_inv h m bs" "heap_step\<^sup>*\<^sup>* ((h, m, s), []) (st, L)"
  shows "\<exists>bs'. heap_inv (fst st) (fst (snd st)) bs' \<and> sorted_wrt (\<lambda>x y. data_span x \<inter> data_span y = {}) L \<and>
    (\<forall>x\<in>set L. data_span x \<inter> bytes bs' = {} \<and> data_span x \<subseteq> {unat (heap_base (fst st))..<heap_end (fst st)} \<and>
      deallocate (fst x) st \<noteq> None)"
proof -
  have "heap_live (h, m, s) [] bs" using assms(1) by (simp add: heap_live_def)
  then obtain bs' where l: "heap_live st L bs'" using heap_reachable_live [OF assms(2)] by auto
  then have "heap_inv (fst st) (fst (snd st)) bs'" by (simp add: heap_live_def)
  then show ?thesis using heap_live_data [OF l] by blast
qed

section \<open>Releasing in any order\<close>

text \<open>
  A store of blocks with owners: every block that is out can be given back, which
  leaves the others out.
\<close>

locale block_store =
  fixes inv :: "'s \<Rightarrow> 'x list \<Rightarrow> bool" and give_back :: "'x \<Rightarrow> 's \<Rightarrow> 's option"
  assumes give_back_ok: "inv s (L1 @ x # L2) \<Longrightarrow> \<exists>s'. give_back x s = Some s' \<and> inv s' (L1 @ L2)"
begin

fun give_back_all :: "'x list \<Rightarrow> 's \<Rightarrow> 's option" where
  "give_back_all [] s = Some s"
| "give_back_all (x # xs) s = (case give_back x s of None \<Rightarrow> None | Some s' \<Rightarrow> give_back_all xs s')"

lemma give_back_all_ok:
  assumes "inv s L" "mset xs = mset L"
  shows "\<exists>s'. give_back_all xs s = Some s' \<and> inv s' []"
  using assms
proof (induction xs arbitrary: s L)
  case Nil
  then show ?case by simp
next
  case (Cons x xs)
  have "x \<in> set L" using Cons.prems(2) by (metis list.set_intros(1) set_mset_mset)
  then obtain L1 L2 where L: "L = L1 @ x # L2" using split_list by metis
  obtain s' where s': "give_back x s = Some s'" "inv s' (L1 @ L2)" using give_back_ok Cons.prems(1) L by blast
  have "mset xs = mset (L1 @ L2)" using Cons.prems(2) L by simp
  then show ?case using Cons.IH [OF s'(2)] s'(1) by simp
qed

end

definition heap_live_inv :: "heap_state \<Rightarrow> live list \<Rightarrow> bool" where
  "heap_live_inv st L \<longleftrightarrow> (\<exists>bs. heap_live st L bs)"

definition free_live :: "live \<Rightarrow> heap_state \<Rightarrow> heap_state option" where
  "free_live x st = deallocate (fst x) st"

interpretation heap_blocks: block_store heap_live_inv free_live
proof
  fix st L1 L2 and x :: live
  assume "heap_live_inv st (L1 @ x # L2)"
  then obtain bs where "heap_live st (L1 @ x # L2) bs" by (auto simp: heap_live_inv_def)
  moreover obtain h m s where "st = (h, m, s)" by (cases st)
  ultimately show "\<exists>s'. free_live x st = Some s' \<and> heap_live_inv s' (L1 @ L2)"
    using step_free_ok [of h m s L1 x L2 bs] unfolding free_live_def heap_live_inv_def by blast
qed

definition free_in_order :: "live list \<Rightarrow> heap_state \<Rightarrow> heap_state option" where
  "free_in_order xs st = fold (\<lambda>x st. Option.bind st (deallocate (fst x))) xs (Some st)"

lemma free_in_order_fold: "fold (\<lambda>x st. Option.bind st (deallocate (fst x))) xs (Some st) = heap_blocks.give_back_all xs st"
proof (induction xs arbitrary: st)
  case Nil
  then show ?case by simp
next
  case (Cons x xs)
  have "fold (\<lambda>x st. Option.bind st (deallocate (fst x))) ys None = None" for ys :: "live list" by (induction ys) simp_all
  then show ?case using Cons free_live_def [of x st] by (cases "deallocate (fst x) st") simp_all
qed


section \<open>Success, round trip and alignment\<close>

text \<open>
  C15: allocation returns, and returns a pointer, whenever a free block is large enough
  or there are four frames for every page the request needs and room below the limit;
  the pointer's block holds the size and the offset that release reads back.
\<close>

theorem heap_allocate_returns:
  assumes "heap_inv h m bs" "layout_ok l" "allocation_sizes l = (t, off)" "vm_ok (vm_of s) r xs" "points_to (mgr_pml4 (snd s)) r"
    and "unat (heap_max_size h) < 2 ^ 48" "(unat (heap_base h) + unat (committed h)) mod 4096 = 0"
    and "fits l bs \<or> 4 * unat (pages_needed t) \<le> length xs \<and> unat (committed h) + unat (pages_needed t) * 4096 \<le> unat (heap_max_size h)"
  shows "\<exists>w c h' m' s' bs'. allocate l (h, m, s) = Some (c + off, h', m', s') \<and> allocated w bs h m c t off h' m' bs'"
proof -
  have "fits l bs \<or> can_grow l h s"
    using assms(8) can_growI [OF assms(4,5), of "unat (pages_needed t)" l h m bs] assms(1,3,6,7) by auto
  then show ?thesis using allocate_some [OF assms(1-3)] by blast
qed

text \<open>
  C14: an allocation taken from the free list and then released, whatever its owner wrote
  into it, gives back the free list it was taken from, except for the bytes behind it
  that were too few for a block header; these, fewer than sixteen, are lost.
\<close>

theorem heap_alloc_free_round_trip:
  assumes inv: "heap_inv h m bs" and l: "layout_ok l" "fits l bs" and al: "allocate l (h, m, s) = Some (p, h1, m1, s1)"
    and wr: "agree (data_span (p, l)) m1 m2"
  shows "\<exists>w h' m' bs'. deallocate p (h1, m2, s1) = Some (h', m', s1) \<and> heap_inv h' m' bs' \<and> w < 16 \<and>
    bytes bs' = bytes bs - {unat p + unat (layout_size l)..<unat p + unat (layout_size l) + w} \<and> (w = 0 \<longrightarrow> bs' = bs)"
proof -
  have live0: "heap_live (h, m, s) [] bs" using inv by (simp add: heap_live_def)
  obtain t off where sz: "allocation_sizes l = (t, off)" "unat t = data_off l + unat (layout_size l)"
    using allocation_sizes_ok [OF l(1)] by metis
  obtain w c bs1 where r: "p = c + off" "allocated w bs h m c t off h1 m1 bs1" "heap_live (h1, m1, s1) [(p, l)] bs1" "committed h1 = committed h"
    using step_alloc [OF live0 l(1) sz(1) al] l(2) by blast
  have a: "heap_base h1 = heap_base h" "{unat c..<unat c + unat t + w} \<subseteq> bytes bs" "bytes bs1 = bytes bs - {unat c..<unat c + unat t + w}" "w < 16"
    using r(2,4) unfolding allocated_def Let_def by auto
  have sp: "blk_addr (p, l) = c" "blk_span (p, l) = {unat c..<unat c + unat t}" by (simp_all add: blk_addr_def blk_span_def sz(1) r(1))
  have "live_ok h1 m1 bs1 (p, l)" "heap_end h1 < 2 ^ 64" using r(3) heap_invD(3) by (auto simp: heap_live_def)
  then have up: "unat p + unat (layout_size l) = unat c + unat t" using live_data(1) [of h1 m1 bs1 "(p, l)"] sp sz(2) by simp
  have l2: "heap_live (h1, m2, s1) [(p, l)] bs1" by (rule step_write [OF r(3) _ wr]) simp
  obtain h' m' bs' where f: "deallocate p (h1, m2, s1) = Some (h', m', s1)" "heap_live (h', m', s1) [] bs'" "bytes bs' = bytes bs1 \<union> blk_span (p, l)"
    using step_free_ok [of h1 m2 s1 "[]" "(p, l)" "[]" bs1] l2 by auto
  have inv': "heap_inv h' m' bs'" using f(2) by (simp add: heap_live_def)
  have b': "bytes bs' = bytes bs - {unat c + unat t..<unat c + unat t + w}"
    unfolding f(3) a(3) sp(2) using a(2) by fastforce
  have "bs' = bs" if "w = 0"
    using wf_blocks_unique [OF heap_invD(2) [OF inv'] heap_invD(2) [OF inv]] b' that by simp
  then show ?thesis using f(1) inv' b' a(4) up by (intro exI [of _ w] exI [of _ h'] exI [of _ m'] exI [of _ bs']) simp
qed

text \<open>
  C16: releasing a block, or adding a grown region, leaves the one list of blocks that is
  ordered, has no two adjacent blocks and covers the old free bytes and the new ones;
  memory changes only inside those bytes.
\<close>

theorem heap_insert_normal_form:
  assumes "heap_inv h m bs" "unat (heap_base h) \<le> unat p" "unat p + unat n \<le> heap_end h" "16 \<le> unat n"
    "{unat p..<unat p + unat n} \<inter> bytes bs = {}"
  shows "\<exists>h' m' bs'. insert_free_block_sorted h m p n = Some (h', m') \<and> heap_inv h' m' bs' \<and>
    bytes bs' = bytes bs \<union> {unat p..<unat p + unat n} \<and> agree (bytes bs') m m' \<and>
    (\<forall>lo hi cs. wf_blocks lo hi cs \<longrightarrow> bytes cs = bytes bs' \<longrightarrow> cs = bs')"
proof -
  obtain h' m' where r: "insert_free_block_sorted h m p n = Some (h', m')" "heap_inv h' m' (add_block (unat p) (unat n) bs)"
      "agree (bytes bs \<union> {unat p..<unat p + unat n}) m m'"
    using heap_inv_insert [OF assms] by blast
  have b: "bytes (add_block (unat p) (unat n) bs) = bytes bs \<union> {unat p..<unat p + unat n}" unfolding bytes_add_block by (rule Un_commute)
  have "cs = add_block (unat p) (unat n) bs" if "wf_blocks lo hi cs" "bytes cs = bytes (add_block (unat p) (unat n) bs)" for lo hi cs
    using wf_blocks_unique [OF that(1) heap_invD(2) [OF r(2)] that(2)] .
  then show ?thesis using r b by (intro exI [of _ h'] exI [of _ m'] exI [of _ "add_block (unat p) (unat n) bs"]) auto
qed

definition byte_layout :: Layout where "byte_layout = \<lparr>layout_size = 1, layout_align = 1\<rparr>"

definition word_layout :: Layout where "word_layout = \<lparr>layout_size = 8, layout_align = 8\<rparr>"

lemma demo_layouts:
  "layout_ok byte_layout" "layout_ok word_layout" "allocation_sizes byte_layout = (17, 16)" "allocation_sizes word_layout = (24, 16)"
  by (auto simp: layout_ok_def byte_layout_def word_layout_def allocation_sizes_def AllocHeader_SIZE_def intro: exI [of _ 0] exI [of _ 3])

lemma first_fit_single: "first_fit [(b, k)] t c w \<Longrightarrow> t + 16 \<le> k \<Longrightarrow> c = b \<and> w = 0"
  by (auto simp: first_fit_def used_def split: if_splits)

lemma allocate_single:
  assumes inv: "heap_inv h m [(b, k)]" and l: "layout_ok l" "allocation_sizes l = (t, off)" and k: "unat t + 16 \<le> k"
  shows "\<exists>p h' m'. allocate l (h, m, s) = Some (p, h', m', s) \<and> unat p = b + unat off \<and> heap_inv h' m' [(b + unat t, k - unat t)]"
proof -
  have fit: "fits l [(b, k)]" using k l(2) by (simp add: fits_def)
  obtain w c h' m' bs' where r: "allocate l (h, m, s) = Some (c + off, h', m', s)" "allocated w [(b, k)] h m c t off h' m' bs'"
      "committed h' = committed h" "first_fit [(b, k)] (unat t) (unat c) w"
    using allocate_some [OF inv l, of s] fit by blast
  have c: "unat c = b" "w = 0" using first_fit_single [OF r(4) k] by simp_all
  have a: "heap_inv h' m' bs'" "bytes bs' = {b..<b + k} - {b..<b + unat t}" using r(2,3) c unfolding allocated_def Let_def by auto
  have w: "wf_blocks (unat (heap_base h)) (heap_end h) [(b, k)]" by (rule heap_invD [OF inv])
  have "bytes bs' = bytes [(b + unat t, k - unat t)]" unfolding a(2) using k by auto
  moreover have "wf_blocks (unat (heap_base h)) (heap_end h) [(b + unat t, k - unat t)]" using w k by simp
  ultimately have "bs' = [(b + unat t, k - unat t)]" using wf_blocks_unique [OF heap_invD(2) [OF a(1)]] by blast
  moreover have "unat off \<le> unat t" using allocation_sizes_ok [OF l(1)] l(2) by (metis prod.inject)
  then have "unat (c + off) = b + unat off"
    using c(1) w k heap_invD(3) [OF inv] by (subst unat_add_lem [THEN iffD1]) simp_all
  ultimately show ?thesis using r(1) a(1) by blast
qed

text \<open>
  C18: the offset of the data is a multiple of the alignment but the block need not be:
  after a one-byte allocation from an aligned block the next request for an eight-byte
  aligned word gets a pointer that is one past a multiple of eight.
\<close>

theorem heap_pointer_misaligned:
  assumes "heap_inv h m [(b, k)]" "64 \<le> k" "b mod 8 = 0"
  shows "\<exists>p1 st1 p2 st2. allocate byte_layout (h, m, s) = Some (p1, st1) \<and> allocate word_layout st1 = Some (p2, st2) \<and> unat p2 mod 8 = 1"
proof -
  obtain p1 h1 m1 where 1: "allocate byte_layout (h, m, s) = Some (p1, h1, m1, s)" "heap_inv h1 m1 [(b + 17, k - 17)]"
    using allocate_single [OF assms(1) demo_layouts(1,3), of s] assms(2) by auto
  have "unat (24 :: u64) + 16 \<le> k - 17" using assms(2) by simp
  from allocate_single [OF 1(2) demo_layouts(2,4) this, of s]
  obtain p2 st2 where 2: "allocate word_layout (h1, m1, s) = Some (p2, st2)" "unat p2 = b + 17 + unat (16 :: u64)" by blast
  have "unat p2 mod 8 = 1" unfolding 2(2) using assms(3) by simp presburger
  then show ?thesis using 1(1) 2(1) by blast
qed

section \<open>A concrete heap\<close>

definition demo_heap :: KernelHeap where
  "demo_heap = \<lparr>heap_base = 0xFFFFA00000000000, heap_max_size = 0x4000000, committed = 0x4000, heap_free_list = 0xFFFFA00000000000\<rparr>"

definition demo_heap_mem :: memory where
  "demo_heap_mem = set_block_next (set_block_size (\<lambda>_. 0) 0xFFFFA00000000000 0x4000) 0xFFFFA00000000000 0"

lemma demo_heap_inv: "heap_inv demo_heap demo_heap_mem [(0xFFFFA00000000000, 0x4000)]"
proof -
  have b: "unat (0xFFFFA00000000000 :: u64) + 16 < 2 ^ 64" by simp
  have "block_size demo_heap_mem 0xFFFFA00000000000 = 0x4000" "block_next demo_heap_mem 0xFFFFA00000000000 = 0"
    unfolding demo_heap_mem_def using own_header [OF b] by simp_all
  then show ?thesis by (simp add: heap_inv_def demo_heap_def)
qed

lemma demo_run:
  "\<exists>p st. allocate word_layout (demo_heap, demo_heap_mem, demo_mms) = Some (p, st) \<and>
     heap_step\<^sup>*\<^sup>* ((demo_heap, demo_heap_mem, demo_mms), []) (st, [(p, word_layout)])"
proof -
  have "unat (24 :: u64) + 16 \<le> 0x4000" by simp
  from allocate_single [OF demo_heap_inv demo_layouts(2,4) this, of demo_mms]
  obtain p st where "allocate word_layout (demo_heap, demo_heap_mem, demo_mms) = Some (p, st)" by blast
  then show ?thesis using heap_step.Alloc [OF demo_layouts(2)] by blast
qed

theorem heap_runs_safe_witness:
  "\<exists>st p bs. heap_inv (fst st) (fst (snd st)) bs \<and> data_span (p, word_layout) \<inter> bytes bs = {} \<and> deallocate p st \<noteq> None"
proof -
  obtain p st where "heap_step\<^sup>*\<^sup>* ((demo_heap, demo_heap_mem, demo_mms), []) (st, [(p, word_layout)])" using demo_run by blast
  from heap_runs_safe [OF demo_heap_inv this] show ?thesis by (metis fst_conv list.set_intros(1))
qed


theorem heap_allocate_returns_witness:
  "\<exists>p st. allocate word_layout (KernelHeap_new 0xFFFFA00000000000 0x4000000, (\<lambda>_. 0), demo_mms) = Some (p, st)"
proof -
  let ?h = "KernelHeap_new 0xFFFFA00000000000 0x4000000"
  have i: "heap_inv ?h (\<lambda>_. 0) []" by (simp add: heap_inv_def KernelHeap_new_def)
  have p: "points_to (mgr_pml4 (snd demo_mms)) 0x1000"
    by (simp add: demo_mms_def Let_def points_to_def frame_ok_def KERNEL_PHYSICAL_MAP_BASE_def)
  have n: "unat (pages_needed 24) = 4" by (simp add: pages_needed_def PAGE_SIZE_def)
  have "fits word_layout [] \<or> 4 * unat (pages_needed 24) \<le> length (rev demo_frames) \<and>
      unat (committed ?h) + unat (pages_needed 24) * 4096 \<le> unat (heap_max_size ?h)"
    unfolding n by (simp add: demo_frames_def KernelHeap_new_def)
  from heap_allocate_returns [OF i demo_layouts(2,4) demo_mms_ok p _ _ this] show ?thesis by (auto simp: KernelHeap_new_def)
qed

theorem heap_alloc_free_round_trip_witness:
  "\<exists>p h1 m1 s1 h' m' bs'. allocate word_layout (demo_heap, demo_heap_mem, demo_mms) = Some (p, h1, m1, s1) \<and>
     deallocate p (h1, m1, s1) = Some (h', m', s1) \<and> heap_inv h' m' bs'"
proof -
  obtain p h1 m1 where r: "allocate word_layout (demo_heap, demo_heap_mem, demo_mms) = Some (p, h1, m1, demo_mms)"
    using allocate_single [OF demo_heap_inv demo_layouts(2,4), of demo_mms] by auto
  have f: "fits word_layout [(0xFFFFA00000000000, 0x4000)]" by (simp add: fits_def demo_layouts)
  from heap_alloc_free_round_trip [OF demo_heap_inv demo_layouts(2) f r agree_refl] r show ?thesis by blast
qed

theorem heap_insert_normal_form_witness:
  "\<exists>h m h' m' bs'. insert_free_block_sorted h m 0xFFFFA00000002000 0x100 = Some (h', m') \<and> heap_inv h' m' bs'"
proof -
  let ?h = "demo_heap\<lparr>heap_free_list := 0\<rparr>"
  have i: "heap_inv ?h (\<lambda>_. 0) []" by (simp add: heap_inv_def demo_heap_def)
  have "unat (heap_base ?h) \<le> unat (0xFFFFA00000002000 :: u64)" "unat (0xFFFFA00000002000 :: u64) + unat (0x100 :: u64) \<le> heap_end ?h"
    "16 \<le> unat (0x100 :: u64)" "{unat (0xFFFFA00000002000 :: u64)..<unat (0xFFFFA00000002000 :: u64) + unat (0x100 :: u64)} \<inter> bytes [] = {}"
    by (simp_all add: demo_heap_def)
  from heap_insert_normal_form [OF i this] show ?thesis by blast
qed

theorem heap_pointer_misaligned_witness:
  "\<exists>p1 st1 p2 st2. allocate byte_layout (demo_heap, demo_heap_mem, demo_mms) = Some (p1, st1) \<and>
     allocate word_layout st1 = Some (p2, st2) \<and> unat p2 mod 8 = 1"
  using heap_pointer_misaligned [OF demo_heap_inv, of demo_mms] by simp

end
