(* ===== verification/Process_Manager.thy ===== *)
theory Process_Manager
  imports Kernel_Steps User_Space
begin

text \<open>
  Processes and threads (process\_manager/): identifiers, construction, spawning
  through the scheduler, registration, lookup and the exit of a thread.  An
  \<^verbatim>\<open>Arc\<close> is a key of a store; a strong reference that goes out of scope as the only one
  removes the key.
\<close>

section \<open>Definitions\<close>

record Process =
  p_id :: u64
  p_name :: string
  p_address_space :: AddressSpace
  p_threads :: "ThreadRef list"

text \<open>
  The kernel and the memory manager, the processes that are alive and the list of the
  registered ones, the next key of a store, and the two identifier counters.
\<close>

record pstate =
  ps_kernel :: kstate
  ps_mm :: mms
  ps_store :: "ProcessRef \<rightharpoonup> Process"
  ps_processes :: "ProcessRef list"
  ps_next_ref :: nat
  ps_next_pid :: u64
  ps_next_tid :: u64

definition ProcessId_IDLE :: u64 where "ProcessId_IDLE = 0"

definition ThreadId_IDLE :: u64 where "ThreadId_IDLE = 0"

definition ProcessId_next :: "pstate \<Rightarrow> u64 \<times> pstate" where
  "ProcessId_next st = (ps_next_pid st, st\<lparr>ps_next_pid := ps_next_pid st + 1\<rparr>)"

definition ThreadId_next :: "pstate \<Rightarrow> u64 \<times> pstate" where
  "ThreadId_next st = (ps_next_tid st, st\<lparr>ps_next_tid := ps_next_tid st + 1\<rparr>)"

definition new_thread_arc :: "Thread \<Rightarrow> pstate \<Rightarrow> ThreadRef \<times> pstate" where
  "new_thread_arc th st = (ps_next_ref st, st\<lparr>ps_next_ref := ps_next_ref st + 1,
     ps_kernel := ps_kernel st\<lparr>ks_threads := (ks_threads (ps_kernel st))(ps_next_ref st \<mapsto> th)\<rparr>\<rparr>)"

definition new_process_arc :: "Process \<Rightarrow> pstate \<Rightarrow> ProcessRef \<times> pstate" where
  "new_process_arc p st = (ps_next_ref st, st\<lparr>ps_next_ref := ps_next_ref st + 1, ps_store := (ps_store st)(ps_next_ref st \<mapsto> p)\<rparr>)"

definition Thread_new :: "string \<Rightarrow> ProcessRef \<Rightarrow> pstate \<Rightarrow> ThreadRef \<times> pstate" where
  "Thread_new name process st = (let (tid, st) = ThreadId_next st in
     new_thread_arc \<lparr>th_id = tid, th_task_id = None, th_name = name, th_state = ThActive, th_process = process\<rparr> st)"

definition Thread_new_idle :: "ProcessRef \<Rightarrow> pstate \<Rightarrow> ThreadRef \<times> pstate" where
  "Thread_new_idle process st =
     new_thread_arc \<lparr>th_id = ThreadId_IDLE, th_task_id = None, th_name = ''Idle'', th_state = ThActive, th_process = process\<rparr> st"

definition Process_new_idle :: "u64 \<Rightarrow> pstate \<Rightarrow> ProcessRef \<times> pstate" where
  "Process_new_idle cr3 st =
     new_process_arc \<lparr>p_id = ProcessId_IDLE, p_name = ''Idle'', p_address_space = AddressSpace_from_existing cr3, p_threads = []\<rparr> st"

definition Process_new_kernel :: "string \<Rightarrow> u64 \<Rightarrow> pstate \<Rightarrow> ProcessRef \<times> pstate" where
  "Process_new_kernel name cr3 st = (let (pid, st) = ProcessId_next st in
     new_process_arc \<lparr>p_id = pid, p_name = name, p_address_space = AddressSpace_from_existing cr3, p_threads = []\<rparr> st)"

definition Process_new_user :: "string \<Rightarrow> u64 \<Rightarrow> pstate \<Rightarrow> (ProcessRef \<times> pstate) option" where
  "Process_new_user name kernel_pml4_phys st = (let (pid, st) = ProcessId_next st in do {
     (as, mm) \<leftarrow> AddressSpace_init kernel_pml4_phys (ps_mm st);
     Some (new_process_arc \<lparr>p_id = pid, p_name = name, p_address_space = as, p_threads = []\<rparr> (st\<lparr>ps_mm := mm\<rparr>))
   })"

definition pml4_phys :: "Process \<Rightarrow> u64" where
  "pml4_phys p = as_pml4_phys (p_address_space p)"

text \<open>
  The tail the two spawning functions share: the task is inserted and queued; on an
  error the task, its stack and the thread are dropped, on success the thread learns
  its task and joins the process.
\<close>

definition finish_spawn :: "ProcessRef \<Rightarrow> ThreadRef \<Rightarrow> Task \<Rightarrow> pstate \<Rightarrow> ((SchedulerError + ThreadRef) \<times> pstate) option" where
  "finish_spawn p thread task st = do {
     (r, ks) \<leftarrow> insert_and_queue_task (ps_kernel st) task;
     case r of
       Inl e \<Rightarrow> Some (Inl e, st\<lparr>ps_kernel := ks\<lparr>ks_threads := (ks_threads ks)(thread := None),
                  ks_freed_stacks := (t_stack_base task, t_stack_size task) # ks_freed_stacks ks\<rparr>\<rparr>)
     | Inr task_id \<Rightarrow> do {
         th \<leftarrow> ks_threads ks thread;
         proc \<leftarrow> ps_store st p;
         Some (Inr thread, st\<lparr>ps_kernel := ks\<lparr>ks_threads := (ks_threads ks)(thread \<mapsto> th\<lparr>th_task_id := Some task_id\<rparr>)\<rparr>,
           ps_store := (ps_store st)(p \<mapsto> proc\<lparr>p_threads := p_threads proc @ [thread]\<rparr>)\<rparr>)
       }
   }"

text \<open>The arguments \<^verbatim>\<open>stub\<close> and \<^verbatim>\<open>base\<close> are the address of the entry trampoline and of the stack the task allocates.\<close>

definition spawn_kernel_thread ::
  "u64 \<Rightarrow> u64 \<Rightarrow> ProcessRef \<Rightarrow> string \<Rightarrow> u64 \<Rightarrow> u64 \<Rightarrow> pstate \<Rightarrow> ((SchedulerError + ThreadRef) \<times> pstate) option" where
  "spawn_kernel_thread stub base p name fn_entry arg st = (
     let (thread, st) = Thread_new name p st;
         (task, m) = Task_new_kernel stub fn_entry arg thread base (ks_mem (ps_kernel st))
     in finish_spawn p thread task (st\<lparr>ps_kernel := ps_kernel st\<lparr>ks_mem := m\<rparr>\<rparr>))"

definition spawn_user_thread ::
  "u64 \<Rightarrow> u64 \<Rightarrow> ProcessRef \<Rightarrow> string \<Rightarrow> u64 \<Rightarrow> pstate \<Rightarrow> ((SchedulerError + ThreadRef) \<times> pstate) option" where
  "spawn_user_thread stub base p name user_entry st = do {
     let (thread, st) = Thread_new name p st;
     proc \<leftarrow> ps_store st p;
     let (task, m) = Task_new_user stub user_entry (as_user_stack_top (p_address_space proc)) (pml4_phys proc) thread base (ks_mem (ps_kernel st));
     finish_spawn p thread task (st\<lparr>ps_kernel := ps_kernel st\<lparr>ks_mem := m\<rparr>\<rparr>)
   }"

definition remove_thread :: "ProcessRef \<Rightarrow> u64 \<Rightarrow> pstate \<Rightarrow> pstate option" where
  "remove_thread p thread_id st = do {
     proc \<leftarrow> ps_store st p;
     let keep = filter (\<lambda>r. map_option th_id (ks_threads (ps_kernel st) r) \<noteq> Some thread_id) (p_threads proc);
     Some (st\<lparr>ps_store := (ps_store st)(p \<mapsto> proc\<lparr>p_threads := keep\<rparr>)\<rparr>)
   }"

definition register_process :: "ProcessRef \<Rightarrow> pstate \<Rightarrow> pstate" where
  "register_process p st = st\<lparr>ps_processes := ps_processes st @ [p]\<rparr>"

definition init_idle_process :: "u64 \<Rightarrow> u64 \<Rightarrow> pstate \<Rightarrow> (ProcessRef \<times> pstate) option" where
  "init_idle_process base cr3 st = do {
     let (p, st) = Process_new_idle cr3 st;
     let (r, st) = Thread_new_idle p st;
     th \<leftarrow> ks_threads (ps_kernel st) r;
     proc \<leftarrow> ps_store st p;
     let st = st\<lparr>ps_kernel := ps_kernel st\<lparr>ks_threads := (ks_threads (ps_kernel st))(r \<mapsto> th\<lparr>th_task_id := Some TaskId_IDLE\<rparr>)\<rparr>\<rparr>;
     let st = st\<lparr>ps_store := (ps_store st)(p \<mapsto> proc\<lparr>p_threads := p_threads proc @ [r]\<rparr>)\<rparr>;
     let st = register_process p st;
     ks \<leftarrow> init_idle (ps_kernel st) r base;
     Some (p, st\<lparr>ps_kernel := ks\<rparr>)
   }"

text \<open>When the spawn fails the only strong reference to the process goes out of scope.\<close>

definition create_kernel_process ::
  "u64 \<Rightarrow> u64 \<Rightarrow> string \<Rightarrow> u64 \<Rightarrow> u64 \<Rightarrow> u64 \<Rightarrow> pstate \<Rightarrow> ((SchedulerError + ProcessRef) \<times> pstate) option" where
  "create_kernel_process stub base name cr3 main_entry main_arg st = do {
     let (p, st) = Process_new_kernel name cr3 st;
     (r, st) \<leftarrow> spawn_kernel_thread stub base p ''main'' main_entry main_arg st;
     case r of
       Inl e \<Rightarrow> Some (Inl e, st\<lparr>ps_store := (ps_store st)(p := None)\<rparr>)
     | Inr _ \<Rightarrow> Some (Inr p, register_process p st)
   }"

definition create_user_process ::
  "u64 \<Rightarrow> u64 \<Rightarrow> string \<Rightarrow> u64 \<Rightarrow> u64 \<Rightarrow> pstate \<Rightarrow> ((SchedulerError + ProcessRef) \<times> pstate) option" where
  "create_user_process stub base name kernel_pml4_phys user_entry st = do {
     (p, st) \<leftarrow> Process_new_user name kernel_pml4_phys st;
     (r, st) \<leftarrow> spawn_user_thread stub base p ''main'' user_entry st;
     case r of
       Inl e \<Rightarrow> Some (Inl e, st\<lparr>ps_store := (ps_store st)(p := None)\<rparr>)
     | Inr _ \<Rightarrow> Some (Inr p, register_process p st)
   }"

definition find_by_name :: "string \<Rightarrow> pstate \<Rightarrow> ProcessRef option" where
  "find_by_name name st = find (\<lambda>p. map_option p_name (ps_store st p) = Some name) (ps_processes st)"

definition Thread_exit :: "ThreadRef \<Rightarrow> kstate \<Rightarrow> kstate option" where
  "Thread_exit r st = do {
     th \<leftarrow> ks_threads st r;
     if th_state th = ThDead \<or> th_state th = ThDying then Some st
     else case th_task_id th of
       None \<Rightarrow> Some st
     | Some task_id \<Rightarrow> queue_system_task st Fn_task_killer (compress_task_id task_id)
   }"

section \<open>The invariant\<close>

text \<open>
  Keys are allocated upwards; registered processes are alive and never empty; every
  thread of a process is alive, has a task and points back to the process; thread
  identifiers are unique and below the counter.
\<close>

definition procs_ok :: "ThreadStore \<Rightarrow> (ProcessRef \<rightharpoonup> Process) \<Rightarrow> ProcessRef list \<Rightarrow> nat \<Rightarrow> u64 \<Rightarrow> bool" where
  "procs_ok T S P n tid \<longleftrightarrow> dom T \<subseteq> {..<n} \<and> dom S \<subseteq> {..<n} \<and> distinct P \<and>
     (\<forall>p\<in>set P. \<exists>proc. S p = Some proc \<and> p_threads proc \<noteq> []) \<and>
     (\<forall>p proc. S p = Some proc \<longrightarrow> distinct (p_threads proc) \<and>
        (\<forall>r\<in>set (p_threads proc). \<exists>th. T r = Some th \<and> th_process th = p \<and> th_task_id th \<noteq> None)) \<and>
     (\<forall>r th. T r = Some th \<longrightarrow> unat (th_id th) < unat tid) \<and>
     (\<forall>r r' th th'. T r = Some th \<longrightarrow> T r' = Some th' \<longrightarrow> th_id th = th_id th' \<longrightarrow> r = r')"

abbreviation pm_ok :: "pstate \<Rightarrow> bool" where
  "pm_ok st \<equiv> procs_ok (ks_threads (ps_kernel st)) (ps_store st) (ps_processes st) (ps_next_ref st) (ps_next_tid st)"

lemma procs_okD:
  assumes "procs_ok T S P n tid"
  shows "dom T \<subseteq> {..<n}" "dom S \<subseteq> {..<n}" "distinct P" "\<And>p. p \<in> set P \<Longrightarrow> \<exists>proc. S p = Some proc \<and> p_threads proc \<noteq> []"
    "\<And>p proc. S p = Some proc \<Longrightarrow> distinct (p_threads proc) \<and>
        (\<forall>r\<in>set (p_threads proc). \<exists>th. T r = Some th \<and> th_process th = p \<and> th_task_id th \<noteq> None)"
    "\<And>r th. T r = Some th \<Longrightarrow> unat (th_id th) < unat tid"
    "\<And>r r' th th'. T r = Some th \<Longrightarrow> T r' = Some th' \<Longrightarrow> th_id th = th_id th' \<Longrightarrow> r = r'"
  using assms unfolding procs_ok_def by blast+

lemma procs_ok_fresh:
  assumes "procs_ok T S P n tid" "n \<le> m"
  shows "T m = None" "S m = None" "m \<notin> set P"
proof -
  show "T m = None" "S m = None" using procs_okD(1,2) [OF assms(1)] assms(2) by (auto simp: subset_iff domIff)
  then show "m \<notin> set P" using procs_okD(4) [OF assms(1), of m] by auto
qed

lemma unat_Suc64: "unat (x :: u64) + 1 < 2 ^ 64 \<Longrightarrow> unat (x + 1) = unat x + 1"
  by (subst unat_add_lem [THEN iffD1]) simp_all

text \<open>A new thread at a fresh key, added to an old process or to a new one.\<close>

lemma procs_ok_thread:
  assumes ok: "procs_ok T S P n tid" and r: "n \<le> r" and w: "unat tid + 1 < 2 ^ 64" and th: "th_id th = tid" "th_process th = p" "th_task_id th \<noteq> None"
    and proc: "distinct (p_threads proc)" "\<forall>r\<in>set (p_threads proc). \<exists>th. T r = Some th \<and> th_process th = p \<and> th_task_id th \<noteq> None" "p < r"
    and P': "distinct P'" "\<forall>q\<in>set P'. q = p \<or> q \<in> set P"
  shows "procs_ok (T(r \<mapsto> th)) (S(p \<mapsto> proc\<lparr>p_threads := p_threads proc @ [r]\<rparr>)) P' (r + 1) (tid + 1)"
proof -
  have fr: "T r = None" by (rule procs_ok_fresh [OF ok r])
  note d = procs_okD [OF ok]
  have nr: "r \<notin> set (p_threads q)" if "S p' = Some q \<or> q = proc" for p' q using d(5) [of p' q] proc(2) fr that by fastforce
  note ids = d(6) and inj = d(7)
  have "dom T \<subseteq> {..<r + 1}" "dom S \<subseteq> {..<r + 1}" using d(1,2) r by auto
  then have dm: "dom (T(r \<mapsto> th)) \<subseteq> {..<r + 1}" "dom (S(p \<mapsto> proc\<lparr>p_threads := p_threads proc @ [r]\<rparr>)) \<subseteq> {..<r + 1}"
    using proc(3) by auto
  have ne: "\<exists>pr. (S(p \<mapsto> proc\<lparr>p_threads := p_threads proc @ [r]\<rparr>)) q = Some pr \<and> p_threads pr \<noteq> []" if "q \<in> set P'" for q
    using P'(2) that d(4) [of q] by (cases "q = p") auto
  have mem: "distinct (p_threads pr) \<and> (\<forall>r'\<in>set (p_threads pr). \<exists>th'. (T(r \<mapsto> th)) r' = Some th' \<and> th_process th' = q \<and> th_task_id th' \<noteq> None)"
    if q: "(S(p \<mapsto> proc\<lparr>p_threads := p_threads proc @ [r]\<rparr>)) q = Some pr" for q pr
  proof (cases "q = p")
    case True
    then have "pr = proc\<lparr>p_threads := p_threads proc @ [r]\<rparr>" using q by simp
    then show ?thesis using proc(1,2) nr [of p proc] th True by auto
  next
    case False
    then have sq: "S q = Some pr" using q by simp
    then have "distinct (p_threads pr) \<and> (\<forall>r'\<in>set (p_threads pr). \<exists>th'. T r' = Some th' \<and> th_process th' = q \<and> th_task_id th' \<noteq> None)"
      using d(5) by blast
    then show ?thesis using nr [of q pr] sq by (metis fun_upd_other)
  qed
  have lt: "unat (th_id th') < unat (tid + 1)" if "(T(r \<mapsto> th)) r' = Some th'" for r' th'
    using that ids [of r' th'] th(1) unat_Suc64 [OF w] by (cases "r' = r") auto
  have ij: "r1 = r2" if "(T(r \<mapsto> th)) r1 = Some t1" "(T(r \<mapsto> th)) r2 = Some t2" "th_id t1 = th_id t2" for r1 r2 t1 t2
  proof -
    have new: "th_id t \<noteq> th_id th" if "T r' = Some t" for r' t using ids [OF that] th(1) by auto
    consider "r1 = r" "r2 = r" | "r1 = r" "r2 \<noteq> r" | "r1 \<noteq> r" "r2 = r" | "r1 \<noteq> r" "r2 \<noteq> r" by blast
    then show ?thesis
    proof cases
      case 4
      then show ?thesis using that inj [of r1 t1 r2 t2] by simp
    qed (use that new in fastforce)+
  qed
  show ?thesis unfolding procs_ok_def
  proof (intro conjI)
    show "\<forall>q pr. (S(p \<mapsto> proc\<lparr>p_threads := p_threads proc @ [r]\<rparr>)) q = Some pr \<longrightarrow> distinct (p_threads pr) \<and>
        (\<forall>r'\<in>set (p_threads pr). \<exists>th'. (T(r \<mapsto> th)) r' = Some th' \<and> th_process th' = q \<and> th_task_id th' \<noteq> None)" using mem by blast
    show "\<forall>r' th'. (T(r \<mapsto> th)) r' = Some th' \<longrightarrow> unat (th_id th') < unat (tid + 1)" using lt by blast
    show "\<forall>r1 r2 t1 t2. (T(r \<mapsto> th)) r1 = Some t1 \<longrightarrow> (T(r \<mapsto> th)) r2 = Some t2 \<longrightarrow> th_id t1 = th_id t2 \<longrightarrow> r1 = r2" using ij by blast
  qed (use dm P'(1) ne in simp_all)
qed

lemma procs_ok_drop:
  assumes "procs_ok T S P n tid" "n \<le> n'" "unat tid + 1 < 2 ^ 64"
  shows "procs_ok T S P n' (tid + 1)"
proof -
  note d = procs_okD [OF assms(1)]
  have "dom T \<subseteq> {..<n'}" "dom S \<subseteq> {..<n'}" using d(1,2) assms(2) by auto
  moreover have "unat (th_id th) < unat (tid + 1)" if "T r = Some th" for r th
    using d(6) [OF that] unat_Suc64 [OF assms(3)] by simp
  ultimately show ?thesis using assms(1) unfolding procs_ok_def by blast
qed

section \<open>Spawning\<close>

lemma insert_and_queue_task_cases:
  assumes kinv: "kinv ks" and q: "sched_at ks BSP c Q" "length Q < QUEUE_SIZE" and t: "t_saved_rsp task \<noteq> 0" "t_thread task \<in> dom (ks_threads ks)"
  shows "insert_and_queue_task ks task = Some (Inl TaskTableFull, ks) \<or>
    (\<exists>k ks'. insert_and_queue_task ks task = Some (Inr k, ks') \<and> kinv ks' \<and> task_of ks' k = Some (task\<lparr>t_id := k, t_state := Ready\<rparr>) \<and>
      ready_list ks' BSP = Q @ [k] \<and> ks_threads ks' = ks_threads ks)"
proof (cases "insert_task (ks_global ks) task")
  case (Inl e)
  then show ?thesis using insert_task_full [of "ks_global ks" task e] by (simp add: insert_and_queue_task_def)
next
  case (Inr kg)
  obtain k g where ins: "insert_task (ks_global ks) task = Inr (k, g)" using Inr by (cases kg) auto
  have "table_ok (ks_global ks)" using kinv by (simp add: kinv_def kbase_def)
  note tk = insert_task_ok [OF this ins]
  have "sched_at (ks\<lparr>ks_global := g\<rparr>) BSP c Q" using q(1) by simp
  then obtain p r where p: "rq_push (ks\<lparr>ks_global := g\<rparr>) BSP k = Some (r, ks\<lparr>ks_global := g, ks_cpu_scheduler := p\<rparr>)"
    "sched_at (ks\<lparr>ks_global := g, ks_cpu_scheduler := p\<rparr>) BSP c (if length Q < QUEUE_SIZE then Q @ [k] else Q)"
    "r = (if length Q < QUEUE_SIZE then Inr () else Inl QueueFull)"
    by (rule rq_push_cases)
  let ?ks = "ks\<lparr>ks_global := g, ks_cpu_scheduler := p\<rparr>"
  have r: "insert_and_queue_task ks task = Some (Inr k, ?ks)" using ins p q(2) by (simp add: insert_and_queue_task_def)
  have "kinv ?ks" by (rule spawn_kinv [OF kinv t r])
  moreover have "task_of ?ks k = Some (task\<lparr>t_id := k, t_state := Ready\<rparr>)" using tk(3) by simp
  moreover have "ready_list ?ks BSP = Q @ [k]" using sched_at_ready_list [OF p(2)] q(2) by simp
  ultimately show ?thesis using r by (intro disjI2 exI [of _ k] exI [of _ ?ks]) simp
qed

definition spawn_failed :: "ThreadRef \<Rightarrow> Task \<Rightarrow> pstate \<Rightarrow> pstate" where
  "spawn_failed r task st = st\<lparr>ps_kernel := ps_kernel st\<lparr>ks_threads := (ks_threads (ps_kernel st))(r := None),
     ks_freed_stacks := (t_stack_base task, t_stack_size task) # ks_freed_stacks (ps_kernel st)\<rparr>\<rparr>"

lemma finish_spawn_cases:
  assumes kinv: "kinv (ps_kernel st)" and q: "sched_at (ps_kernel st) BSP c Q" "length Q < QUEUE_SIZE"
    and t: "t_saved_rsp task \<noteq> 0" "t_thread task = r" and th: "ks_threads (ps_kernel st) r = Some th" and p: "ps_store st p = Some proc"
  shows "finish_spawn p r task st = Some (Inl TaskTableFull, spawn_failed r task st) \<or>
    (\<exists>k ks. finish_spawn p r task st = Some (Inr r, st\<lparr>ps_kernel := ks, ps_store := (ps_store st)(p \<mapsto> proc\<lparr>p_threads := p_threads proc @ [r]\<rparr>)\<rparr>) \<and>
      kinv ks \<and> ks_threads ks = (ks_threads (ps_kernel st))(r \<mapsto> th\<lparr>th_task_id := Some k\<rparr>) \<and>
      task_of ks k = Some (task\<lparr>t_id := k, t_state := Ready\<rparr>) \<and> ready_list ks BSP = Q @ [k])"
proof -
  have "t_thread task \<in> dom (ks_threads (ps_kernel st))" using t(2) th by auto
  from insert_and_queue_task_cases [OF kinv q t(1) this] show ?thesis
  proof (elim disjE exE conjE)
    assume "insert_and_queue_task (ps_kernel st) task = Some (Inl TaskTableFull, ps_kernel st)"
    then show ?thesis by (simp add: finish_spawn_def spawn_failed_def)
  next
    fix k ks' assume ok: "insert_and_queue_task (ps_kernel st) task = Some (Inr k, ks')" "kinv ks'"
      "task_of ks' k = Some (task\<lparr>t_id := k, t_state := Ready\<rparr>)" "ready_list ks' BSP = Q @ [k]" "ks_threads ks' = ks_threads (ps_kernel st)"
    let ?ks = "ks'\<lparr>ks_threads := (ks_threads ks')(r \<mapsto> th\<lparr>th_task_id := Some k\<rparr>)\<rparr>"
    have "kinv ?ks" by (rule compute_kinv(3) [OF ok(2)]) auto
    then show ?thesis using ok th p by (intro disjI2 exI [of _ k] exI [of _ ?ks]) (simp add: finish_spawn_def ready_list_def)
  qed
qed

lemma kinv_freed: "kinv st \<Longrightarrow> kinv (st\<lparr>ks_freed_stacks := fs\<rparr>)"
  by (simp add: kinv_def kbase_def tomb_ok_def runs_def sched_at_def saved_ok_def)

section \<open>Processes\<close>

lemma Task_new_kernel_fields:
  assumes "unat base + 16384 < 2 ^ 64" "Task_new_kernel stub fn_entry arg r base m = (task, m')"
  shows "t_thread task = r" "t_saved_rsp task \<noteq> 0" "t_cr3 task = 0"
proof -
  show "t_thread task = r" "t_cr3 task = 0" using assms(2) by (auto simp: Task_new_kernel_def Let_def)
  have "unat base + 16368 < unat (t_kernel_stack_top task)"
    using aligned_top(2) [OF assms(1)] assms(2) by (auto simp: Task_new_kernel_def Let_def)
  then have "unat (t_saved_rsp task) \<noteq> 0" using Task_new_kernel_geometry(2) [OF assms] by simp
  then show "t_saved_rsp task \<noteq> 0" by auto
qed

lemma Task_new_user_fields:
  assumes "unat base + 16384 < 2 ^ 64" "Task_new_user stub user_entry us cr3 r base m = (task, m')"
  shows "t_thread task = r" "t_saved_rsp task \<noteq> 0" "t_cr3 task = cr3" "t_is_user_task task"
proof -
  let ?top = "(base + TASK_STACK_SIZE) AND NOT 0xF"
  have t: "t_thread task = r" "t_cr3 task = cr3" "t_is_user_task task" "t_saved_rsp task = (?top - UserInitialFrame_size) AND NOT 0xF"
    using assms(2) by (auto simp: Task_new_user_def Let_def)
  then show "t_thread task = r" "t_cr3 task = cr3" "t_is_user_task task" by simp_all
  have "unat ((?top - UserInitialFrame_size) AND NOT 0xF) = unat ?top - 96"
    using aligned_frame [of ?top 6 UserInitialFrame_size 0] aligned_top [OF assms(1)] by (simp add: UserInitialFrame_size_def)
  then have "unat (t_saved_rsp task) \<noteq> 0" using aligned_top(2) [OF assms(1)] t(4) by simp
  then show "t_saved_rsp task \<noteq> 0" by auto
qed

text \<open>A running process: its one thread is backed by a task that is ready to be scheduled.\<close>

definition one_thread :: "pstate \<Rightarrow> ProcessRef \<Rightarrow> u64 \<Rightarrow> bool" where
  "one_thread st p cr3 \<longleftrightarrow> (\<exists>proc r th k t. ps_store st p = Some proc \<and> p_threads proc = [r] \<and>
     ks_threads (ps_kernel st) r = Some th \<and> th_process th = p \<and> th_task_id th = Some k \<and>
     task_of (ps_kernel st) k = Some t \<and> t_thread t = r \<and> t_state t = Ready \<and> t_cr3 t = cr3 \<and>
     k \<in> set (ready_list (ps_kernel st) BSP))"

lemma spawn_into_new_process:
  assumes kinv: "kinv (ps_kernel st)" and ok: "pm_ok st" and q: "sched_at (ps_kernel st) BSP c Q" "length Q < QUEUE_SIZE"
    and w: "unat (ps_next_tid st) + 1 < 2 ^ 64" and p: "p = ps_next_ref st" "p_threads proc = []" and task: "t_thread task = Suc p" "t_saved_rsp task \<noteq> 0"
    and st1: "st1 = st\<lparr>ps_next_pid := pid, ps_mm := mm, ps_store := (ps_store st)(p \<mapsto> proc), ps_next_tid := ps_next_tid st + 1,
        ps_next_ref := Suc (Suc p), ps_kernel := ps_kernel st\<lparr>ks_threads := (ks_threads (ps_kernel st))(Suc p \<mapsto> th), ks_mem := m\<rparr>\<rparr>"
    and th: "th_id th = ps_next_tid st" "th_process th = p"
  shows "(\<exists>st2. finish_spawn p (Suc p) task st1 = Some (Inr (Suc p), st2) \<and> kinv (ps_kernel st2) \<and> pm_ok (register_process p st2) \<and>
      one_thread st2 p (t_cr3 task) \<and> ps_processes st2 = ps_processes st \<and> ps_mm st2 = mm) \<or>
    (\<exists>st2. finish_spawn p (Suc p) task st1 = Some (Inl TaskTableFull, st2) \<and> kinv (ps_kernel st2) \<and> pm_ok (st2\<lparr>ps_store := (ps_store st2)(p := None)\<rparr>) \<and>
      ps_processes st2 = ps_processes st \<and> (ps_store st2)(p := None) = ps_store st \<and> ks_threads (ps_kernel st2) = ks_threads (ps_kernel st) \<and>
      ks_global (ps_kernel st2) = ks_global (ps_kernel st) \<and> ps_mm st2 = mm)"
proof -
  let ?T = "ks_threads (ps_kernel st)"
  have fr: "?T p = None" "?T (Suc p) = None" "ps_store st p = None" "p \<notin> set (ps_processes st)"
    using procs_ok_fresh [OF ok, of p] procs_ok_fresh [OF ok, of "Suc p"] p(1) by simp_all
  have k1: "kinv (ps_kernel st1)"
  proof -
    have "kinv (ps_kernel st\<lparr>ks_threads := ?T(Suc p \<mapsto> th)\<rparr>)" by (rule compute_kinv(3) [OF kinv]) auto
    from compute_kinv(1) [OF this, where regs = "ks_regs (ps_kernel st)" and m = m] show ?thesis by (simp add: st1)
  qed
  have q1: "sched_at (ps_kernel st1) BSP c Q" using q(1) by (simp add: st1 sched_at_def)
  have s1: "ks_threads (ps_kernel st1) (Suc p) = Some th" "ps_store st1 p = Some proc" by (simp_all add: st1)
  from finish_spawn_cases [OF k1 q1 q(2) task(2,1) s1] show ?thesis
  proof (elim disjE exE conjE)
    assume r: "finish_spawn p (Suc p) task st1 = Some (Inl TaskTableFull, spawn_failed (Suc p) task st1)"
    let ?st = "spawn_failed (Suc p) task st1"
    have T: "ks_threads (ps_kernel ?st) = ?T" using fr(2) by (auto simp: spawn_failed_def st1)
    have S: "(ps_store ?st)(p := None) = ps_store st" using fr(3) by (auto simp: spawn_failed_def st1)
    have o: "ps_processes ?st = ps_processes st" "ps_next_ref ?st = Suc (Suc p)" "ps_next_tid ?st = ps_next_tid st + 1"
      "ps_mm ?st = mm" "ks_global (ps_kernel ?st) = ks_global (ps_kernel st)" by (simp_all add: spawn_failed_def st1)
    have "ps_kernel ?st = ps_kernel st\<lparr>ks_regs := ks_regs (ps_kernel st), ks_mem := m\<rparr>
        \<lparr>ks_freed_stacks := (t_stack_base task, t_stack_size task) # ks_freed_stacks (ps_kernel st)\<rparr>"
      using T by (simp add: spawn_failed_def st1)
    then have "kinv (ps_kernel ?st)" using kinv_freed [OF compute_kinv(1) [OF kinv]] by metis
    moreover have "pm_ok (?st\<lparr>ps_store := (ps_store ?st)(p := None)\<rparr>)"
      using procs_ok_drop [OF ok _ w, of "Suc (Suc p)"] p(1) T S o by simp
    ultimately show ?thesis using r T S o by (intro disjI2 exI [of _ ?st]) simp
  next
    fix k ks assume r: "finish_spawn p (Suc p) task st1 = Some (Inr (Suc p), st1\<lparr>ps_kernel := ks,
        ps_store := (ps_store st1)(p \<mapsto> proc\<lparr>p_threads := p_threads proc @ [Suc p]\<rparr>)\<rparr>)" "kinv ks"
      "ks_threads ks = (ks_threads (ps_kernel st1))(Suc p \<mapsto> th\<lparr>th_task_id := Some k\<rparr>)"
      "task_of ks k = Some (task\<lparr>t_id := k, t_state := Ready\<rparr>)" "ready_list ks BSP = Q @ [k]"
    let ?st = "st1\<lparr>ps_kernel := ks, ps_store := (ps_store st1)(p \<mapsto> proc\<lparr>p_threads := p_threads proc @ [Suc p]\<rparr>)\<rparr>"
    have T: "ks_threads ks = ?T(Suc p \<mapsto> th\<lparr>th_task_id := Some k\<rparr>)" using r(3) by (simp add: st1)
    have "procs_ok (?T(Suc p \<mapsto> th\<lparr>th_task_id := Some k\<rparr>)) ((ps_store st)(p \<mapsto> proc\<lparr>p_threads := p_threads proc @ [Suc p]\<rparr>))
        (ps_processes st @ [p]) (Suc p + 1) (ps_next_tid st + 1)"
      by (rule procs_ok_thread [OF ok _ w]) (use p th fr procs_okD(3) [OF ok] in auto)
    then have "pm_ok (register_process p ?st)" using T by (simp add: register_process_def st1)
    moreover have "one_thread ?st p (t_cr3 task)" unfolding one_thread_def using T r(4,5) p(2) task(1) th(2)
      by (intro exI [of _ "proc\<lparr>p_threads := p_threads proc @ [Suc p]\<rparr>"] exI [of _ "Suc p"] exI [of _ "th\<lparr>th_task_id := Some k\<rparr>"]
        exI [of _ k] exI [of _ "task\<lparr>t_id := k, t_state := Ready\<rparr>"]) simp
    ultimately show ?thesis using r(1,2) by (intro disjI1 exI [of _ ?st]) (simp, simp add: st1)
  qed
qed

lemma one_thread_register [simp]: "one_thread (register_process p st) q cr3 = one_thread st q cr3"
  by (simp add: one_thread_def register_process_def)

lemma register_simps [simp]:
  "ps_kernel (register_process p st) = ps_kernel st" "ps_processes (register_process p st) = ps_processes st @ [p]" "ps_mm (register_process p st) = ps_mm st"
  by (simp_all add: register_process_def)



section \<open>A concrete process manager\<close>

definition demo_pstate :: pstate where
  "demo_pstate = \<lparr>ps_kernel = the (init_idle demo_boot 0 0x100000), ps_mm = demo_mms, ps_store = Map.empty,
     ps_processes = [], ps_next_ref = 1, ps_next_pid = 1, ps_next_tid = 1\<rparr>"

lemma demo_pstate_ok:
  "kinv (ps_kernel demo_pstate)" "pm_ok demo_pstate" "sched_at (ps_kernel demo_pstate) BSP TaskId_IDLE []"
  "unat (ps_next_tid demo_pstate) + 1 < 2 ^ 64" "vm_ok (vm_of (ps_mm demo_pstate)) 0x1000 (rev demo_frames)"
proof -
  obtain st where st: "init_idle demo_boot 0 0x100000 = Some st" "kinv st" "sched_at st BSP TaskId_IDLE []" "ks_threads st = ks_threads demo_boot"
    using init_idle_kinv [OF demo_boot_state] by blast
  show "kinv (ps_kernel demo_pstate)" "sched_at (ps_kernel demo_pstate) BSP TaskId_IDLE []"
    using st(1-3) by (simp_all add: demo_pstate_def)
  show "pm_ok demo_pstate" using st(1,4) by (simp add: demo_pstate_def demo_boot_def procs_ok_def)
  show "unat (ps_next_tid demo_pstate) + 1 < 2 ^ 64" by (simp add: demo_pstate_def)
  show "vm_ok (vm_of (ps_mm demo_pstate)) 0x1000 (rev demo_frames)" by (simp add: demo_pstate_def demo_mms_ok)
qed



end
