(* ===== verification/Hash_Blocks.thy ===== *)
theory Hash_Blocks
  imports Bytes
begin

text \<open>
  What the hash functions share: splitting a message into blocks, the padding loop of
  MD5, SHA-1 and SHA-256, and the contract of an iterated hash over padded blocks with
  its length-extension law.
\<close>

section \<open>Blocks of a message\<close>

text \<open>\<^verbatim>\<open>slice::chunks_exact\<close>: the remainder is not a block.\<close>

function chunks_exact :: "nat \<Rightarrow> 'a list \<Rightarrow> 'a list list" where
  "chunks_exact n xs = (if n = 0 \<or> length xs < n then [] else take n xs # chunks_exact n (drop n xs))"
  by pat_completeness auto

termination
  by (relation "measure (\<lambda>(n, xs). length xs)") auto

declare chunks_exact.simps [simp del]

lemma chunks_exact_short [simp]: "length xs < n \<Longrightarrow> chunks_exact n xs = []"
  by (subst chunks_exact.simps) simp

lemma chunks_exact_block [simp]: "0 < n \<Longrightarrow> length b = n \<Longrightarrow> chunks_exact n (b @ xs) = b # chunks_exact n xs"
  by (subst chunks_exact.simps) simp

lemma chunks_exact_append:
  assumes "0 < n" "length xs = k * n"
  shows "chunks_exact n (xs @ ys) = chunks_exact n xs @ chunks_exact n ys"
  using assms(2)
proof (induction k arbitrary: xs)
  case (Suc k)
  have xs: "length (take n xs) = n" "length (drop n xs) = k * n" using Suc.prems by simp_all
  have "chunks_exact n (xs @ ys) = take n xs # chunks_exact n (drop n xs @ ys)"
    using chunks_exact_block [OF assms(1) xs(1), of "drop n xs @ ys"]
    unfolding append.assoc [symmetric] append_take_drop_id .
  moreover have "chunks_exact n xs = take n xs # chunks_exact n (drop n xs)"
    using chunks_exact_block [OF assms(1) xs(1), of "drop n xs"] unfolding append_take_drop_id .
  ultimately show ?case using Suc.IH [OF xs(2)] by simp
qed (use assms(1) in simp)

lemma chunks_exact_concat: "0 < n \<Longrightarrow> \<forall>b\<in>set bs. length b = n \<Longrightarrow> chunks_exact n (concat bs) = bs"
  by (induction bs) simp_all

section \<open>Padding\<close>

text \<open>The number of zero bytes the loop pushes on a message of length n; it is the measure of the loop.\<close>

definition zero_count :: "nat \<Rightarrow> nat" where
  "zero_count n = (if n mod 64 \<le> 56 then 56 - n mod 64 else 120 - n mod 64)"

lemma zero_count_Suc: "n mod 64 \<noteq> 56 \<Longrightarrow> zero_count n = Suc (zero_count (Suc n))"
  using mod_less_divisor [of 64 n] unfolding zero_count_def mod_Suc by (auto simp del: mod_less_divisor)

text \<open>The loop that pushes zero bytes until the length is 56 modulo 64.\<close>

function pad_zeros :: "u8 list \<Rightarrow> u8 list" where
  "pad_zeros msg = (if length msg mod 64 \<noteq> 56 then pad_zeros (msg @ [0]) else msg)"
  by pat_completeness auto

termination
  by (relation "measure (zero_count \<circ> length)") (simp_all add: zero_count_Suc)

declare pad_zeros.simps [simp del]

lemma pad_zeros_eq: "pad_zeros msg = msg @ replicate (zero_count (length msg)) 0"
proof (induction msg rule: pad_zeros.induct)
  case (1 msg)
  show ?case
  proof (cases "length msg mod 64 = 56")
    case True
    then show ?thesis by (subst pad_zeros.simps) (simp add: zero_count_def)
  next
    case False
    then show ?thesis using 1 [OF False] zero_count_Suc [OF False] by (subst pad_zeros.simps) simp
  qed
qed

lemma zero_count_mod: "(n + zero_count n) mod 64 = 56"
proof -
  define r where "r = n mod 64"
  have r: "r < 64" by (simp add: r_def)
  have "(n + zero_count n) mod 64 = (r + (if r \<le> 56 then 56 - r else 120 - r)) mod 64"
    by (simp add: zero_count_def r_def mod_add_left_eq)
  also have "\<dots> = 56" using r by (cases "r \<le> 56") simp_all
  finally show ?thesis .
qed

text \<open>The bit length of the input as the sources compute it, in wrapping 64-bit arithmetic.\<close>

definition bit_length :: "u8 list \<Rightarrow> u64" where
  "bit_length input = of_nat (length input) * 8"

definition md_pad :: "(u64 \<Rightarrow> u8 list) \<Rightarrow> u8 list \<Rightarrow> u8 list" where
  "md_pad enc input = pad_zeros (input @ [0x80]) @ enc (bit_length input)"

text \<open>What padding appends to a message of length n.\<close>

definition md_glue :: "(u64 \<Rightarrow> u8 list) \<Rightarrow> nat \<Rightarrow> u8 list" where
  "md_glue enc n = 0x80 # replicate (zero_count (n + 1)) 0 @ enc (of_nat n * 8)"

lemma md_pad_glue: "md_pad enc input = input @ md_glue enc (length input)"
  by (simp add: md_pad_def md_glue_def pad_zeros_eq bit_length_def)

lemma md_glue_length:
  assumes "\<And>w. length (enc w) = 8"
  shows "\<exists>k. n + length (md_glue enc n) = k * 64"
proof -
  have "n + length (md_glue enc n) = n + 1 + zero_count (n + 1) + 8" using assms by (simp add: md_glue_def)
  then have "(n + length (md_glue enc n)) mod 64 = ((n + 1 + zero_count (n + 1)) mod 64 + 8) mod 64"
    by (simp only: mod_add_left_eq)
  also have "\<dots> = 0" unfolding zero_count_mod by simp
  finally show ?thesis by (metis mod_0_imp_dvd dvd_def mult.commute)
qed

lemma zero_count_bound: "zero_count n < 64"
  using mod_less_divisor [of 64 n] by (auto simp: zero_count_def simp del: mod_less_divisor)

lemma of_nat_eq_iff_mod: "(of_nat a :: u64) = of_nat b \<longleftrightarrow> a mod 2 ^ 64 = b mod 2 ^ 64"
  using word_of_nat_eq_iff [of a b, where ?'a = 64] by (simp add: take_bit_eq_mod)

lemma close_mod_eq:
  assumes "a mod M = b mod (M :: nat)" "a < b + M" "b < a + M"
  shows "a = b"
proof (cases "a \<le> b")
  case True
  then have "M dvd b - a" using assms(1) mod_eq_dvd_iff_nat [of a b M] by simp
  then show ?thesis using assms(3) True by (cases "b - a = 0") (auto dest: dvd_imp_le)
next
  case False
  then have "M dvd a - b" using assms(1) mod_eq_dvd_iff_nat [of b a M] by simp
  then show ?thesis using assms(2) False by (cases "a - b = 0") (auto dest: dvd_imp_le)
qed

text \<open>Distinct messages have distinct paddings, although the length field wraps at two to the 64 bits.\<close>

lemma md_pad_inj:
  assumes enc: "\<And>w. length (enc w) = 8" "inj enc" and eq: "md_pad enc m = md_pad enc m'"
  shows "m = m'"
proof -
  have len: "length m + zero_count (length m + 1) = length m' + zero_count (length m' + 1)"
    using arg_cong [OF eq, of length] enc(1) by (simp add: md_pad_glue md_glue_def)
  define A where "A x = x @ 0x80 # replicate (zero_count (length x + 1)) 0" for x :: "u8 list"
  define E where "E x = enc (of_nat (length x * 8))" for x :: "u8 list"
  have "md_pad enc x = A x @ E x" for x by (simp add: md_pad_glue md_glue_def A_def E_def)
  then have "A m @ E m = A m' @ E m'" using eq by (simp only:)
  moreover have "length (E m) = length (E m')" by (simp only: E_def enc(1))
  ultimately have "E m = E m'" using append_eq_append_conv [OF disjI2] by blast
  then have "(of_nat (length m * 8) :: u64) = of_nat (length m' * 8)" unfolding E_def by (rule injD [OF enc(2)])
  then have "length m * 8 mod 2 ^ 64 = length m' * 8 mod 2 ^ 64" by (simp only: of_nat_eq_iff_mod)
  moreover have "length m < length m' + 64" "length m' < length m + 64"
    using len zero_count_bound [of "length m + 1"] zero_count_bound [of "length m' + 1"] by linarith+
  then have "length m * 8 < length m' * 8 + 2 ^ 64" "length m' * 8 < length m * 8 + 2 ^ 64" by simp_all
  ultimately have "length m * 8 = length m' * 8" by (rule close_mod_eq)
  then have "length m = length m'" by simp
  then show ?thesis using eq by (simp add: md_pad_glue)
qed

section \<open>Iterated hashes\<close>

definition md_hash ::
  "(u64 \<Rightarrow> u8 list) \<Rightarrow> 's \<Rightarrow> (u8 list \<Rightarrow> 's \<Rightarrow> 's) \<Rightarrow> ('s \<Rightarrow> u8 list) \<Rightarrow> u8 list \<Rightarrow> u8 list" where
  "md_hash enc init block_step digest input = digest (fold block_step (chunks_exact 64 (md_pad enc input)) init)"

text \<open>What someone can compute who knows a digest and the padded length of the hashed message only.\<close>

definition md_resume ::
  "(u64 \<Rightarrow> u8 list) \<Rightarrow> (u8 list \<Rightarrow> 's) \<Rightarrow> (u8 list \<Rightarrow> 's \<Rightarrow> 's) \<Rightarrow> ('s \<Rightarrow> u8 list) \<Rightarrow> u8 list \<Rightarrow> nat \<Rightarrow> u8 list \<Rightarrow> u8 list" where
  "md_resume enc undigest block_step digest d n x =
     digest (fold block_step (chunks_exact 64 (x @ md_glue enc (n + length x))) (undigest d))"

text \<open>
  The contract the three functions share.  The digest encodes the chaining state, which
  is why a digest can be continued.
\<close>

locale iterated_hash =
  fixes enc :: "u64 \<Rightarrow> u8 list" and init :: 's and block_step :: "u8 list \<Rightarrow> 's \<Rightarrow> 's"
    and digest :: "'s \<Rightarrow> u8 list" and undigest :: "u8 list \<Rightarrow> 's" and valid :: "'s \<Rightarrow> bool" and size_of :: nat
  assumes enc_length: "length (enc w) = 8"
    and init_valid: "valid init"
    and step_valid: "valid s \<Longrightarrow> valid (block_step b s)"
    and digest_length: "valid s \<Longrightarrow> length (digest s) = size_of"
    and undigest_digest: "valid s \<Longrightarrow> undigest (digest s) = s"
begin

lemma fold_valid: "valid s \<Longrightarrow> valid (fold block_step bs s)"
  by (induction bs arbitrary: s) (auto intro: step_valid)

lemma hash_length: "length (md_hash enc init block_step digest input) = size_of"
  unfolding md_hash_def by (intro digest_length fold_valid init_valid)

lemma hash_extension: "md_hash enc init block_step digest (md_pad enc m @ x) =
    md_resume enc undigest block_step digest (md_hash enc init block_step digest m) (length (md_pad enc m)) x"
proof -
  obtain k where k: "length (md_pad enc m) = k * 64"
    using md_glue_length [of enc "length m"] enc_length by (auto simp: md_pad_glue)
  have "chunks_exact 64 (md_pad enc (md_pad enc m @ x)) =
      chunks_exact 64 (md_pad enc m) @ chunks_exact 64 (x @ md_glue enc (length (md_pad enc m) + length x))"
    using chunks_exact_append [OF _ k] by (simp add: md_pad_glue [of enc "md_pad enc m @ x"])
  then show ?thesis
    by (simp add: md_hash_def md_resume_def undigest_digest [OF fold_valid [OF init_valid]])
qed

end

end
