(* ===== verification/Hashes.thy ===== *)
theory Hashes
  imports Hash_Blocks
begin

text \<open>
  MD5, SHA-1 and SHA-256 (crypto/hash/md5.rs, sha1.rs, sha2.rs) and HMAC-SHA-256
  (crypto/hmac/sha256.rs).  Fixed-size arrays are lists, indexed loops are folds over
  the index range.
\<close>

section \<open>SHA-1\<close>

text \<open>The message words of a block, read in big-endian order.\<close>

definition be_words :: "u8 list \<Rightarrow> u32 list" where
  "be_words block = map (\<lambda>i. from_be (take 4 (drop (i * 4) block))) [0..<16]"

definition sha1_schedule :: "u8 list \<Rightarrow> u32 list" where
  "sha1_schedule block = fold (\<lambda>i w. w[i := word_rotl 1 (w ! (i - 3) XOR w ! (i - 8) XOR w ! (i - 14) XOR w ! (i - 16))])
     [16..<80] (be_words block @ replicate 64 0)"

definition sha1_fk :: "nat \<Rightarrow> u32 \<Rightarrow> u32 \<Rightarrow> u32 \<Rightarrow> u32 \<times> u32" where
  "sha1_fk i b c d =
     (if i \<le> 19 then ((b AND c) OR (NOT b AND d), 0x5A827999)
      else if i \<le> 39 then (b XOR c XOR d, 0x6ED9EBA1)
      else if i \<le> 59 then ((b AND c) OR (b AND d) OR (c AND d), 0x8F1BBCDC)
      else (b XOR c XOR d, 0xCA62C1D6))"

definition sha1_round :: "u32 list \<Rightarrow> nat \<Rightarrow> u32 \<times> u32 \<times> u32 \<times> u32 \<times> u32 \<Rightarrow> u32 \<times> u32 \<times> u32 \<times> u32 \<times> u32" where
  "sha1_round w i = (\<lambda>(a, b, c, d, e).
     let (f, k) = sha1_fk i b c d;
         temp = word_rotl 5 a + f + e + k + w ! i
     in (temp, a, word_rotl 30 b, c, d))"

definition sha1_block :: "u8 list \<Rightarrow> u32 list \<Rightarrow> u32 list" where
  "sha1_block block h = (
     let w = sha1_schedule block;
         (a, b, c, d, e) = fold (sha1_round w) [0..<80] (h ! 0, h ! 1, h ! 2, h ! 3, h ! 4)
     in [h ! 0 + a, h ! 1 + b, h ! 2 + c, h ! 3 + d, h ! 4 + e])"

definition SHA1_H :: "u32 list" where
  "SHA1_H = [0x67452301, 0xEFCDAB89, 0x98BADCFE, 0x10325476, 0xC3D2E1F0]"

definition sha1 :: "u8 list \<Rightarrow> u8 list" where
  "sha1 input = concat (map (to_be 4) (fold sha1_block (chunks_exact 64 (md_pad (to_be 8) input)) SHA1_H))"

section \<open>SHA-256\<close>

definition SHA256_K :: "u32 list" where
  "SHA256_K = [0x428A2F98, 0x71374491, 0xB5C0FBCF, 0xE9B5DBA5,
     0x3956C25B, 0x59F111F1, 0x923F82A4, 0xAB1C5ED5,
     0xD807AA98, 0x12835B01, 0x243185BE, 0x550C7DC3,
     0x72BE5D74, 0x80DEB1FE, 0x9BDC06A7, 0xC19BF174,
     0xE49B69C1, 0xEFBE4786, 0xFC19DC6, 0x240CA1CC,
     0x2DE92C6F, 0x4A7484AA, 0x5CB0A9DC, 0x76F988DA,
     0x983E5152, 0xA831C66D, 0xB00327C8, 0xBF597FC7,
     0xC6E00BF3, 0xD5A79147, 0x6CA6351, 0x14292967,
     0x27B70A85, 0x2E1B2138, 0x4D2C6DFC, 0x53380D13,
     0x650A7354, 0x766A0ABB, 0x81C2C92E, 0x92722C85,
     0xA2BFE8A1, 0xA81A664B, 0xC24B8B70, 0xC76C51A3,
     0xD192E819, 0xD6990624, 0xF40E3585, 0x106AA070,
     0x19A4C116, 0x1E376C08, 0x2748774C, 0x34B0BCB5,
     0x391C0CB3, 0x4ED8AA4A, 0x5B9CCA4F, 0x682E6FF3,
     0x748F82EE, 0x78A5636F, 0x84C87814, 0x8CC70208,
     0x90BEFFFA, 0xA4506CEB, 0xBEF9A3F7, 0xC67178F2]"

definition sha256_schedule :: "u8 list \<Rightarrow> u32 list" where
  "sha256_schedule block = fold (\<lambda>i w.
       let s0 = word_rotr 7 (w ! (i - 15)) XOR word_rotr 18 (w ! (i - 15)) XOR drop_bit 3 (w ! (i - 15));
           s1 = word_rotr 17 (w ! (i - 2)) XOR word_rotr 19 (w ! (i - 2)) XOR drop_bit 10 (w ! (i - 2))
       in w[i := w ! (i - 16) + s0 + w ! (i - 7) + s1])
     [16..<64] (be_words block @ replicate 48 0)"

type_synonym sha256_vars = "u32 \<times> u32 \<times> u32 \<times> u32 \<times> u32 \<times> u32 \<times> u32 \<times> u32"

definition sha256_round :: "u32 list \<Rightarrow> nat \<Rightarrow> sha256_vars \<Rightarrow> sha256_vars" where
  "sha256_round w i = (\<lambda>(a, b, c, d, e, f, g, hh).
     let s1 = word_rotr 6 e XOR word_rotr 11 e XOR word_rotr 25 e;
         ch = (e AND f) XOR (NOT e AND g);
         temp1 = hh + s1 + ch + SHA256_K ! i + w ! i;
         s0 = word_rotr 2 a XOR word_rotr 13 a XOR word_rotr 22 a;
         maj = (a AND b) XOR (a AND c) XOR (b AND c);
         temp2 = s0 + maj
     in (temp1 + temp2, a, b, c, d + temp1, e, f, g))"

definition sha256_block :: "u8 list \<Rightarrow> u32 list \<Rightarrow> u32 list" where
  "sha256_block block h = (
     let w = sha256_schedule block;
         (a, b, c, d, e, f, g, hh) =
           fold (sha256_round w) [0..<64] (h ! 0, h ! 1, h ! 2, h ! 3, h ! 4, h ! 5, h ! 6, h ! 7)
     in [h ! 0 + a, h ! 1 + b, h ! 2 + c, h ! 3 + d, h ! 4 + e, h ! 5 + f, h ! 6 + g, h ! 7 + hh])"

definition SHA256_H :: "u32 list" where
  "SHA256_H = [0x6A09E667, 0xBB67AE85, 0x3C6EF372, 0xA54FF53A, 0x510E527F, 0x9B05688C, 0x1F83D9AB, 0x5BE0CD19]"

definition sha256 :: "u8 list \<Rightarrow> u8 list" where
  "sha256 input = concat (map (to_be 4) (fold sha256_block (chunks_exact 64 (md_pad (to_be 8) input)) SHA256_H))"

section \<open>MD5\<close>

definition MD5_SHIFTS :: "nat list" where
  "MD5_SHIFTS = [7, 12, 17, 22, 7, 12, 17, 22, 7, 12, 17, 22, 7, 12, 17, 22,
     5, 9, 14, 20, 5, 9, 14, 20, 5, 9, 14, 20, 5, 9, 14, 20,
     4, 11, 16, 23, 4, 11, 16, 23, 4, 11, 16, 23, 4, 11, 16, 23,
     6, 10, 15, 21, 6, 10, 15, 21, 6, 10, 15, 21, 6, 10, 15, 21]"

definition MD5_K :: "u32 list" where
  "MD5_K = [0xD76AA478, 0xE8C7B756, 0x242070DB, 0xC1BDCEEE,
     0xF57C0FAF, 0x4787C62A, 0xA8304613, 0xFD469501,
     0x698098D8, 0x8B44F7AF, 0xFFFF5BB1, 0x895CD7BE,
     0x6B901122, 0xFD987193, 0xA679438E, 0x49B40821,
     0xF61E2562, 0xC040B340, 0x265E5A51, 0xE9B6C7AA,
     0xD62F105D, 0x2441453, 0xD8A1E681, 0xE7D3FBC8,
     0x21E1CDE6, 0xC33707D6, 0xF4D50D87, 0x455A14ED,
     0xA9E3E905, 0xFCEFA3F8, 0x676F02D9, 0x8D2A4C8A,
     0xFFFA3942, 0x8771F681, 0x6D9D6122, 0xFDE5380C,
     0xA4BEEA44, 0x4BDECFA9, 0xF6BB4B60, 0xBEBFBC70,
     0x289B7EC6, 0xEAA127FA, 0xD4EF3085, 0x4881D05,
     0xD9D4D039, 0xE6DB99E5, 0x1FA27CF8, 0xC4AC5665,
     0xF4292244, 0x432AFF97, 0xAB9423A7, 0xFC93A039,
     0x655B59C3, 0x8F0CCC92, 0xFFEFF47D, 0x85845DD1,
     0x6FA87E4F, 0xFE2CE6E0, 0xA3014314, 0x4E0811A1,
     0xF7537E82, 0xBD3AF235, 0x2AD7D2BB, 0xEB86D391]"

definition le_words :: "u8 list \<Rightarrow> u32 list" where
  "le_words block = map (\<lambda>i. from_le (take 4 (drop (i * 4) block))) [0..<16]"

definition md5_fg :: "nat \<Rightarrow> u32 \<Rightarrow> u32 \<Rightarrow> u32 \<Rightarrow> u32 \<times> nat" where
  "md5_fg i b c d =
     (if i \<le> 15 then ((b AND c) OR (NOT b AND d), i)
      else if i \<le> 31 then ((d AND b) OR (NOT d AND c), (5 * i + 1) mod 16)
      else if i \<le> 47 then (b XOR c XOR d, (3 * i + 5) mod 16)
      else (c XOR (b OR NOT d), (7 * i) mod 16))"

definition md5_round :: "u32 list \<Rightarrow> nat \<Rightarrow> u32 \<times> u32 \<times> u32 \<times> u32 \<Rightarrow> u32 \<times> u32 \<times> u32 \<times> u32" where
  "md5_round m i = (\<lambda>(a, b, c, d).
     let (f, g) = md5_fg i b c d
     in (d, b + word_rotl (MD5_SHIFTS ! i) (a + f + MD5_K ! i + m ! g), b, c))"

definition md5_block :: "u8 list \<Rightarrow> u32 list \<Rightarrow> u32 list" where
  "md5_block block h = (
     let m = le_words block;
         (a, b, c, d) = fold (md5_round m) [0..<64] (h ! 0, h ! 1, h ! 2, h ! 3)
     in [h ! 0 + a, h ! 1 + b, h ! 2 + c, h ! 3 + d])"

definition MD5_H :: "u32 list" where
  "MD5_H = [0x67452301, 0xEFCDAB89, 0x98BADCFE, 0x10325476]"

definition md5 :: "u8 list \<Rightarrow> u8 list" where
  "md5 input = concat (map (to_le 4) (fold md5_block (chunks_exact 64 (md_pad (to_le 8) input)) MD5_H))"

section \<open>HMAC-SHA-256\<close>

definition BLOCK_LEN :: nat where "BLOCK_LEN = 64"

definition hmac_k_prime :: "u8 list \<Rightarrow> u8 list" where
  "hmac_k_prime key =
     (if length key > BLOCK_LEN then sha256 key @ replicate 32 0
      else key @ replicate (BLOCK_LEN - length key) 0)"

definition hmac_sha256 :: "u8 list \<Rightarrow> u8 list \<Rightarrow> u8 list" where
  "hmac_sha256 key message = (
     let k_prime = hmac_k_prime key;
         k_ipad = map (\<lambda>b. b XOR 0x36) k_prime;
         k_opad = map (\<lambda>b. b XOR 0x5C) k_prime;
         inner_hash = sha256 (k_ipad @ message)
     in sha256 (k_opad @ inner_hash))"

section \<open>The three hashes are iterated hashes\<close>

abbreviation digest_be :: "u32 list \<Rightarrow> u8 list" where
  "digest_be h \<equiv> concat (map (to_be 4) h)"

abbreviation digest_le :: "u32 list \<Rightarrow> u8 list" where
  "digest_le h \<equiv> concat (map (to_le 4) h)"

lemma length_digest [simp]: "length (digest_be h) = 4 * length h" "length (digest_le h) = 4 * length h"
  by (induction h) simp_all

lemma from_to_le_32 [simp]: "from_le (to_le 4 w) = (w :: u32)"
  by (simp add: from_to_le take_bit_word_eq_self)

lemma undigest_be: "map from_be (chunks_exact 4 (digest_be h)) = h"
  by (simp add: chunks_exact_concat o_def)

lemma undigest_le: "map from_le (chunks_exact 4 (digest_le h)) = h"
  by (simp add: chunks_exact_concat o_def)

lemma block_lengths [simp]:
  "length (sha1_block b h) = 5" "length (sha256_block b h) = 8" "length (md5_block b h) = 4"
  unfolding sha1_block_def sha256_block_def md5_block_def Let_def case_prod_unfold list.size by simp_all

interpretation sha1_md: iterated_hash "to_be 8" SHA1_H sha1_block digest_be "\<lambda>d. map from_be (chunks_exact 4 d)" "\<lambda>h. length h = 5" 20
  by unfold_locales (simp_all add: SHA1_H_def undigest_be)

interpretation sha256_md: iterated_hash "to_be 8" SHA256_H sha256_block digest_be "\<lambda>d. map from_be (chunks_exact 4 d)" "\<lambda>h. length h = 8" 32
  by unfold_locales (simp_all add: SHA256_H_def undigest_be)

interpretation md5_md: iterated_hash "to_le 8" MD5_H md5_block digest_le "\<lambda>d. map from_le (chunks_exact 4 d)" "\<lambda>h. length h = 4" 16
  by unfold_locales (simp_all add: MD5_H_def undigest_le)

lemma hashes_iterated:
  "sha1 = md_hash (to_be 8) SHA1_H sha1_block digest_be"
  "sha256 = md_hash (to_be 8) SHA256_H sha256_block digest_be"
  "md5 = md_hash (to_le 8) MD5_H md5_block digest_le"
  by (simp_all add: fun_eq_iff md_hash_def sha1_def sha256_def md5_def)

lemma length_hashes [simp]: "length (sha1 m) = 20" "length (sha256 m) = 32" "length (md5 m) = 16" "length (hmac_sha256 k m) = 32"
proof -
  show "length (sha1 m) = 20" "length (md5 m) = 16" for m
    unfolding hashes_iterated by (rule sha1_md.hash_length md5_md.hash_length)+
  have *: "length (sha256 m) = 32" for m unfolding hashes_iterated by (rule sha256_md.hash_length)
  then show "length (sha256 m) = 32" "length (hmac_sha256 k m) = 32" by (simp_all add: hmac_sha256_def Let_def)
qed

section \<open>Properties\<close>

text \<open>
  C26: the padding loop of MD5, SHA-1 and SHA-256 ends: it pushes fewer than 64 zero
  bytes and leaves a length of 56 modulo 64.  The padded message consists of whole
  blocks, is at most 72 bytes longer, and two messages never have the same padding.
\<close>

theorem padding_ok:
  "(\<exists>k < 64. pad_zeros msg = msg @ replicate k 0 \<and> length (pad_zeros msg) mod 64 = 56) \<and>
   64 dvd length (md_pad (to_be 8) m) \<and> length (md_pad (to_be 8) m) \<le> length m + 72 \<and>
   inj (md_pad (to_be 8)) \<and> inj (md_pad (to_le 8))"
proof (intro conjI)
  show "\<exists>k < 64. pad_zeros msg = msg @ replicate k 0 \<and> length (pad_zeros msg) mod 64 = 56"
    using zero_count_bound zero_count_mod by (intro exI [of _ "zero_count (length msg)"]) (simp add: pad_zeros_eq)
  show "64 dvd length (md_pad (to_be 8) m)"
    using md_glue_length [of "to_be 8" "length m"] by (auto simp: md_pad_glue)
  show "length (md_pad (to_be 8) m) \<le> length m + 72"
    using zero_count_bound [of "length m + 1"] by (simp add: md_pad_glue md_glue_def)
  have "inj (to_be 8 :: u64 \<Rightarrow> u8 list)" "inj (to_le 8 :: u64 \<Rightarrow> u8 list)"
    by (rule inj_on_inverseI [of _ from_be] inj_on_inverseI [of _ from_le], simp)+
  then show "inj (md_pad (to_be 8))" "inj (md_pad (to_le 8))"
    by (auto intro!: injI elim: md_pad_inj [rotated 2])
qed

text \<open>
  C27: SHA-256 can be continued from its digest alone: the digest of the padded message
  followed by any suffix is computed from the digest of the message, the padded length
  and the suffix, without the message.  This is the length-extension weakness the
  documentation of the function describes.
\<close>

theorem sha256_length_extension:
  "sha256 (md_pad (to_be 8) m @ x) =
     md_resume (to_be 8) (\<lambda>d. map from_be (chunks_exact 4 d)) sha256_block digest_be (sha256 m) (length (md_pad (to_be 8) m)) x"
  unfolding hashes_iterated by (rule sha256_md.hash_extension)



end
