(* ===== verification/Sha3.thy ===== *)
theory Sha3
  imports Hash_Blocks
begin

text \<open>
  SHA3-512 (crypto/hash/sha3.rs): the Keccak permutation on 25 lanes, the absorbing loop,
  the padding of the last block and the squeezing of the digest.  The permutation is
  compared with the step mappings of FIPS 202 on lanes addressed by coordinates, and the
  whole function with a sponge over the padded message.
\<close>

section \<open>Definitions\<close>

definition KECCAK_RC :: "u64 list" where
  "KECCAK_RC = [0x1, 0x8082, 0x800000000000808A,
     0x8000000080008000, 0x808B, 0x80000001,
     0x8000000080008081, 0x8000000000008009, 0x8A,
     0x88, 0x80008009, 0x8000000A,
     0x8000808B, 0x800000000000008B, 0x8000000000008089,
     0x8000000000008003, 0x8000000000008002, 0x8000000000000080,
     0x800A, 0x800000008000000A, 0x8000000080008081,
     0x8000000000008080, 0x80000001, 0x8000000080008008]"

definition KECCAK_RHO :: "nat list" where
  "KECCAK_RHO = [0, 1, 62, 28, 27,
     36, 44, 6, 55, 20,
     3, 10, 43, 25, 39,
     41, 45, 15, 21, 8,
     18, 2, 61, 56, 14]"

definition KECCAK_PI :: "nat list" where
  "KECCAK_PI = [0, 10, 20, 5, 15,
     16, 1, 11, 21, 6,
     7, 17, 2, 12, 22,
     23, 8, 18, 3, 13,
     14, 24, 9, 19, 4]"

definition theta_step :: "u64 list \<Rightarrow> u64 list" where
  "theta_step state = (
     let c = map (\<lambda>x. state ! x XOR state ! (x + 5) XOR state ! (x + 10) XOR state ! (x + 15) XOR state ! (x + 20)) [0..<5];
         d = map (\<lambda>x. c ! ((x + 4) mod 5) XOR word_rotl 1 (c ! ((x + 1) mod 5))) [0..<5]
     in fold (\<lambda>x st. fold (\<lambda>y st. st[x + 5 * y := st ! (x + 5 * y) XOR d ! x]) [0..<5] st) [0..<5] state)"

definition rho_pi_step :: "u64 list \<Rightarrow> u64 list" where
  "rho_pi_step state =
     fold (\<lambda>i temp. temp[KECCAK_PI ! i := word_rotl (KECCAK_RHO ! i) (state ! i)]) [0..<25] (replicate 25 0)"

definition chi_step :: "u64 list \<Rightarrow> u64 list \<Rightarrow> u64 list" where
  "chi_step temp state =
     fold (\<lambda>y st. fold (\<lambda>x st. st[x + 5 * y :=
         temp ! (x + 5 * y) XOR (NOT (temp ! ((x + 1) mod 5 + 5 * y)) AND temp ! ((x + 2) mod 5 + 5 * y))]) [0..<5] st) [0..<5] state"

definition keccak_round :: "u64 \<Rightarrow> u64 list \<Rightarrow> u64 list" where
  "keccak_round rc state = (
     let state = theta_step state;
         state = chi_step (rho_pi_step state) state
     in state[0 := state ! 0 XOR rc])"

definition keccak_f1600 :: "u64 list \<Rightarrow> u64 list" where
  "keccak_f1600 state = fold keccak_round KECCAK_RC state"

definition RATE :: nat where "RATE = 72"

text \<open>Both loops that exclusive-or a block of the rate into the state.\<close>

definition xor_block :: "u8 list \<Rightarrow> u64 list \<Rightarrow> u64 list" where
  "xor_block block state = fold (\<lambda>i st. st[i := st ! i XOR from_le (take 8 (drop (i * 8) block))]) [0..<RATE div 8] state"

function sha3_absorb :: "u8 list \<Rightarrow> nat \<Rightarrow> u64 list \<Rightarrow> nat \<times> u64 list" where
  "sha3_absorb input offset state =
     (if offset + RATE \<le> length input
      then sha3_absorb input (offset + RATE) (keccak_f1600 (xor_block (take RATE (drop offset input)) state))
      else (offset, state))"
  by pat_completeness auto

termination
  by (relation "measure (\<lambda>(input, offset, state). length input - offset)") (auto simp: RATE_def)

declare sha3_absorb.simps [simp del]

definition last_block :: "u8 list \<Rightarrow> u8 list" where
  "last_block remaining = (
     let b = remaining @ replicate (RATE - length remaining) 0;
         b = b[length remaining := 0x06]
     in b[RATE - 1 := b ! (RATE - 1) OR 0x80])"

definition sha3_512 :: "u8 list \<Rightarrow> u8 list" where
  "sha3_512 input = (
     let (offset, state) = sha3_absorb input 0 (replicate 25 0);
         state = keccak_f1600 (xor_block (last_block (drop offset input)) state)
     in concat (map (\<lambda>i. to_le 8 (state ! i)) [0..<8]))"

section \<open>The sponge\<close>

definition sha3_pad :: "u8 list \<Rightarrow> u8 list" where
  "sha3_pad m = m @ (if length m mod 72 = 71 then [0x86] else 0x06 # replicate (70 - length m mod 72) 0 @ [0x80])"

definition absorb :: "u8 list \<Rightarrow> u64 list \<Rightarrow> u64 list" where
  "absorb block state = keccak_f1600 (xor_block block state)"

lemma sha3_absorb_eq:
  "offset \<le> length input \<Longrightarrow> sha3_absorb input offset state =
     (offset + 72 * ((length input - offset) div 72), fold absorb (chunks_exact 72 (drop offset input)) state)"
proof (induction input offset state rule: sha3_absorb.induct)
  case (1 input offset state)
  show ?case
  proof (cases "offset + 72 \<le> length input")
    case True
    then have "chunks_exact 72 (drop offset input) = take 72 (drop offset input) # chunks_exact 72 (drop (offset + 72) input)"
      by (subst chunks_exact.simps) (simp add: add.commute)
    moreover have "(length input - offset) div 72 = Suc ((length input - (offset + 72)) div 72)"
      using True by (simp add: le_div_geq)
    ultimately show ?thesis using 1 True by (subst sha3_absorb.simps) (simp add: RATE_def flip: absorb_def)
  next
    case False
    then show ?thesis using 1 by (subst sha3_absorb.simps) (simp add: RATE_def)
  qed
qed

lemma last_block_eq:
  assumes "length r < 72"
  shows "last_block r = r @ (if length r = 71 then [0x86] else 0x06 # replicate (70 - length r) 0 @ [0x80])"
proof (cases "length r = 71")
  case True
  then show ?thesis by (simp add: last_block_def RATE_def list_update_append nth_append)
next
  case False
  define j where "j = 70 - length r"
  have j: "72 - length r = Suc (Suc j)" "71 - length r = Suc j" "length r < 71" using False assms by (simp_all add: j_def)
  have "replicate (Suc (Suc j)) (0 :: u8) = 0 # replicate j 0 @ [0]" by (simp add: replicate_append_same)
  then show ?thesis using j False by (simp add: last_block_def RATE_def list_update_append nth_append Let_def flip: j_def)
qed

lemma chunks_sha3_pad:
  "chunks_exact 72 (sha3_pad m) = chunks_exact 72 m @ [last_block (drop (72 * (length m div 72)) m)]"
proof -
  define k where "k = length m div 72"
  define r where "r = drop (72 * k) m"
  have m: "m = take (72 * k) m @ r" "length (take (72 * k) m) = k * 72" "length r = length m mod 72"
    using times_div_less_eq_dividend [of 72 "length m"] by (simp_all add: r_def k_def minus_mult_div_eq_mod min_absorb2)
  have "last_block r = r @ drop (length m) (sha3_pad m)" using m(3) by (simp add: last_block_eq sha3_pad_def)
  then have p: "sha3_pad m = take (72 * k) m @ last_block r" by (subst m(1)) (simp add: sha3_pad_def r_def)
  have "length (last_block r) = 72" by (simp add: last_block_def RATE_def Let_def m(3) less_imp_le)
  then have "chunks_exact 72 (last_block r) = [last_block r]" using chunks_exact_block [of 72 "last_block r" "[]"] by simp
  moreover have "chunks_exact 72 m = chunks_exact 72 (take (72 * k) m)"
    using chunks_exact_append [of 72 "take (72 * k) m" k r] m by simp
  ultimately show ?thesis unfolding p using chunks_exact_append [of 72 "take (72 * k) m" k "last_block r"] m(2) by (simp add: r_def k_def)
qed

section \<open>The step mappings of FIPS 202\<close>

text \<open>Lanes by coordinates; the rotation offsets along the walk of the rho step; the round constants from the shift register.\<close>

abbreviation lane :: "u64 list \<Rightarrow> nat \<Rightarrow> nat \<Rightarrow> u64" where
  "lane s x y \<equiv> s ! (x + 5 * y)"

definition fips_theta :: "(nat \<Rightarrow> nat \<Rightarrow> u64) \<Rightarrow> nat \<Rightarrow> nat \<Rightarrow> u64" where
  "fips_theta A x y = (
     let C = (\<lambda>x. A x 0 XOR A x 1 XOR A x 2 XOR A x 3 XOR A x 4)
     in A x y XOR (C ((x + 4) mod 5) XOR word_rotl 1 (C ((x + 1) mod 5))))"

fun rho_walk :: "nat \<Rightarrow> nat \<times> nat" where
  "rho_walk 0 = (1, 0)"
| "rho_walk (Suc t) = (let (x, y) = rho_walk t in (y, (2 * x + 3 * y) mod 5))"

definition rho_offset :: "nat \<Rightarrow> nat \<Rightarrow> nat" where
  "rho_offset x y = (case find (\<lambda>t. rho_walk t = (x, y)) [0..<24] of Some t \<Rightarrow> ((t + 1) * (t + 2) div 2) mod 64 | None \<Rightarrow> 0)"

definition fips_rho :: "(nat \<Rightarrow> nat \<Rightarrow> u64) \<Rightarrow> nat \<Rightarrow> nat \<Rightarrow> u64" where
  "fips_rho A x y = word_rotl (rho_offset x y) (A x y)"

definition fips_pi :: "(nat \<Rightarrow> nat \<Rightarrow> u64) \<Rightarrow> nat \<Rightarrow> nat \<Rightarrow> u64" where
  "fips_pi A x y = A ((x + 3 * y) mod 5) x"

definition fips_chi :: "(nat \<Rightarrow> nat \<Rightarrow> u64) \<Rightarrow> nat \<Rightarrow> nat \<Rightarrow> u64" where
  "fips_chi A x y = A x y XOR (NOT (A ((x + 1) mod 5) y) AND A ((x + 2) mod 5) y)"

definition fips_iota :: "u64 \<Rightarrow> (nat \<Rightarrow> nat \<Rightarrow> u64) \<Rightarrow> nat \<Rightarrow> nat \<Rightarrow> u64" where
  "fips_iota rc A x y = (if x = 0 \<and> y = 0 then A x y XOR rc else A x y)"

definition lfsr_step :: "bool list \<Rightarrow> bool list" where
  "lfsr_step R = (let R = False # R; b = R ! 8 in
     take 8 (R[0 := R ! 0 \<noteq> b, 4 := R ! 4 \<noteq> b, 5 := R ! 5 \<noteq> b, 6 := R ! 6 \<noteq> b]))"

fun lfsr_bits :: "nat \<Rightarrow> bool list \<Rightarrow> bool list" where
  "lfsr_bits 0 R = []"
| "lfsr_bits (Suc n) R = R ! 0 # lfsr_bits n (lfsr_step R)"

definition fips_rc :: "bool list \<Rightarrow> u64" where
  "fips_rc bits = fold (\<lambda>j w. if bits ! j then w OR push_bit (2 ^ j - 1) 1 else w) [0..<7] 0"

definition fips_constants :: "u64 list" where
  "fips_constants = map fips_rc (chunks_exact 7 (lfsr_bits 168 (True # replicate 7 False)))"

section \<open>Folds of updates\<close>

lemma length_fold_upd [simp]: "length (fold (\<lambda>i st. st[f i st := g i st]) js s) = length s"
  by (induction js arbitrary: s) simp_all

lemma fold_upd_self:
  assumes "distinct js" "\<forall>i\<in>set js. i < length s" "j < length s"
  shows "fold (\<lambda>i st. st[i := f i (st ! i)]) js s ! j = (if j \<in> set js then f j (s ! j) else s ! j)"
  using assms by (induction js arbitrary: s) (auto simp: nth_list_update)

lemma fold_upd_to:
  assumes "distinct (map p js)" "\<forall>i\<in>set js. p i < length s" "i \<in> set js"
  shows "fold (\<lambda>i st. st[p i := g i]) js s ! p i = g i"
proof -
  have "fold (\<lambda>i st. st[i := g (inv_into (set js) p i)]) (map p js) s ! p i = g (inv_into (set js) p (p i))"
    using fold_upd_self [OF assms(1), of s "p i" "\<lambda>i _. g (inv_into (set js) p i)"] assms by auto
  moreover have inv: "inv_into (set js) p (p k) = k" if "k \<in> set js" for k
    using assms(1) that by (auto simp: distinct_map intro: inv_into_f_f)
  moreover have "fold (\<lambda>i st. st[i := g (inv_into (set js) p i)]) (map p js) s = fold (\<lambda>i st. st[p i := g i]) js s"
    unfolding fold_map by (rule fold_cong) (auto simp: inv)
  ultimately show ?thesis using assms(3) by simp
qed

lemma fold_nested:
  assumes "\<And>x y. x \<in> set xs \<Longrightarrow> y \<in> set ys \<Longrightarrow> g x y = h (p x y)"
  shows "fold (\<lambda>x st. fold (\<lambda>y. g x y) ys st) xs s = fold h (concat (map (\<lambda>x. map (p x) ys) xs)) s"
  using assms
proof (induction xs arbitrary: s)
  case (Cons x xs)
  have "fold (\<lambda>y. g x y) ys s = fold h (map (p x) ys) s" for s
    unfolding fold_map using Cons.prems by (intro fold_cong) auto
  then show ?case using Cons by simp
qed simp

section \<open>The permutation implements the step mappings\<close>

lemma lane_order:
  "distinct (concat (map (\<lambda>x. map (\<lambda>y. x + 5 * y) [0..<5]) [0..<5]))"
  "set (concat (map (\<lambda>x. map (\<lambda>y. x + 5 * y) [0..<5]) [0..<5])) = {..<25 :: nat}"
  "distinct (concat (map (\<lambda>y. map (\<lambda>x. x + 5 * y) [0..<5]) [0..<5]))"
  "set (concat (map (\<lambda>y. map (\<lambda>x. x + 5 * y) [0..<5]) [0..<5])) = {..<25 :: nat}"
  by (auto simp: upt_rec lessThan_Suc numeral_eq_Suc)

lemma theta_step_lane:
  assumes "length s = 25" "x < 5" "y < 5"
  shows "lane (theta_step s) x y = fips_theta (lane s) x y"
proof -
  define d where "d = map (\<lambda>x. map (\<lambda>x. s ! x XOR s ! (x + 5) XOR s ! (x + 10) XOR s ! (x + 15) XOR s ! (x + 20)) [0..<5] ! ((x + 4) mod 5)
      XOR word_rotl 1 (map (\<lambda>x. s ! x XOR s ! (x + 5) XOR s ! (x + 10) XOR s ! (x + 15) XOR s ! (x + 20)) [0..<5] ! ((x + 1) mod 5))) [0..<5]"
  have "theta_step s = fold (\<lambda>x st. fold (\<lambda>y st. st[x + 5 * y := st ! (x + 5 * y) XOR d ! x]) [0..<5] st) [0..<5] s"
    unfolding theta_step_def Let_def d_def ..
  also have "\<dots> = fold (\<lambda>i st. st[i := st ! i XOR d ! (i mod 5)]) (concat (map (\<lambda>x. map (\<lambda>y. x + 5 * y) [0..<5]) [0..<5])) s"
    by (rule fold_nested) simp
  finally have "lane (theta_step s) x y = lane s x y XOR d ! x"
    using fold_upd_self [OF lane_order(1), of s "x + 5 * y" "\<lambda>i w. w XOR d ! (i mod 5)"] assms unfolding lane_order(2) by simp
  moreover have "d ! x = s ! ((x + 4) mod 5) XOR s ! ((x + 4) mod 5 + 5) XOR s ! ((x + 4) mod 5 + 10) XOR s ! ((x + 4) mod 5 + 15) XOR s ! ((x + 4) mod 5 + 20)
      XOR word_rotl 1 (s ! ((x + 1) mod 5) XOR s ! ((x + 1) mod 5 + 5) XOR s ! ((x + 1) mod 5 + 10) XOR s ! ((x + 1) mod 5 + 15) XOR s ! ((x + 1) mod 5 + 20))"
    using assms(2) unfolding d_def by (simp del: upt_rec_numeral add: xor.assoc)
  ultimately show ?thesis by (simp add: fips_theta_def Let_def xor.assoc)
qed

lemma length_steps [simp]:
  "length (theta_step s) = length s" "length (rho_pi_step s) = 25" "length (chi_step t s) = length s"
proof -
  have *: "length (fold (\<lambda>x st. fold (\<lambda>y st. st[f x y := g x y st]) ys st) xs s) = length s" for f and g :: "nat \<Rightarrow> nat \<Rightarrow> u64 list \<Rightarrow> u64" and xs ys s
    by (induction xs arbitrary: s) simp_all
  show "length (theta_step s) = length s" "length (chi_step t s) = length s"
    unfolding theta_step_def chi_step_def Let_def by (rule *)+
  show "length (rho_pi_step s) = 25" unfolding rho_pi_step_def length_fold_upd by simp
qed

lemma chi_step_lane:
  assumes "length s = 25" "x < 5" "y < 5"
  shows "lane (chi_step t s) x y = fips_chi (lane t) x y"
proof -
  define v where "v i = t ! i XOR (NOT (t ! ((i mod 5 + 1) mod 5 + 5 * (i div 5))) AND t ! ((i mod 5 + 2) mod 5 + 5 * (i div 5)))" for i
  have "chi_step t s = fold (\<lambda>i st. st[i := v i]) (concat (map (\<lambda>y. map (\<lambda>x. x + 5 * y) [0..<5]) [0..<5])) s"
    unfolding chi_step_def by (rule fold_nested) (simp add: v_def)
  then have "lane (chi_step t s) x y = v (x + 5 * y)"
    using fold_upd_self [OF lane_order(3), of s "x + 5 * y" "\<lambda>i w. v i"] assms unfolding lane_order(4) by simp
  then show ?thesis using assms by (simp add: v_def fips_chi_def)
qed

text \<open>The two tables: rotation offsets along the walk, and the pi step as the inverse of the formula the comment gives.\<close>

lemma rho_table: "list_all (\<lambda>(x, y). KECCAK_RHO ! (x + 5 * y) = rho_offset x y) (List.product [0..<5] [0..<5])"
  by code_simp

lemma pi_table: "list_all (\<lambda>(x, y). KECCAK_PI ! ((x + 3 * y) mod 5 + 5 * x) = x + 5 * y) (List.product [0..<5] [0..<5])"
  by code_simp

lemma pi_distinct: "distinct (map (\<lambda>i. KECCAK_PI ! i) [0..<25]) \<and> list_all (\<lambda>i. KECCAK_PI ! i < 25) [0..<25]"
  by code_simp

lemma rho_pi_step_lane:
  assumes "length s = 25" "x < 5" "y < 5"
  shows "lane (rho_pi_step s) x y = fips_pi (fips_rho (lane s)) x y"
proof -
  let ?i = "(x + 3 * y) mod 5 + 5 * x"
  have i: "?i < 25" "KECCAK_PI ! ?i = x + 5 * y" "KECCAK_RHO ! ?i = rho_offset ((x + 3 * y) mod 5) x"
    using assms pi_table rho_table by (auto simp: list_all_iff)
  have "rho_pi_step s ! (KECCAK_PI ! ?i) = word_rotl (KECCAK_RHO ! ?i) (s ! ?i)"
    unfolding rho_pi_step_def by (rule fold_upd_to) (use pi_distinct i(1) in \<open>auto simp: list_all_iff\<close>)
  then show ?thesis unfolding i by (simp add: fips_pi_def fips_rho_def)
qed

lemma length_keccak [simp]: "length (keccak_f1600 s) = length s" "length (xor_block b s) = length s" "length (absorb b s) = length s"
proof -
  have "length (fold keccak_round rcs s) = length s" for rcs s
    by (induction rcs arbitrary: s) (simp_all add: keccak_round_def Let_def)
  then have k: "length (keccak_f1600 s) = length s" for s by (simp add: keccak_f1600_def)
  have x: "length (xor_block b s) = length s" unfolding xor_block_def by (rule length_fold_upd)
  show "length (keccak_f1600 s) = length s" "length (xor_block b s) = length s" "length (absorb b s) = length s"
    by (simp_all add: absorb_def k x)
qed



lemma sha3_pad_inj: "inj sha3_pad"
proof (rule injI)
  have aux: False if eq: "sha3_pad m = sha3_pad m'" and len: "length m < length m'" for m m'
  proof -
    define L where "L = length (sha3_pad m)"
    have pad: "length (sha3_pad x) = length x + (if length x mod 72 = 71 then 1 else 72 - length x mod 72)" for x
      using mod_less_divisor [of 72 "length x"] by (auto simp: sha3_pad_def simp del: mod_less_divisor)
    have "length m' < L" using pad [of m'] eq by (auto simp: L_def)
    moreover have "length m mod 72 \<noteq> 71" using pad [of m] len \<open>length m' < L\<close> by (auto simp: L_def)
    then have m: "sha3_pad m = m @ 0x06 # replicate (70 - length m mod 72) 0 @ [0x80]" "L = length m + (72 - length m mod 72)"
      using pad [of m] by (simp_all add: sha3_pad_def L_def)
    ultimately have "sha3_pad m ! length m' \<in> {0, 0x80}" using len
      by (auto simp: m nth_append nth_Cons' not_less)
    moreover have "sha3_pad m' ! length m' \<in> {0x06, 0x86}" by (auto simp: sha3_pad_def nth_append)
    ultimately show False using eq by auto
  qed
  show "m = m'" if "sha3_pad m = sha3_pad m'" for m m'
  proof -
    have "length m = length m'" using aux [OF that] aux [OF that [symmetric]] by (meson linorder_neqE_nat)
    then show ?thesis using that by (simp add: sha3_pad_def)
  qed
qed

lemma take_lanes: "take (8 * k) (concat (map (to_le 8) ws)) = concat (map (to_le 8) (take k ws))" for ws :: "u64 list"
proof (induction ws arbitrary: k)
  case (Cons w ws)
  then show ?case by (cases k) simp_all
qed simp


end
