(* ===== verification/Blake2b.thy ===== *)
theory Blake2b
  imports Hash_Blocks
begin

text \<open>
  BLAKE2b (crypto/hash/blake2b.rs): the buffered state with update and finalize, the
  compression function, the public wrappers and the variable-length hash of Argon2.  A
  slice out of range panics, which is the value None; the optional result of
  \<^verbatim>\<open>blake2b\<close> is the inner option.
\<close>

section \<open>Definitions\<close>

definition BLAKE2B_IV :: "u64 list" where
  "BLAKE2B_IV = [0x6A09E667F3BCC908, 0xBB67AE8584CAA73B, 0x3C6EF372FE94F82B, 0xA54FF53A5F1D36F1,
     0x510E527FADE682D1, 0x9B05688C2B3E6C1F, 0x1F83D9ABFB41BD6B, 0x5BE0CD19137E2179]"

definition BLAKE2B_SIGMA :: "nat list list" where
  "BLAKE2B_SIGMA = [[0, 1, 2, 3, 4, 5, 6, 7, 8, 9, 10, 11, 12, 13, 14, 15],
     [14, 10, 4, 8, 9, 15, 13, 6, 1, 12, 0, 2, 11, 7, 5, 3],
     [11, 8, 12, 0, 5, 2, 15, 13, 10, 14, 3, 6, 7, 1, 9, 4],
     [7, 9, 3, 1, 13, 12, 11, 14, 2, 6, 5, 10, 4, 0, 15, 8],
     [9, 0, 5, 7, 2, 4, 10, 15, 14, 1, 11, 12, 6, 8, 3, 13],
     [2, 12, 6, 10, 0, 11, 8, 3, 4, 13, 7, 5, 15, 14, 1, 9],
     [12, 5, 1, 15, 14, 13, 4, 10, 0, 7, 6, 3, 9, 2, 8, 11],
     [13, 11, 7, 14, 12, 1, 3, 9, 5, 0, 15, 4, 8, 6, 2, 10],
     [6, 15, 14, 9, 11, 3, 0, 8, 12, 2, 13, 7, 1, 4, 10, 5],
     [10, 2, 8, 4, 7, 6, 1, 5, 15, 11, 9, 14, 3, 12, 13, 0],
     [0, 1, 2, 3, 4, 5, 6, 7, 8, 9, 10, 11, 12, 13, 14, 15],
     [14, 10, 4, 8, 9, 15, 13, 6, 1, 12, 0, 2, 11, 7, 5, 3]]"

definition MAX_KEY_LEN :: nat where "MAX_KEY_LEN = 64"

definition MAX_OUT_LEN :: nat where "MAX_OUT_LEN = 64"

definition BLAKE2B_BLOCK :: nat where "BLAKE2B_BLOCK = 128"

record Blake2bState =
  b_h :: "u64 list"
  b_t :: "u64 list"
  b_f :: "u64 list"
  b_buf :: "u8 list"
  b_buf_len :: nat
  b_out_len :: nat

definition blake2b_g :: "nat \<Rightarrow> nat \<Rightarrow> nat \<Rightarrow> nat \<Rightarrow> u64 \<Rightarrow> u64 \<Rightarrow> u64 list \<Rightarrow> u64 list" where
  "blake2b_g a b c d x y v = (
     let v = v[a := v ! a + v ! b + x];
         v = v[d := word_rotr 32 (v ! d XOR v ! a)];
         v = v[c := v ! c + v ! d];
         v = v[b := word_rotr 24 (v ! b XOR v ! c)];
         v = v[a := v ! a + v ! b + y];
         v = v[d := word_rotr 16 (v ! d XOR v ! a)];
         v = v[c := v ! c + v ! d]
     in v[b := word_rotr 63 (v ! b XOR v ! c)])"

definition blake2b_round :: "u64 list \<Rightarrow> nat list \<Rightarrow> u64 list \<Rightarrow> u64 list" where
  "blake2b_round m s v = (
     let v = blake2b_g 0 4 8 12 (m ! (s ! 0)) (m ! (s ! 1)) v;
         v = blake2b_g 1 5 9 13 (m ! (s ! 2)) (m ! (s ! 3)) v;
         v = blake2b_g 2 6 10 14 (m ! (s ! 4)) (m ! (s ! 5)) v;
         v = blake2b_g 3 7 11 15 (m ! (s ! 6)) (m ! (s ! 7)) v;
         v = blake2b_g 0 5 10 15 (m ! (s ! 8)) (m ! (s ! 9)) v;
         v = blake2b_g 1 6 11 12 (m ! (s ! 10)) (m ! (s ! 11)) v;
         v = blake2b_g 2 7 8 13 (m ! (s ! 12)) (m ! (s ! 13)) v
     in blake2b_g 3 4 9 14 (m ! (s ! 14)) (m ! (s ! 15)) v)"

definition blake2b_compress :: "Blake2bState \<Rightarrow> Blake2bState" where
  "blake2b_compress st = (
     let m = map (\<lambda>i. from_le (take 8 (drop (i * 8) (b_buf st)))) [0..<16];
         v = b_h st @ BLAKE2B_IV;
         v = v[12 := v ! 12 XOR b_t st ! 0];
         v = v[13 := v ! 13 XOR b_t st ! 1];
         v = v[14 := v ! 14 XOR b_f st ! 0];
         v = v[15 := v ! 15 XOR b_f st ! 1];
         v = fold (\<lambda>r. blake2b_round m (BLAKE2B_SIGMA ! r)) [0..<12] v
     in st\<lparr>b_h := map (\<lambda>i. b_h st ! i XOR (v ! i XOR v ! (i + 8))) [0..<8]\<rparr>)"

definition increment_counter :: "u64 \<Rightarrow> Blake2bState \<Rightarrow> Blake2bState" where
  "increment_counter n st = (
     let t0 = b_t st ! 0 + n
     in if t0 < n then st\<lparr>b_t := [t0, b_t st ! 1 + 1]\<rparr> else st\<lparr>b_t := [t0, b_t st ! 1]\<rparr>)"

text \<open>The step before a copy: a full buffer is compressed, since more input follows.\<close>

definition blake2b_flush :: "Blake2bState \<Rightarrow> Blake2bState" where
  "blake2b_flush st =
     (if b_buf_len st = BLAKE2B_BLOCK then (blake2b_compress (increment_counter 128 st))\<lparr>b_buf_len := 0\<rparr> else st)"

text \<open>A buffer length above the block size makes the slice of the buffer panic.\<close>

function blake2b_update :: "Blake2bState \<Rightarrow> u8 list \<Rightarrow> Blake2bState option" where
  "blake2b_update st input =
     (if input = [] then Some st
      else let st = blake2b_flush st; n = b_buf_len st
      in if n > BLAKE2B_BLOCK then None
      else let to_copy = min (length input) (BLAKE2B_BLOCK - n)
      in blake2b_update
           (st\<lparr>b_buf := take n (b_buf st) @ take to_copy input @ drop (n + to_copy) (b_buf st), b_buf_len := n + to_copy\<rparr>)
           (drop to_copy input))"
  by pat_completeness auto

termination
proof (relation "measure (\<lambda>(st, input). length input)")
  fix st st' :: Blake2bState and input :: "u8 list" and n k
  assume "input \<noteq> []" "st' = blake2b_flush st" "n = b_buf_len st'" "\<not> n > BLAKE2B_BLOCK" "k = min (length input) (BLAKE2B_BLOCK - n)"
  then have "0 < k" by (auto simp: blake2b_flush_def BLAKE2B_BLOCK_def split: if_splits)
  then show "((st'\<lparr>b_buf := take n (b_buf st') @ take k input @ drop (n + k) (b_buf st'), b_buf_len := n + k\<rparr>, drop k input), st, input)
      \<in> measure (\<lambda>(st, input). length input)" using \<open>input \<noteq> []\<close> by simp
qed simp

declare blake2b_update.simps [simp del]

text \<open>Finalisation; the last slice panics on an output length above 64.\<close>

definition blake2b_finalize :: "Blake2bState \<Rightarrow> u8 list option" where
  "blake2b_finalize st = (
     let st = increment_counter (of_nat (b_buf_len st)) st;
         st = st\<lparr>b_buf := take (b_buf_len st) (b_buf st) @ replicate (BLAKE2B_BLOCK - b_buf_len st) 0\<rparr>;
         st = st\<lparr>b_f := [- 1, b_f st ! 1]\<rparr>;
         st = blake2b_compress st;
         all_bytes = concat (map (to_le 8) (b_h st))
     in if b_out_len st \<le> 64 then Some (take (b_out_len st) all_bytes) else None)"

definition blake2b_new :: "nat \<Rightarrow> u8 list option \<Rightarrow> Blake2bState option" where
  "blake2b_new out_len key = (
     let key_len = (case key of None \<Rightarrow> 0 | Some k \<Rightarrow> length k);
         p0 = of_nat out_len OR push_bit 8 (of_nat key_len) OR push_bit 16 1 OR push_bit 24 (1 :: u64);
         st = \<lparr>b_h = BLAKE2B_IV[0 := BLAKE2B_IV ! 0 XOR p0], b_t = [0, 0], b_f = [0, 0],
               b_buf = replicate BLAKE2B_BLOCK 0, b_buf_len = 0, b_out_len = out_len\<rparr>
     in case key of None \<Rightarrow> Some st
        | Some k \<Rightarrow> if length k \<le> BLAKE2B_BLOCK then blake2b_update st (k @ replicate (BLAKE2B_BLOCK - length k) 0) else None)"

text \<open>The three calls every entry point makes.\<close>

definition blake2b_digest :: "nat \<Rightarrow> u8 list option \<Rightarrow> u8 list \<Rightarrow> u8 list option" where
  "blake2b_digest out_len key input = do {
     st \<leftarrow> blake2b_new out_len key;
     st \<leftarrow> blake2b_update st input;
     blake2b_finalize st
   }"

definition blake2b :: "u8 list \<Rightarrow> nat \<Rightarrow> u8 list option \<Rightarrow> u8 list option option" where
  "blake2b input out_len key =
     (if out_len = 0 \<or> out_len > MAX_OUT_LEN then Some None
      else if case key of None \<Rightarrow> False | Some k \<Rightarrow> k = [] \<or> length k > MAX_KEY_LEN then Some None
      else map_option Some (blake2b_digest out_len key input))"

definition blake2b_512 :: "u8 list \<Rightarrow> u8 list option" where
  "blake2b_512 input = blake2b_digest 64 None input"

definition blake2b_512_slice :: "u8 list \<Rightarrow> u8 list option" where
  "blake2b_512_slice input = blake2b_512 input"

definition blake2b_256 :: "u8 list \<Rightarrow> u8 list option" where
  "blake2b_256 input = blake2b_digest 32 None input"

definition blake2b_mac_512 :: "u8 list \<Rightarrow> u8 list \<Rightarrow> u8 list option option" where
  "blake2b_mac_512 input key =
     (if key = [] \<or> length key > MAX_KEY_LEN then Some None else map_option Some (blake2b_digest 64 (Some key) input))"

definition blake2b_mac_256 :: "u8 list \<Rightarrow> u8 list \<Rightarrow> u8 list option option" where
  "blake2b_mac_256 input key =
     (if key = [] \<or> length key > MAX_KEY_LEN then Some None else map_option Some (blake2b_digest 32 (Some key) input))"

text \<open>The calls of the variable-length hash that feed the length prefix and then the input.\<close>

definition blake2b_prefixed :: "nat \<Rightarrow> u8 list \<Rightarrow> u8 list \<Rightarrow> u8 list option" where
  "blake2b_prefixed out_len prefix input = do {
     st \<leftarrow> blake2b_new out_len None;
     st \<leftarrow> blake2b_update st prefix;
     st \<leftarrow> blake2b_update st input;
     blake2b_finalize st
   }"

fun h_prime_chain :: "nat \<Rightarrow> u8 list \<Rightarrow> u8 list \<Rightarrow> (u8 list \<times> u8 list) option" where
  "h_prime_chain 0 a out = Some (a, out)"
| "h_prime_chain (Suc n) a out = do { a \<leftarrow> blake2b_digest 64 None a; h_prime_chain n a (out @ take 32 a) }"

definition h_prime :: "u8 list \<Rightarrow> nat \<Rightarrow> u8 list option" where
  "h_prime input tau = (
     let tau_bytes = to_le 4 (of_nat tau :: u32)
     in if tau \<le> 64 then blake2b_prefixed (max tau 1) tau_bytes input
     else let r = (tau + 31) div 32 - 2
     in do {
       a \<leftarrow> blake2b_prefixed 64 tau_bytes input;
       (a, out) \<leftarrow> h_prime_chain (r - 1) a (take 32 a);
       last \<leftarrow> blake2b_digest (tau - 32 * r) None a;
       Some (out @ last)
     })"

section \<open>The reference loop of RFC 7693\<close>

text \<open>
  The compression function of a chaining value, an unbounded byte count, the last-block
  flag and a block; the loop over the whole data, whose last block is padded and flagged.
\<close>

definition counter_words :: "nat \<Rightarrow> u64 list" where
  "counter_words c = [of_nat c, of_nat (c div 2 ^ 64)]"

definition blake2b_F :: "u64 list \<Rightarrow> nat \<Rightarrow> bool \<Rightarrow> u8 list \<Rightarrow> u64 list" where
  "blake2b_F h c final block = b_h (blake2b_compress \<lparr>b_h = h, b_t = counter_words c, b_f = [if final then - 1 else 0, 0],
     b_buf = block, b_buf_len = 0, b_out_len = 0\<rparr>)"

function blake2b_blocks :: "u64 list \<Rightarrow> nat \<Rightarrow> u8 list \<Rightarrow> u64 list" where
  "blake2b_blocks h c D =
     (if length D \<le> 128 then blake2b_F h (c + length D) True (D @ replicate (128 - length D) 0)
      else blake2b_blocks (blake2b_F h (c + 128) False (take 128 D)) (c + 128) (drop 128 D))"
  by pat_completeness auto

termination
  by (relation "measure (\<lambda>(h, c, D). length D)") auto

declare blake2b_blocks.simps [simp del]

definition blake2b_h0 :: "nat \<Rightarrow> nat \<Rightarrow> u64 list" where
  "blake2b_h0 out_len key_len = BLAKE2B_IV[0 := BLAKE2B_IV ! 0 XOR (of_nat out_len OR push_bit 8 (of_nat key_len) OR push_bit 16 1 OR push_bit 24 1)]"

definition blake2b_ref :: "nat \<Rightarrow> nat \<Rightarrow> u8 list \<Rightarrow> u8 list" where
  "blake2b_ref out_len key_len D = take out_len (concat (map (to_le 8) (blake2b_blocks (blake2b_h0 out_len key_len) 0 D)))"

section \<open>The buffered state implements the loop\<close>

definition stream_ok :: "Blake2bState \<Rightarrow> nat \<Rightarrow> bool" where
  "stream_ok st c \<longleftrightarrow> length (b_buf st) = 128 \<and> b_buf_len st \<le> 128 \<and> b_t st = counter_words c \<and> b_f st = [0, 0]"

abbreviation pending :: "Blake2bState \<Rightarrow> u8 list" where
  "pending st \<equiv> take (b_buf_len st) (b_buf st)"

lemma compress_fields [simp]:
  "b_t (blake2b_compress st) = b_t st" "b_f (blake2b_compress st) = b_f st" "b_buf (blake2b_compress st) = b_buf st"
  "b_buf_len (blake2b_compress st) = b_buf_len st" "b_out_len (blake2b_compress st) = b_out_len st"
  by (simp_all add: blake2b_compress_def Let_def)

lemma compress_F:
  "b_t st = counter_words c \<Longrightarrow> b_f st = [if final then - 1 else 0, 0] \<Longrightarrow>
   b_h (blake2b_compress st) = blake2b_F (b_h st) c final (b_buf st)"
  by (simp add: blake2b_F_def blake2b_compress_def Let_def del: upt_rec_numeral)

lemma carry_nat:
  fixes c n M :: nat
  assumes "n < M"
  shows "(c + n) div M = c div M + (if (c + n) mod M < n then 1 else 0)"
proof -
  define r where "r = c mod M"
  have r: "r < M" using assms by (simp add: r_def)
  have d: "(c + n) div M = c div M + (r + n) div M" "(c + n) mod M = (r + n) mod M"
    using assms by (simp_all add: r_def div_add1_eq [of c n M] mod_add_left_eq)
  show ?thesis
  proof (cases "M \<le> r + n")
    case True
    then have "(r + n) div M = Suc ((r + n - M) div M)" "(r + n) mod M = (r + n - M) mod M"
      using assms by (simp_all add: le_div_geq le_mod_geq)
    then show ?thesis using r assms True unfolding d by simp
  next
    case False
    then show ?thesis unfolding d by simp
  qed
qed

lemma increment_counter_words:
  assumes "b_t st = counter_words c" "n < 2 ^ 64"
  shows "increment_counter (of_nat n) st = st\<lparr>b_t := counter_words (c + n)\<rparr>"
proof -
  have "unat (of_nat (c + n) :: u64) = (c + n) mod 2 ^ 64" "unat (of_nat n :: u64) = n"
    using assms(2) unfolding unat_of_nat by simp_all
  then have "(of_nat (c + n) :: u64) < of_nat n \<longleftrightarrow> (c + n) mod 2 ^ 64 < n" unfolding word_less_nat_alt by (simp only:)
  then have "counter_words (c + n) = [of_nat c + of_nat n, if (of_nat c + of_nat n :: u64) < of_nat n then of_nat (c div 2 ^ 64) + 1 else of_nat (c div 2 ^ 64)]"
    unfolding counter_words_def carry_nat [OF assms(2)] by (simp add: add.commute)
  then show ?thesis using assms(1) by (simp add: increment_counter_def counter_words_def Let_def)
qed

lemma blocks_full:
  "length b = 128 \<Longrightarrow> D \<noteq> [] \<Longrightarrow> blake2b_blocks h c (b @ D) = blake2b_blocks (blake2b_F h (c + 128) False b) (c + 128) D"
  by (subst blake2b_blocks.simps) (simp add: not_le)

lemma flush_ok:
  assumes "stream_ok st c"
  shows "\<exists>c'. stream_ok (blake2b_flush st) c' \<and> b_buf_len (blake2b_flush st) < 128 \<and> b_out_len (blake2b_flush st) = b_out_len st \<and>
    (\<forall>D. D \<noteq> [] \<longrightarrow> blake2b_blocks (b_h (blake2b_flush st)) c' (pending (blake2b_flush st) @ D) = blake2b_blocks (b_h st) c (pending st @ D))"
proof (cases "b_buf_len st = 128")
  case True
  let ?st = "st\<lparr>b_t := counter_words (c + 128)\<rparr>"
  have f: "blake2b_flush st = (blake2b_compress ?st)\<lparr>b_buf_len := 0\<rparr>"
    using True increment_counter_words [of st c 128] assms(1) by (simp add: blake2b_flush_def BLAKE2B_BLOCK_def stream_ok_def)
  have "b_h (blake2b_compress ?st) = blake2b_F (b_h st) (c + 128) False (b_buf st)"
    using compress_F [of ?st "c + 128" False] assms(1) by (simp add: stream_ok_def)
  then show ?thesis using assms True blocks_full [of "b_buf st" _ "b_h st" c]
    by (intro exI [of _ "c + 128"]) (simp add: f stream_ok_def)
next
  case False
  then show ?thesis using assms(1) by (intro exI [of _ c]) (simp add: blake2b_flush_def BLAKE2B_BLOCK_def stream_ok_def)
qed

lemma copy_ok:
  assumes "stream_ok st c" "n = b_buf_len st" "n + k \<le> 128" "k \<le> length input"
    "st' = st\<lparr>b_buf := take n (b_buf st) @ take k input @ drop (n + k) (b_buf st), b_buf_len := n + k\<rparr>"
  shows "stream_ok st' c" "pending st' @ drop k input = pending st @ input"
  using assms by (simp_all add: stream_ok_def)

lemma update_ok:
  assumes "stream_ok st c"
  shows "\<exists>st' c'. blake2b_update st input = Some st' \<and> stream_ok st' c' \<and> b_out_len st' = b_out_len st \<and>
    (\<forall>D. blake2b_blocks (b_h st') c' (pending st' @ D) = blake2b_blocks (b_h st) c (pending st @ input @ D))"
  using assms
proof (induction st input arbitrary: c rule: blake2b_update.induct)
  case (1 st input)
  show ?case
  proof (cases "input = []")
    case True
    then show ?thesis using 1(2) by (subst blake2b_update.simps) auto
  next
    case False
    define st1 where "st1 = blake2b_flush st"
    define n where "n = b_buf_len st1"
    obtain c1 where c1: "stream_ok st1 c1" "n < 128" "b_out_len st1 = b_out_len st"
      "\<And>D. D \<noteq> [] \<Longrightarrow> blake2b_blocks (b_h st1) c1 (pending st1 @ D) = blake2b_blocks (b_h st) c (pending st @ D)"
      using flush_ok [OF 1(2)] by (auto simp: st1_def n_def)
    define k where "k = min (length input) (128 - n)"
    define st2 where "st2 = st1\<lparr>b_buf := take n (b_buf st1) @ take k input @ drop (n + k) (b_buf st1), b_buf_len := n + k\<rparr>"
    have up: "blake2b_update st input = blake2b_update st2 (drop k input)"
      using False c1(2) by (subst blake2b_update.simps) (simp add: Let_def BLAKE2B_BLOCK_def st2_def k_def flip: st1_def n_def)
    have "n + k \<le> 128" "k \<le> length input" using c1(2) by (simp_all add: k_def)
    note st2 = copy_ok [OF c1(1) n_def this st2_def]
    have "\<exists>st' c'. blake2b_update st2 (drop k input) = Some st' \<and> stream_ok st' c' \<and> b_out_len st' = b_out_len st2 \<and>
      (\<forall>D. blake2b_blocks (b_h st') c' (pending st' @ D) = blake2b_blocks (b_h st2) c1 (pending st2 @ drop k input @ D))"
      using 1(1) [OF False st1_def n_def _ k_def [folded BLAKE2B_BLOCK_def]] c1(2) st2(1) by (simp add: BLAKE2B_BLOCK_def st2_def)
    moreover have "b_out_len st2 = b_out_len st" "b_h st2 = b_h st1" using c1(3) by (simp_all add: st2_def)
    moreover have "blake2b_blocks (b_h st1) c1 (pending st2 @ drop k input @ D) = blake2b_blocks (b_h st) c (pending st @ input @ D)" for D
      using c1(4) [of "input @ D"] False by (simp flip: append_assoc st2(2))
    ultimately show ?thesis unfolding up by simp
  qed
qed

lemma finalize_ok:
  assumes "stream_ok st c" "b_out_len st \<le> 64"
  shows "blake2b_finalize st = Some (take (b_out_len st) (concat (map (to_le 8) (blake2b_blocks (b_h st) c (pending st)))))"
proof -
  define st1 where "st1 = st\<lparr>b_t := counter_words (c + b_buf_len st), b_buf := pending st @ replicate (128 - b_buf_len st) 0, b_f := [- 1, 0]\<rparr>"
  have "increment_counter (of_nat (b_buf_len st)) st = st\<lparr>b_t := counter_words (c + b_buf_len st)\<rparr>"
    using assms(1) by (intro increment_counter_words) (auto simp: stream_ok_def)
  then have "blake2b_finalize st = Some (take (b_out_len st) (concat (map (to_le 8) (b_h (blake2b_compress st1)))))"
    using assms by (simp add: blake2b_finalize_def Let_def st1_def BLAKE2B_BLOCK_def stream_ok_def)
  moreover have "b_h (blake2b_compress st1) = blake2b_F (b_h st) (c + b_buf_len st) True (pending st @ replicate (128 - b_buf_len st) 0)"
    using compress_F [of st1 "c + b_buf_len st" True] by (simp add: st1_def)
  moreover have "length (pending st) = b_buf_len st" "b_buf_len st \<le> 128" using assms(1) by (auto simp: stream_ok_def)
  then have "blake2b_blocks (b_h st) c (pending st) = blake2b_F (b_h st) (c + b_buf_len st) True (pending st @ replicate (128 - b_buf_len st) 0)"
    by (subst blake2b_blocks.simps) simp
  ultimately show ?thesis by simp
qed

lemma length_blake2b_blocks [simp]: "length (blake2b_blocks h c D) = 8"
proof (induction h c D rule: blake2b_blocks.induct)
  case (1 h c D)
  have "length (blake2b_F h c b B) = 8" for h c b B
    unfolding blake2b_F_def blake2b_compress_def Let_def by (simp del: upt_rec_numeral)
  then show ?case using 1 by (subst blake2b_blocks.simps) simp
qed

lemma length_blake2b_ref: "n \<le> 64 \<Longrightarrow> length (blake2b_ref n kl D) = n"
proof -
  have "length (concat (map (to_le 8) ws)) = 8 * length ws" for ws :: "u64 list" by (induction ws) simp_all
  then show "n \<le> 64 \<Longrightarrow> ?thesis" by (simp add: blake2b_ref_def)
qed

text \<open>The data of a keyed hash: the key padded to a block, then the input.\<close>

definition keyed_data :: "u8 list option \<Rightarrow> u8 list \<Rightarrow> u8 list" where
  "keyed_data key input = (case key of None \<Rightarrow> input | Some k \<Rightarrow> k @ replicate (128 - length k) 0 @ input)"

abbreviation key_length :: "u8 list option \<Rightarrow> nat" where
  "key_length key \<equiv> (case key of None \<Rightarrow> 0 | Some k \<Rightarrow> length k)"

lemma new_ok:
  assumes "key_length key \<le> 128"
  obtains st c where "blake2b_new n key = Some st" "stream_ok st c" "b_out_len st = n"
    "\<And>D. blake2b_blocks (b_h st) c (pending st @ D) = blake2b_blocks (blake2b_h0 n (key_length key)) 0 (keyed_data key D)"
proof -
  define st0 where "st0 = \<lparr>b_h = blake2b_h0 n (key_length key), b_t = [0, 0], b_f = [0, 0],
    b_buf = replicate BLAKE2B_BLOCK 0, b_buf_len = 0, b_out_len = n\<rparr>"
  have ok: "stream_ok st0 0" by (simp add: stream_ok_def st0_def counter_words_def BLAKE2B_BLOCK_def)
  show thesis
  proof (cases key)
    case None
    then have "blake2b_new n key = Some st0" by (simp add: blake2b_new_def st0_def blake2b_h0_def Let_def)
    then show thesis using that [OF _ ok] None by (simp add: st0_def keyed_data_def)
  next
    case (Some k)
    then have "blake2b_new n key = blake2b_update st0 (k @ replicate (128 - length k) 0)"
      using assms by (simp add: blake2b_new_def st0_def blake2b_h0_def Let_def BLAKE2B_BLOCK_def)
    moreover obtain st c where "blake2b_update st0 (k @ replicate (128 - length k) 0) = Some st" "stream_ok st c" "b_out_len st = b_out_len st0"
      "\<And>D. blake2b_blocks (b_h st) c (pending st @ D) = blake2b_blocks (b_h st0) 0 (pending st0 @ (k @ replicate (128 - length k) 0) @ D)"
      using update_ok [OF ok] by blast
    ultimately show thesis using Some by (intro that [of st c]) (simp_all add: st0_def keyed_data_def)
  qed
qed

lemma prefixed_ok:
  assumes "n \<le> 64"
  shows "blake2b_prefixed n prefix input = Some (blake2b_ref n 0 (prefix @ input))"
proof -
  obtain st c where st: "blake2b_new n None = Some st" "stream_ok st c" "b_out_len st = n"
    "\<And>D. blake2b_blocks (b_h st) c (pending st @ D) = blake2b_blocks (blake2b_h0 n 0) 0 D"
    using new_ok [of None n] by (auto simp: keyed_data_def)
  obtain st1 c1 where st1: "blake2b_update st prefix = Some st1" "stream_ok st1 c1" "b_out_len st1 = n"
    "\<And>D. blake2b_blocks (b_h st1) c1 (pending st1 @ D) = blake2b_blocks (blake2b_h0 n 0) 0 (prefix @ D)"
    using update_ok [OF st(2), of prefix] st(3,4) by auto
  obtain st2 c2 where st2: "blake2b_update st1 input = Some st2" "stream_ok st2 c2" "b_out_len st2 = n"
    "blake2b_blocks (b_h st2) c2 (pending st2 @ []) = blake2b_blocks (b_h st1) c1 (pending st1 @ input @ [])"
    using update_ok [OF st1(2), of input] st1(3) by blast
  have "blake2b_blocks (b_h st2) c2 (pending st2) = blake2b_blocks (blake2b_h0 n 0) 0 (prefix @ input)"
    using st2(4) st1(4) [of input] by simp
  then show ?thesis using st(1) st1(1) st2(1-3) finalize_ok [of st2 c2] assms by (simp add: blake2b_prefixed_def blake2b_ref_def)
qed

lemma digest_ok:
  assumes "n \<le> 64" "key_length key \<le> 128"
  shows "blake2b_digest n key input = Some (blake2b_ref n (key_length key) (keyed_data key input))"
proof -
  obtain st c where st: "blake2b_new n key = Some st" "stream_ok st c" "b_out_len st = n"
    "\<And>D. blake2b_blocks (b_h st) c (pending st @ D) = blake2b_blocks (blake2b_h0 n (key_length key)) 0 (keyed_data key D)"
    using new_ok [OF assms(2)] by blast
  obtain st1 c1 where st1: "blake2b_update st input = Some st1" "stream_ok st1 c1" "b_out_len st1 = n"
    "blake2b_blocks (b_h st1) c1 (pending st1 @ []) = blake2b_blocks (b_h st) c (pending st @ input @ [])"
    using update_ok [OF st(2), of input] st(3) by blast
  then show ?thesis using st(1) st(4) [of input] finalize_ok [of st1 c1] assms(1) by (simp add: blake2b_digest_def blake2b_ref_def)
qed

section \<open>Properties\<close>

text \<open>
  C23: BLAKE2b with its buffer, its two-word counter and its flags computes the loop of RFC
  7693 over the padded key and the input, for messages of any length, and never panics.
  Output lengths outside 1 to 64 and keys outside 1 to 64 bytes are rejected, and only
  those; the digest has the requested length.
\<close>

theorem blake2b_rfc7693:
  "blake2b input n key = Some
     (if 0 < n \<and> n \<le> 64 \<and> (\<forall>k. key = Some k \<longrightarrow> 0 < length k \<and> length k \<le> 64)
      then Some (blake2b_ref n (key_length key) (keyed_data key input)) else None) \<and>
   (0 < n \<and> n \<le> 64 \<longrightarrow> length (blake2b_ref n (key_length key) (keyed_data key input)) = n)"
proof (cases "0 < n \<and> n \<le> 64 \<and> (\<forall>k. key = Some k \<longrightarrow> 0 < length k \<and> length k \<le> 64)")
  case True
  then have "n \<le> 64" "key_length key \<le> 128" by (auto split: option.splits)
  from digest_ok [OF this, of input] show ?thesis using True
    by (auto simp: blake2b_def MAX_OUT_LEN_def MAX_KEY_LEN_def length_blake2b_ref split: option.splits)
next
  case False
  then show ?thesis by (auto simp: blake2b_def MAX_OUT_LEN_def MAX_KEY_LEN_def length_blake2b_ref split: option.splits)
qed

theorem blake2b_rfc7693_witness:
  "blake2b [1, 2] 32 (Some [9]) = Some (Some (blake2b_ref 32 1 (9 # replicate 127 0 @ [1, 2]))) \<and>
   length (blake2b_ref 32 1 (9 # replicate 127 0 @ [1, 2])) = 32"
  using blake2b_rfc7693 [of "[1, 2]" 32 "Some [9]"] by (simp add: keyed_data_def)

lemma chain_ok:
  "length a = 64 \<Longrightarrow> \<exists>a' out'. h_prime_chain n a out = Some (a', out') \<and> length a' = 64 \<and> length out' = length out + 32 * n"
proof (induction n arbitrary: a out)
  case (Suc n)
  have "blake2b_digest 64 None a = Some (blake2b_ref 64 0 a)" using digest_ok [of 64 None a] by (simp add: keyed_data_def)
  then show ?case using Suc.IH [of "blake2b_ref 64 0 a" "out @ take 32 (blake2b_ref 64 0 a)"] by (auto simp: length_blake2b_ref)
qed simp


end
