(* ===== verification/Aes.thy ===== *)
theory Aes
  imports Bytes
begin

text \<open>
  The AES-256 block cipher (crypto/cipher/aes/aes.rs): key expansion and encryption of a
  block in place.  The source has no decryption; the inverse used in the proofs is built
  from its inverse S-box table and shows that encryption is a bijection of blocks.
\<close>

section \<open>Definitions\<close>

definition AES256_ROUNDS :: nat where "AES256_ROUNDS = 14"

definition AES256_ROUND_KEYS :: nat where "AES256_ROUND_KEYS = AES256_ROUNDS + 1"

definition AES_BLOCK_SIZE :: nat where "AES_BLOCK_SIZE = 16"

definition KEY256_SIZE :: nat where "KEY256_SIZE = 32"

definition SBOX :: "u8 list" where
  "SBOX = [0x63, 0x7C, 0x77, 0x7B, 0xF2, 0x6B, 0x6F, 0xC5, 0x30, 0x1, 0x67, 0x2B, 0xFE, 0xD7, 0xAB, 0x76,
     0xCA, 0x82, 0xC9, 0x7D, 0xFA, 0x59, 0x47, 0xF0, 0xAD, 0xD4, 0xA2, 0xAF, 0x9C, 0xA4, 0x72, 0xC0,
     0xB7, 0xFD, 0x93, 0x26, 0x36, 0x3F, 0xF7, 0xCC, 0x34, 0xA5, 0xE5, 0xF1, 0x71, 0xD8, 0x31, 0x15,
     0x4, 0xC7, 0x23, 0xC3, 0x18, 0x96, 0x5, 0x9A, 0x7, 0x12, 0x80, 0xE2, 0xEB, 0x27, 0xB2, 0x75,
     0x9, 0x83, 0x2C, 0x1A, 0x1B, 0x6E, 0x5A, 0xA0, 0x52, 0x3B, 0xD6, 0xB3, 0x29, 0xE3, 0x2F, 0x84,
     0x53, 0xD1, 0x0, 0xED, 0x20, 0xFC, 0xB1, 0x5B, 0x6A, 0xCB, 0xBE, 0x39, 0x4A, 0x4C, 0x58, 0xCF,
     0xD0, 0xEF, 0xAA, 0xFB, 0x43, 0x4D, 0x33, 0x85, 0x45, 0xF9, 0x2, 0x7F, 0x50, 0x3C, 0x9F, 0xA8,
     0x51, 0xA3, 0x40, 0x8F, 0x92, 0x9D, 0x38, 0xF5, 0xBC, 0xB6, 0xDA, 0x21, 0x10, 0xFF, 0xF3, 0xD2,
     0xCD, 0xC, 0x13, 0xEC, 0x5F, 0x97, 0x44, 0x17, 0xC4, 0xA7, 0x7E, 0x3D, 0x64, 0x5D, 0x19, 0x73,
     0x60, 0x81, 0x4F, 0xDC, 0x22, 0x2A, 0x90, 0x88, 0x46, 0xEE, 0xB8, 0x14, 0xDE, 0x5E, 0xB, 0xDB,
     0xE0, 0x32, 0x3A, 0xA, 0x49, 0x6, 0x24, 0x5C, 0xC2, 0xD3, 0xAC, 0x62, 0x91, 0x95, 0xE4, 0x79,
     0xE7, 0xC8, 0x37, 0x6D, 0x8D, 0xD5, 0x4E, 0xA9, 0x6C, 0x56, 0xF4, 0xEA, 0x65, 0x7A, 0xAE, 0x8,
     0xBA, 0x78, 0x25, 0x2E, 0x1C, 0xA6, 0xB4, 0xC6, 0xE8, 0xDD, 0x74, 0x1F, 0x4B, 0xBD, 0x8B, 0x8A,
     0x70, 0x3E, 0xB5, 0x66, 0x48, 0x3, 0xF6, 0xE, 0x61, 0x35, 0x57, 0xB9, 0x86, 0xC1, 0x1D, 0x9E,
     0xE1, 0xF8, 0x98, 0x11, 0x69, 0xD9, 0x8E, 0x94, 0x9B, 0x1E, 0x87, 0xE9, 0xCE, 0x55, 0x28, 0xDF,
     0x8C, 0xA1, 0x89, 0xD, 0xBF, 0xE6, 0x42, 0x68, 0x41, 0x99, 0x2D, 0xF, 0xB0, 0x54, 0xBB, 0x16]"

definition INV_SBOX :: "u8 list" where
  "INV_SBOX = [0x52, 0x9, 0x6A, 0xD5, 0x30, 0x36, 0xA5, 0x38, 0xBF, 0x40, 0xA3, 0x9E, 0x81, 0xF3, 0xD7, 0xFB,
     0x7C, 0xE3, 0x39, 0x82, 0x9B, 0x2F, 0xFF, 0x87, 0x34, 0x8E, 0x43, 0x44, 0xC4, 0xDE, 0xE9, 0xCB,
     0x54, 0x7B, 0x94, 0x32, 0xA6, 0xC2, 0x23, 0x3D, 0xEE, 0x4C, 0x95, 0xB, 0x42, 0xFA, 0xC3, 0x4E,
     0x8, 0x2E, 0xA1, 0x66, 0x28, 0xD9, 0x24, 0xB2, 0x76, 0x5B, 0xA2, 0x49, 0x6D, 0x8B, 0xD1, 0x25,
     0x72, 0xF8, 0xF6, 0x64, 0x86, 0x68, 0x98, 0x16, 0xD4, 0xA4, 0x5C, 0xCC, 0x5D, 0x65, 0xB6, 0x92,
     0x6C, 0x70, 0x48, 0x50, 0xFD, 0xED, 0xB9, 0xDA, 0x5E, 0x15, 0x46, 0x57, 0xA7, 0x8D, 0x9D, 0x84,
     0x90, 0xD8, 0xAB, 0x0, 0x8C, 0xBC, 0xD3, 0xA, 0xF7, 0xE4, 0x58, 0x5, 0xB8, 0xB3, 0x45, 0x6,
     0xD0, 0x2C, 0x1E, 0x8F, 0xCA, 0x3F, 0xF, 0x2, 0xC1, 0xAF, 0xBD, 0x3, 0x1, 0x13, 0x8A, 0x6B,
     0x3A, 0x91, 0x11, 0x41, 0x4F, 0x67, 0xDC, 0xEA, 0x97, 0xF2, 0xCF, 0xCE, 0xF0, 0xB4, 0xE6, 0x73,
     0x96, 0xAC, 0x74, 0x22, 0xE7, 0xAD, 0x35, 0x85, 0xE2, 0xF9, 0x37, 0xE8, 0x1C, 0x75, 0xDF, 0x6E,
     0x47, 0xF1, 0x1A, 0x71, 0x1D, 0x29, 0xC5, 0x89, 0x6F, 0xB7, 0x62, 0xE, 0xAA, 0x18, 0xBE, 0x1B,
     0xFC, 0x56, 0x3E, 0x4B, 0xC6, 0xD2, 0x79, 0x20, 0x9A, 0xDB, 0xC0, 0xFE, 0x78, 0xCD, 0x5A, 0xF4,
     0x1F, 0xDD, 0xA8, 0x33, 0x88, 0x7, 0xC7, 0x31, 0xB1, 0x12, 0x10, 0x59, 0x27, 0x80, 0xEC, 0x5F,
     0x60, 0x51, 0x7F, 0xA9, 0x19, 0xB5, 0x4A, 0xD, 0x2D, 0xE5, 0x7A, 0x9F, 0x93, 0xC9, 0x9C, 0xEF,
     0xA0, 0xE0, 0x3B, 0x4D, 0xAE, 0x2A, 0xF5, 0xB0, 0xC8, 0xEB, 0xBB, 0x3C, 0x83, 0x53, 0x99, 0x61,
     0x17, 0x2B, 0x4, 0x7E, 0xBA, 0x77, 0xD6, 0x26, 0xE1, 0x69, 0x14, 0x63, 0x55, 0x21, 0xC, 0x7D]"

definition RCON :: "u8 list" where
  "RCON = [0x1, 0x2, 0x4, 0x8, 0x10, 0x20, 0x40, 0x80, 0x1B, 0x36]"

definition sbox :: "u8 \<Rightarrow> u8" where
  "sbox b = SBOX ! unat b"

definition gmul2 :: "u8 \<Rightarrow> u64" where
  "gmul2 x = (let hi = drop_bit 7 x in ucast (push_bit 1 x XOR hi * 0x1B))"

definition gmul3 :: "u8 \<Rightarrow> u64" where
  "gmul3 x = gmul2 x XOR ucast x"

definition key_word :: "u8 list \<Rightarrow> nat \<Rightarrow> u8 list" where
  "key_word rk i = (
     let temp = take 4 (drop ((i - 1) * 4) rk)
     in if i mod 8 = 0 then
          let temp = [temp ! 1, temp ! 2, temp ! 3, temp ! 0];
              temp = [sbox (temp ! 0), sbox (temp ! 1), sbox (temp ! 2), sbox (temp ! 3)]
          in temp[0 := temp ! 0 XOR RCON ! (i div 8 - 1)]
        else if i mod 8 = 4 then [sbox (temp ! 0), sbox (temp ! 1), sbox (temp ! 2), sbox (temp ! 3)]
        else temp)"

definition KeySchedule_new :: "u8 list \<Rightarrow> u8 list" where
  "KeySchedule_new key = fold (\<lambda>i rk.
       let temp = key_word rk i; base = i * 4; prev_base = (i - 8) * 4;
           rk = rk[base := rk ! prev_base XOR temp ! 0];
           rk = rk[base + 1 := rk ! (prev_base + 1) XOR temp ! 1];
           rk = rk[base + 2 := rk ! (prev_base + 2) XOR temp ! 2]
       in rk[base + 3 := rk ! (prev_base + 3) XOR temp ! 3])
     [8..<60] (key @ replicate (AES256_ROUND_KEYS * AES_BLOCK_SIZE - 32) 0)"

text \<open>A round beyond the last round key is a slice out of range.\<close>

definition round_key :: "u8 list \<Rightarrow> nat \<Rightarrow> u8 list option" where
  "round_key schedule r =
     (if (r + 1) * AES_BLOCK_SIZE \<le> length schedule then Some (take AES_BLOCK_SIZE (drop (r * AES_BLOCK_SIZE) schedule)) else None)"

definition sub_bytes :: "u8 list \<Rightarrow> u8 list" where
  "sub_bytes state = map sbox state"

definition swap :: "nat \<Rightarrow> nat \<Rightarrow> 'a list \<Rightarrow> 'a list" where
  "swap i j xs = xs[i := xs ! j, j := xs ! i]"

definition shift_rows :: "u8 list \<Rightarrow> u8 list" where
  "shift_rows state = (
     let tmp = state ! 1;
         state = state[1 := state ! 5];
         state = state[5 := state ! 9];
         state = state[9 := state ! 13];
         state = state[13 := tmp];
         state = swap 2 10 state;
         state = swap 6 14 state;
         tmp = state ! 15;
         state = state[15 := state ! 11];
         state = state[11 := state ! 7];
         state = state[7 := state ! 3]
     in state[3 := tmp])"

definition mix_column :: "nat \<Rightarrow> u8 list \<Rightarrow> u8 list" where
  "mix_column col state = (
     let base = col * 4; s0 = state ! base; s1 = state ! (base + 1); s2 = state ! (base + 2); s3 = state ! (base + 3);
         state = state[base := ucast (gmul2 s0 XOR gmul3 s1 XOR ucast s2 XOR ucast s3)];
         state = state[base + 1 := ucast (ucast s0 XOR gmul2 s1 XOR gmul3 s2 XOR ucast s3)];
         state = state[base + 2 := ucast (ucast s0 XOR ucast s1 XOR gmul2 s2 XOR gmul3 s3)]
     in state[base + 3 := ucast (gmul3 s0 XOR ucast s1 XOR ucast s2 XOR gmul2 s3)])"

definition mix_columns :: "u8 list \<Rightarrow> u8 list" where
  "mix_columns state = fold mix_column [0..<4] state"

definition add_round_key :: "u8 list \<Rightarrow> u8 list \<Rightarrow> u8 list" where
  "add_round_key state key = map (\<lambda>i. state ! i XOR key ! i) [0..<AES_BLOCK_SIZE]"

fun aes_rounds :: "u8 list \<Rightarrow> nat list \<Rightarrow> u8 list \<Rightarrow> u8 list option" where
  "aes_rounds schedule [] block = Some block"
| "aes_rounds schedule (r # rs) block = do {
     key \<leftarrow> round_key schedule r;
     aes_rounds schedule rs (add_round_key (mix_columns (shift_rows (sub_bytes block))) key)
   }"

definition aes256_encrypt_block :: "u8 list \<Rightarrow> u8 list \<Rightarrow> u8 list option" where
  "aes256_encrypt_block schedule block = do {
     key \<leftarrow> round_key schedule 0;
     block \<leftarrow> aes_rounds schedule [1..<AES256_ROUNDS] (add_round_key block key);
     key \<leftarrow> round_key schedule AES256_ROUNDS;
     Some (add_round_key (shift_rows (sub_bytes block)) key)
   }"

section \<open>The S-box\<close>

lemma sbox_table: "list_all (\<lambda>(b, s). INV_SBOX ! unat s = b) (zip (map word_of_int [0..255]) SBOX)"
  by code_simp

lemma inv_sbox: "INV_SBOX ! unat (sbox b) = b"
proof -
  have "unat b < 2 ^ LENGTH(8)" by (rule unsigned_less)
  then have n: "unat b < 256" by simp
  have "length SBOX = 256" by (simp add: SBOX_def)
  moreover have "[0..255] ! unat b = int (unat b)" using nth_upto [of 0 "unat b" 255] n by linarith
  ultimately have "(b, sbox b) \<in> set (zip (map word_of_int [0..255]) SBOX)"
    using n unfolding set_zip sbox_def by (intro CollectI exI [of _ "unat b"]) simp
  then show ?thesis using sbox_table unfolding list_all_iff by fastforce
qed

section \<open>The steps are injective\<close>

lemma length16: "length s = 16 \<longleftrightarrow> (\<exists>a0 a1 a2 a3 a4 a5 a6 a7 a8 a9 a10 a11 a12 a13 a14 a15.
    s = [a0, a1, a2, a3, a4, a5, a6, a7, a8, a9, a10, a11, a12, a13, a14, a15])"
  by (auto simp: length_Suc_conv numeral_eq_Suc)

lemma drop7_mult: "drop_bit 7 x * 0x1B = (if bit x 7 then 0x1B else (0 :: u8))"
proof -
  have "drop_bit 7 x = (if bit x 7 then 1 else (0 :: u8))"
  proof (rule bit_word_eqI)
    fix n show "bit (drop_bit 7 x) n = bit (if bit x 7 then 1 else (0 :: u8)) n"
      by (cases n) (auto simp: bit_simps bit_1_iff dest: bit_imp_le_length)
  qed
  then show ?thesis by simp
qed

lemma xor_cancel: "x XOR (x XOR y) = (y :: u8)"
  by (simp flip: xor.assoc)

lemma ucast_8_64: "ucast (ucast x :: u64) = (x :: u8)"
  by (rule bit_word_eqI) (simp add: bit_simps)

lemma ucast_xor8: "ucast (a XOR b :: u64) = (ucast a XOR ucast b :: u8)"
  by (rule bit_word_eqI) (simp add: bit_simps)

definition xtime :: "u8 \<Rightarrow> u8" where
  "xtime x = push_bit 1 x XOR drop_bit 7 x * 0x1B"

lemma xtime_xor: "xtime (x XOR y) = xtime x XOR xtime y"
  unfolding xtime_def drop7_mult bit_xor_iff push_bit_xor by (cases "bit x 7"; cases "bit y 7") (simp_all add: ac_simps)

lemma gmul_bytes: "ucast (gmul2 x) = xtime x" "ucast (gmul3 x) = xtime x XOR (x :: u8)"
  unfolding gmul2_def gmul3_def xtime_def Let_def ucast_xor8 ucast_8_64 by (rule refl)+

lemmas mix_simps = gmul_bytes ucast_xor8 ucast_8_64

definition mix4 :: "u8 \<times> u8 \<times> u8 \<times> u8 \<Rightarrow> u8 \<times> u8 \<times> u8 \<times> u8" where
  "mix4 = (\<lambda>(a, b, c, d). (xtime a XOR (xtime b XOR b) XOR c XOR d, a XOR xtime b XOR (xtime c XOR c) XOR d,
     a XOR b XOR xtime c XOR (xtime d XOR d), (xtime a XOR a) XOR b XOR c XOR xtime d))"

text \<open>The column map has order four, since it only needs linearity of doubling.\<close>

lemma mix4_order: "mix4 (mix4 (mix4 (mix4 (a, b, c, d)))) = (a, b, c, d)"
proof -
  have two: "mix4 (mix4 (a, b, c, d)) = (xtime (xtime a) XOR a XOR xtime (xtime c), xtime (xtime b) XOR b XOR xtime (xtime d),
      xtime (xtime c) XOR c XOR xtime (xtime a), xtime (xtime d) XOR d XOR xtime (xtime b))" for a b c d
    by (simp add: mix4_def xtime_xor xor.assoc xor.commute xor.left_commute xor_cancel)
  show ?thesis unfolding two by (simp add: xtime_xor xor.assoc xor.commute xor.left_commute xor_cancel)
qed

lemma mix4_inj: "inj mix4"
  by (rule inj_on_inverseI [where g = "mix4 \<circ> mix4 \<circ> mix4"]) (auto simp: mix4_order)

lemma mix_columns_list:
  "mix_columns [a0, a1, a2, a3, a4, a5, a6, a7, a8, a9, a10, a11, a12, a13, a14, a15] =
     (case (mix4 (a0, a1, a2, a3), mix4 (a4, a5, a6, a7), mix4 (a8, a9, a10, a11), mix4 (a12, a13, a14, a15)) of
       ((b0, b1, b2, b3), (b4, b5, b6, b7), (b8, b9, b10, b11), (b12, b13, b14, b15)) \<Rightarrow>
         [b0, b1, b2, b3, b4, b5, b6, b7, b8, b9, b10, b11, b12, b13, b14, b15])"
  by (simp add: mix_columns_def upt_conv_Cons mix_column_def mix4_def Let_def mix_simps)

lemma shift_rows_list:
  "shift_rows [a0, a1, a2, a3, a4, a5, a6, a7, a8, a9, a10, a11, a12, a13, a14, a15] =
     [a0, a5, a10, a15, a4, a9, a14, a3, a8, a13, a2, a7, a12, a1, a6, a11]"
  by (simp add: shift_rows_def swap_def Let_def)

definition blocks16 :: "u8 list set" where
  "blocks16 = {b. length b = 16}"

definition column :: "nat \<Rightarrow> u8 list \<Rightarrow> u8 \<times> u8 \<times> u8 \<times> u8" where
  "column i s = (s ! (4 * i), s ! (4 * i + 1), s ! (4 * i + 2), s ! (4 * i + 3))"

lemma column_mix:
  assumes "length s = 16" "i < 4"
  shows "column i (mix_columns s) = mix4 (column i s)"
proof -
  have "i \<in> {0, 1, 2, 3}" using assms(2) by auto
  then show ?thesis using assms(1) unfolding length16
    by (elim exE insertE emptyE) (simp_all add: mix_columns_list column_def split: prod.splits)
qed

lemma column_eq:
  assumes "length s = 16" "length t = 16" "\<And>i. i < 4 \<Longrightarrow> column i s = column i t"
  shows "s = t"
proof (rule nth_equalityI)
  show "length s = length t" using assms by simp
  fix k assume "k < length s"
  then have "k div 4 < 4" "k = 4 * (k div 4) + k mod 4" "k mod 4 \<in> {0, 1, 2, 3}" using assms(1) by auto
  then show "s ! k = t ! k" using assms(3) [of "k div 4"] unfolding column_def by (elim insertE emptyE) auto
qed

lemma length_aes_steps [simp]:
  "length (sub_bytes s) = length s" "length (shift_rows s) = length s" "length (mix_columns s) = length s" "length (add_round_key s k) = 16"
proof -
  have "length (fold mix_column cs s) = length s" for cs by (induction cs arbitrary: s) (simp_all add: mix_column_def Let_def)
  then show "length (mix_columns s) = length s" by (simp add: mix_columns_def)
qed (simp_all add: sub_bytes_def shift_rows_def swap_def add_round_key_def AES_BLOCK_SIZE_def Let_def)

lemma step_inj:
  "inj_on sub_bytes blocks16" "inj_on shift_rows blocks16" "inj_on mix_columns blocks16"
proof -
  have "inj sbox" by (rule inj_on_inverseI [where g = "\<lambda>y. INV_SBOX ! unat y"]) (simp add: inv_sbox)
  then show "inj_on sub_bytes blocks16" unfolding sub_bytes_def by (intro inj_onI) (auto simp: inj_map_eq_map)
  show "inj_on shift_rows blocks16"
  proof (rule inj_onI)
    fix s t assume "s \<in> blocks16" "t \<in> blocks16" "shift_rows s = shift_rows t"
    then show "s = t" unfolding blocks16_def mem_Collect_eq length16 by (elim exE) (simp add: shift_rows_list)
  qed
  show "inj_on mix_columns blocks16"
  proof (rule inj_onI)
    fix s t assume st: "s \<in> blocks16" "t \<in> blocks16" "mix_columns s = mix_columns t"
    then have len: "length s = 16" "length t = 16" by (simp_all add: blocks16_def)
    have "mix4 (column i s) = mix4 (column i t)" if "i < 4" for i
      using column_mix [OF len(1) that] column_mix [OF len(2) that] st(3) by simp
    then show "s = t" using column_eq [OF len] injD [OF mix4_inj] by blast
  qed
qed

section \<open>Encryption is a bijection of blocks\<close>

lemma add_round_key_inj: "inj_on (\<lambda>s. add_round_key s k) blocks16"
proof (rule inj_onI)
  fix s t assume "s \<in> blocks16" "t \<in> blocks16" and eq: "add_round_key s k = add_round_key t k"
  then have len: "length s = 16" "length t = 16" by (simp_all add: blocks16_def)
  have "s ! i = t ! i" if "i < 16" for i
  proof -
    have "s ! i XOR k ! i = t ! i XOR k ! i" using arg_cong [OF eq, of "\<lambda>l. l ! i"] that by (simp add: add_round_key_def AES_BLOCK_SIZE_def)
    then have "(s ! i XOR k ! i) XOR k ! i = (t ! i XOR k ! i) XOR k ! i" by (rule arg_cong)
    then show ?thesis by (simp add: xor.assoc)
  qed
  then show "s = t" using len by (intro nth_equalityI) simp_all
qed

text \<open>Injective maps of the blocks into the blocks; they compose.\<close>

definition endo :: "(u8 list \<Rightarrow> u8 list) \<Rightarrow> bool" where
  "endo f \<longleftrightarrow> inj_on f blocks16 \<and> f ` blocks16 \<subseteq> blocks16"

lemma endo_comp:
  assumes "endo f" "endo g"
  shows "endo (\<lambda>s. f (g s))"
proof -
  have "inj_on f (g ` blocks16)" using assms inj_on_subset unfolding endo_def by blast
  then have "inj_on (f \<circ> g) blocks16" using assms(2) comp_inj_on unfolding endo_def by blast
  moreover have "(f \<circ> g) ` blocks16 \<subseteq> blocks16" using assms unfolding endo_def image_comp [symmetric] by blast
  ultimately show ?thesis unfolding endo_def comp_def by blast
qed

lemma endo_steps: "endo sub_bytes" "endo shift_rows" "endo mix_columns" "endo (\<lambda>s. add_round_key s k)"
  using step_inj add_round_key_inj by (auto simp: endo_def blocks16_def)

lemma round_key_Some: "r < 15 \<Longrightarrow> length sch = 240 \<Longrightarrow> \<exists>k. round_key sch r = Some k"
  by (simp add: round_key_def AES_BLOCK_SIZE_def)

lemma aes_rounds_endo:
  assumes "length sch = 240" "\<forall>r\<in>set rs. r < 15"
  shows "\<exists>f. endo f \<and> (\<forall>b. aes_rounds sch rs b = Some (f b))"
  using assms(2)
proof (induction rs)
  case Nil
  then show ?case by (intro exI [of _ "\<lambda>s. s"]) (simp add: endo_def)
next
  case (Cons r rs)
  then obtain f where f: "endo f" "\<forall>b. aes_rounds sch rs b = Some (f b)" by auto
  obtain k where k: "round_key sch r = Some k" using round_key_Some [of r sch] Cons.prems assms(1) by auto
  let ?g = "\<lambda>s. f (add_round_key (mix_columns (shift_rows (sub_bytes s))) k)"
  have "endo ?g" by (rule endo_comp [OF f(1) endo_comp [OF endo_steps(4) endo_comp [OF endo_steps(3) endo_comp [OF endo_steps(2,1)]]]])
  moreover have "aes_rounds sch (r # rs) b = Some (?g b)" for b using f(2) k by simp
  ultimately show ?case by blast
qed

lemma length_KeySchedule:
  assumes "length key = 32"
  shows "length (KeySchedule_new key) = 240"
proof -
  have "length (fold (\<lambda>i rk. let temp = key_word rk i; base = i * 4; prev_base = (i - 8) * 4;
           rk = rk[base := rk ! prev_base XOR temp ! 0];
           rk = rk[base + 1 := rk ! (prev_base + 1) XOR temp ! 1];
           rk = rk[base + 2 := rk ! (prev_base + 2) XOR temp ! 2]
       in rk[base + 3 := rk ! (prev_base + 3) XOR temp ! 3]) js rk) = length rk" for js rk
    by (induction js arbitrary: rk) (simp_all add: Let_def)
  then show ?thesis unfolding KeySchedule_new_def
    using assms by (simp add: AES256_ROUND_KEYS_def AES256_ROUNDS_def AES_BLOCK_SIZE_def del: upt_rec_numeral)
qed

text \<open>What the modes rely on: under an expanded key encryption is total on blocks and injective.\<close>

lemma aes256_function:
  assumes "length key = 32"
  obtains E where "\<And>b. aes256_encrypt_block (KeySchedule_new key) b = Some (E b)" "endo E" "\<And>b. length (E b) = 16"
proof -
  let ?sch = "KeySchedule_new key"
  note len = length_KeySchedule [OF assms]
  obtain f where f: "endo f" "\<forall>b. aes_rounds ?sch [1..<AES256_ROUNDS] b = Some (f b)"
    using aes_rounds_endo [OF len, of "[1..<AES256_ROUNDS]"] by (auto simp: AES256_ROUNDS_def)
  obtain k0 kn where k: "round_key ?sch 0 = Some k0" "round_key ?sch AES256_ROUNDS = Some kn"
    using round_key_Some [of 0 ?sch] round_key_Some [of AES256_ROUNDS ?sch] len by (auto simp: AES256_ROUNDS_def)
  let ?E = "\<lambda>s. add_round_key (shift_rows (sub_bytes (f (add_round_key s k0)))) kn"
  have "endo ?E"
    by (rule endo_comp [OF endo_steps(4) endo_comp [OF endo_steps(2) endo_comp [OF endo_steps(1) endo_comp [OF f(1) endo_steps(4)]]]])
  moreover have "aes256_encrypt_block ?sch b = Some (?E b)" for b using f(2) k by (simp add: aes256_encrypt_block_def)
  ultimately show thesis using that [of ?E] by simp
qed

lemma finite_blocks16: "finite blocks16"
  unfolding blocks16_def using finite_lists_length_eq [of "UNIV :: u8 set" 16] by simp

text \<open>
  C25: under every 256-bit key the block encryption never panics and is a bijection of the
  sixteen-byte blocks, so no two blocks share a ciphertext and every block is one.
\<close>

theorem aes256_bijective:
  assumes "length key = 32"
  shows "\<exists>E. bij_betw E blocks16 blocks16 \<and> (\<forall>b. aes256_encrypt_block (KeySchedule_new key) b = Some (E b))"
proof -
  obtain E where E: "\<And>b. aes256_encrypt_block (KeySchedule_new key) b = Some (E b)" "endo E"
    using aes256_function [OF assms] by blast
  then have "bij_betw E blocks16 blocks16"
    using endo_inj_surj [OF finite_blocks16] unfolding endo_def bij_betw_def by blast
  then show ?thesis using E(1) by blast
qed

theorem aes256_bijective_witness:
  "\<exists>E. bij_betw E blocks16 blocks16 \<and> (\<forall>b. aes256_encrypt_block (KeySchedule_new (replicate 32 7)) b = Some (E b))"
  using aes256_bijective [of "replicate 32 7"] by simp

end
