(* ===== verification/Encodings.thy ===== *)
theory Encodings
  imports Bytes
begin

text \<open>
  The textual encodings of helper\_functions.rs: fixed-width and variable-length hex,
  decimal, and Base64 with and without padding, and the decimal helpers of argon2.rs.  A
  string is the list of its bytes; all delimiters are ASCII, so slicing by bytes is
  slicing by characters.  A failed index is the outer None, the None of the source is
  a value of the function.
\<close>

section \<open>Definitions\<close>

definition ascii :: "string \<Rightarrow> u8 list" where
  "ascii s = map of_char s"

definition HEX_CHARS_UPPER :: "u8 list" where
  "HEX_CHARS_UPPER = ascii ''0123456789ABCDEF''"

definition BASE64_CHARS :: "u8 list" where
  "BASE64_CHARS = ascii ''ABCDEFGHIJKLMNOPQRSTUVWXYZabcdefghijklmnopqrstuvwxyz0123456789+/''"

text \<open>The loop of the fixed-width conversions: n digits from index i downwards.\<close>

fun hex_loop :: "nat \<Rightarrow> nat \<Rightarrow> 'a::len word \<Rightarrow> u8 list \<Rightarrow> u8 list" where
  "hex_loop 0 i value buffer = buffer"
| "hex_loop (Suc n) i value buffer = hex_loop n (i - 1) (drop_bit 4 value) (buffer[i := HEX_CHARS_UPPER ! unat (value AND 0xF)])"

definition u64_to_hex_bytes :: "u64 \<Rightarrow> u8 list" where
  "u64_to_hex_bytes value = (hex_loop 16 (18 - 1) value (replicate 18 0x30))[0 := 0x30, 1 := 0x78]"

definition u32_to_hex_bytes :: "u32 \<Rightarrow> u8 list" where
  "u32_to_hex_bytes value = (hex_loop 8 (10 - 1) value (replicate 10 0x30))[0 := 0x30, 1 := 0x78]"

text \<open>The loop of the decimal conversions; an index below zero would panic.\<close>

function dec_loop :: "'a::len word \<Rightarrow> nat \<Rightarrow> u8 list \<Rightarrow> (nat \<times> u8 list) option" where
  "dec_loop value i buffer =
     (if value = 0 then Some (i, buffer)
      else if i = 0 then None
      else dec_loop (value div 10) (i - 1) (buffer[i - 1 := 0x30 + ucast (value mod 10)]))"
  by pat_completeness auto

termination
  by (relation "measure (\<lambda>(value, i, buffer). i)") auto

declare dec_loop.simps [simp del]

definition u32_to_dec_str :: "u32 \<Rightarrow> u8 list \<Rightarrow> u8 list option" where
  "u32_to_dec_str value buffer =
     (if value = 0 then Some (drop 9 (buffer[9 := 0x30]))
      else do { (i, buffer) \<leftarrow> dec_loop value 10 buffer; Some (drop i buffer) })"

definition u64_to_dec_str :: "u64 \<Rightarrow> u8 list \<Rightarrow> u8 list option" where
  "u64_to_dec_str value buffer =
     (if value = 0 then Some (drop 19 (buffer[19 := 0x30]))
      else do { (i, buffer) \<leftarrow> dec_loop value 20 buffer; Some (drop i buffer) })"

definition u32_to_alloc_string :: "u32 \<Rightarrow> u8 list option" where
  "u32_to_alloc_string v =
     (if v = 0 then Some (ascii ''0'')
      else do { (i, buf) \<leftarrow> dec_loop v 10 (replicate 10 0); Some (drop i buf) })"

definition checked_mul :: "u32 \<Rightarrow> u32 \<Rightarrow> u32 option" where
  "checked_mul a b = (if unat a * unat b < 2 ^ 32 then Some (a * b) else None)"

definition checked_add :: "u32 \<Rightarrow> u32 \<Rightarrow> u32 option" where
  "checked_add a b = (if unat a + unat b < 2 ^ 32 then Some (a + b) else None)"

fun parse_digits :: "u32 \<Rightarrow> u8 list \<Rightarrow> u32 option" where
  "parse_digits result [] = Some result"
| "parse_digits result (b # bs) =
     (if b < 0x30 \<or> b > 0x39 then None
      else do { r \<leftarrow> checked_mul result 10; r \<leftarrow> checked_add r (ucast (b - 0x30)); parse_digits r bs })"

definition parse_u32 :: "u8 list \<Rightarrow> u32 option" where
  "parse_u32 s = (if s = [] then None else parse_digits 0 s)"

definition bytes_to_hex :: "u8 list \<Rightarrow> u8 list" where
  "bytes_to_hex bytes = 0x30 # 0x78 #
     concat (map (\<lambda>byte. [HEX_CHARS_UPPER ! unat (drop_bit 4 byte), HEX_CHARS_UPPER ! unat (byte AND 0xF)]) bytes)"

definition hex_nibble :: "u8 \<Rightarrow> u8 option" where
  "hex_nibble byte =
     (if 0x30 \<le> byte \<and> byte \<le> 0x39 then Some (byte - 0x30)
      else if 0x61 \<le> byte \<and> byte \<le> 0x66 then Some (byte - 0x61 + 10)
      else if 0x41 \<le> byte \<and> byte \<le> 0x46 then Some (byte - 0x41 + 10)
      else None)"

text \<open>The loop over the digit pairs, which has an even number of digits left.\<close>

fun hex_pairs :: "u8 list \<Rightarrow> u8 list option" where
  "hex_pairs (h # l # rest) = do {
     high \<leftarrow> hex_nibble h;
     low \<leftarrow> hex_nibble l;
     bytes \<leftarrow> hex_pairs rest;
     Some ((push_bit 4 high OR low) # bytes)
   }"
| "hex_pairs _ = Some []"

definition hex_to_bytes :: "u8 list \<Rightarrow> u8 list option" where
  "hex_to_bytes hex = (
     let hex = (if take 2 hex = ascii ''0x'' \<or> take 2 hex = ascii ''0X'' then drop 2 hex else hex)
     in if hex = [] then None
        else if length hex mod 2 \<noteq> 0 then do {
          first \<leftarrow> hex_nibble (hex ! 0);
          bytes \<leftarrow> hex_pairs (drop 1 hex);
          Some (first # bytes)
        }
        else hex_pairs hex)"

definition base64_char :: "u32 \<Rightarrow> nat \<Rightarrow> u8" where
  "base64_char n k = BASE64_CHARS ! unat (drop_bit k n AND 0x3F)"

fun base64_encode_unpadded :: "u8 list \<Rightarrow> u8 list" where
  "base64_encode_unpadded (a # b # c # rest) = (
     let n = push_bit 16 (ucast a) OR push_bit 8 (ucast b) OR ucast c
     in base64_char n 18 # base64_char n 12 # base64_char n 6 # base64_char n 0 # base64_encode_unpadded rest)"
| "base64_encode_unpadded [a] = (let n = push_bit 16 (ucast a) in [base64_char n 18, base64_char n 12])"
| "base64_encode_unpadded [a, b] = (
     let n = push_bit 16 (ucast a) OR push_bit 8 (ucast b)
     in [base64_char n 18, base64_char n 12, base64_char n 6])"
| "base64_encode_unpadded [] = []"

definition base64_encode :: "u8 list \<Rightarrow> u8 list" where
  "base64_encode input = (
     let result = base64_encode_unpadded input; remainder = length result mod 4
     in if remainder \<noteq> 0 then result @ replicate (4 - remainder) 0x3D else result)"

definition base64_val :: "u8 \<Rightarrow> u8 option" where
  "base64_val byte =
     (if 0x41 \<le> byte \<and> byte \<le> 0x5A then Some (byte - 0x41)
      else if 0x61 \<le> byte \<and> byte \<le> 0x7A then Some (byte - 0x61 + 26)
      else if 0x30 \<le> byte \<and> byte \<le> 0x39 then Some (byte - 0x30 + 52)
      else if byte = 0x2B then Some 62
      else if byte = 0x2F then Some 63
      else None)"

definition trim_end_matches :: "'a \<Rightarrow> 'a list \<Rightarrow> 'a list" where
  "trim_end_matches c s = rev (dropWhile (\<lambda>x. x = c) (rev s))"

text \<open>The decoding loop over groups of four and the remaining one, two or three characters.\<close>

fun base64_groups :: "u8 list \<Rightarrow> u8 list option" where
  "base64_groups (x # y # z # w # rest) = do {
     a \<leftarrow> base64_val x; b \<leftarrow> base64_val y; c \<leftarrow> base64_val z; d \<leftarrow> base64_val w;
     let n = (push_bit 18 (ucast a) OR push_bit 12 (ucast b) OR push_bit 6 (ucast c) OR ucast d :: u32);
     bytes \<leftarrow> base64_groups rest;
     Some (ucast (drop_bit 16 n) # ucast (drop_bit 8 n) # ucast n # bytes)
   }"
| "base64_groups [x, y] = do {
     a \<leftarrow> base64_val x; b \<leftarrow> base64_val y;
     let n = (push_bit 18 (ucast a) OR push_bit 12 (ucast b) :: u32);
     Some [ucast (drop_bit 16 n)]
   }"
| "base64_groups [x, y, z] = do {
     a \<leftarrow> base64_val x; b \<leftarrow> base64_val y; c \<leftarrow> base64_val z;
     let n = (push_bit 18 (ucast a) OR push_bit 12 (ucast b) OR push_bit 6 (ucast c) :: u32);
     Some [ucast (drop_bit 16 n), ucast (drop_bit 8 n)]
   }"
| "base64_groups [x] = None"
| "base64_groups [] = Some []"

definition base64_decode :: "u8 list \<Rightarrow> u8 list option" where
  "base64_decode input = base64_groups (trim_end_matches 0x3D input)"

section \<open>Hex\<close>

lemma and_15: "w AND 0xF = take_bit 4 (w :: 'a::len word)"
  by (simp add: take_bit_eq_mask mask_eq_exp_minus_1)

lemma and_63: "w AND 0x3F = take_bit 6 (w :: 'a::len word)"
  by (simp add: take_bit_eq_mask mask_eq_exp_minus_1)

lemma hex_table: "list_all (\<lambda>i. hex_nibble (HEX_CHARS_UPPER ! i) = Some (of_nat i)) [0..<16]"
  by code_simp

lemma nibble_hex: "unat x < 16 \<Longrightarrow> hex_nibble (HEX_CHARS_UPPER ! unat x) = Some x"
  using hex_table by (simp add: list_all_iff del: upt_rec_numeral)

lemma unat_take_bit_less: "unat (take_bit n (w :: 'a::len word)) < 2 ^ n"
  by (simp add: unsigned_take_bit_eq)

lemma unat_nibbles: "unat (drop_bit 4 (b :: u8)) < 16" "unat (take_bit 4 (b :: u8)) < 16"
proof -
  have "unat b < 2 ^ LENGTH(8)" by (rule unsigned_less)
  then show "unat (drop_bit 4 b) < 16" by (simp add: drop_bit_eq_div unat_div)
  show "unat (take_bit 4 b) < 16" using unat_take_bit_less [of 4 b] by simp
qed

lemma join_nibbles: "push_bit 4 (drop_bit 4 b) OR take_bit 4 b = (b :: u8)"
  by (rule bit_word_eqI) (auto simp: bit_simps)

abbreviation hex_digits :: "u8 list \<Rightarrow> u8 list" where
  "hex_digits bytes \<equiv> concat (map (\<lambda>byte. [HEX_CHARS_UPPER ! unat (drop_bit 4 byte), HEX_CHARS_UPPER ! unat (byte AND 0xF)]) bytes)"

lemma hex_pairs_digits: "hex_pairs (hex_digits bytes) = Some bytes"
  by (induction bytes) (simp_all add: and_15 nibble_hex unat_nibbles join_nibbles)

lemma length_hex_digits: "length (hex_digits bytes) = 2 * length bytes"
  by (induction bytes) simp_all

lemma hex_decode_encode: "hex_to_bytes (bytes_to_hex bytes) = (if bytes = [] then None else Some bytes)"
proof -
  have "take 2 (bytes_to_hex bytes) = ascii ''0x''" "drop 2 (bytes_to_hex bytes) = hex_digits bytes"
    by (simp_all add: bytes_to_hex_def ascii_def)
  moreover have "hex_digits bytes = [] \<longleftrightarrow> bytes = []" by (cases bytes) simp_all
  ultimately show ?thesis
    using length_hex_digits [of bytes] hex_pairs_digits [of bytes] unfolding hex_to_bytes_def Let_def by simp
qed

text \<open>The fixed-width conversions are the variable-length one on the big-endian bytes.\<close>

lemma nibbles_of_word:
  "unat (drop_bit 4 (ucast w :: u8)) = unat (drop_bit 4 w AND 0xF)" "unat (ucast w AND 0xF :: u8) = unat (w AND 0xF)"
  for w :: "'a::len word"
  unfolding and_15 by (rule bit_eqI, auto simp: bit_simps)+

lemma to_be_Suc: "to_be (Suc n) w = to_be n (drop_bit 8 w) @ [ucast w]"
  by (simp add: to_be_def to_le_Suc)

lemma hex_loop_bytes:
  "length mid = 2 * n \<Longrightarrow>
   hex_loop (2 * n) (length pre + 2 * n - 1) v (pre @ mid @ post) = pre @ hex_digits (to_be n v) @ post"
proof (induction n arbitrary: v mid post)
  case 0
  then show ?case by (simp add: to_be_def to_le_def)
next
  case (Suc n)
  obtain m x where "mid = m @ [x]" "length m = Suc (2 * n)" using Suc.prems by (cases mid rule: rev_cases) auto
  then obtain m' y where mid: "mid = m' @ [y, x]" "length m' = 2 * n" by (cases m rule: rev_cases) auto
  let ?h = "HEX_CHARS_UPPER ! unat (drop_bit 4 v AND 0xF)" and ?l = "HEX_CHARS_UPPER ! unat (v AND 0xF)"
  have "hex_loop (2 * Suc n) (length pre + 2 * Suc n - 1) v (pre @ mid @ post)
      = hex_loop (2 * n) (length pre + 2 * n - 1) (drop_bit 8 v) (pre @ m' @ (?h # ?l # post))"
    using mid by (simp add: list_update_append add.assoc)
  also have "\<dots> = pre @ hex_digits (to_be n (drop_bit 8 v)) @ (?h # ?l # post)" using mid(2) by (rule Suc.IH)
  finally show ?case by (simp add: to_be_Suc nibbles_of_word)
qed

lemma hex_fixed:
  "(hex_loop (2 * n) (2 * n + 1) v (replicate (2 + 2 * n) 0x30))[0 := 0x30, 1 := 0x78] = bytes_to_hex (to_be n v)"
proof -
  have "replicate (2 + 2 * n) (0x30 :: u8) = [0x30, 0x30] @ replicate (2 * n) 0x30 @ []"
    by (simp add: numeral_2_eq_2)
  then show ?thesis using hex_loop_bytes [of "replicate (2 * n) 0x30" n "[0x30, 0x30]" v "[]"]
    by (simp add: bytes_to_hex_def)
qed

lemma u32_hex: "u32_to_hex_bytes v = bytes_to_hex (to_be 4 v)"
  using hex_fixed [of 4 v] by (simp add: u32_to_hex_bytes_def)

lemma u64_hex: "u64_to_hex_bytes v = bytes_to_hex (to_be 8 v)"
  using hex_fixed [of 8 v] by (simp add: u64_to_hex_bytes_def)

section \<open>Decimal\<close>

fun dec_digits :: "nat \<Rightarrow> u8 list" where
  "dec_digits n = (if n < 10 then [0x30 + of_nat n] else dec_digits (n div 10) @ [0x30 + of_nat (n mod 10)])"

declare dec_digits.simps [simp del]

lemma dec_digits_length: "n < 10 ^ i \<Longrightarrow> 0 < i \<Longrightarrow> length (dec_digits n) \<le> i \<and> dec_digits n \<noteq> []"
proof (induction i arbitrary: n)
  case (Suc i)
  show ?case
  proof (cases "n < 10")
    case False
    then have "0 < i" using Suc.prems(1) by (cases i) simp_all
    moreover have "n div 10 < 10 ^ i" using Suc.prems(1) by (simp add: less_mult_imp_div_less mult.commute)
    ultimately show ?thesis using Suc.IH [of "n div 10"] False by (subst (1 2) dec_digits.simps) simp
  qed (subst (1 2) dec_digits.simps, simp)
qed simp

lemma dec_loop_ok:
  fixes v :: "'a::len word"
  assumes "unat (10 :: 'a word) = 10"
  shows "v \<noteq> 0 \<Longrightarrow> unat v < 10 ^ i \<Longrightarrow> i \<le> length buf \<Longrightarrow> dec_loop v i buf =
    Some (i - length (dec_digits (unat v)), take (i - length (dec_digits (unat v))) buf @ dec_digits (unat v) @ drop i buf)"
proof (induction i arbitrary: v buf)
  case 0
  then show ?case by (simp add: unat_eq_0)
next
  case (Suc i)
  let ?d = "0x30 + ucast (v mod 10) :: u8"
  have u: "unat (v div 10) = unat v div 10" "unat (v mod 10) = unat v mod 10"
    using assms by (simp_all add: unat_div unat_mod)
  have d: "?d = 0x30 + of_nat (unat v mod 10)" unfolding u(2) [symmetric] by simp
  have step: "dec_loop v (Suc i) buf = dec_loop (v div 10) i (buf[i := ?d])" using Suc.prems(1) by (subst dec_loop.simps) simp
  have buf: "take i (buf[i := ?d]) = take i buf" "drop i (buf[i := ?d]) = ?d # drop (Suc i) buf"
    using Suc.prems(3) by (simp_all add: drop_update_cancel Cons_nth_drop_Suc [symmetric])
  show ?case
  proof (cases "unat v < 10")
    case True
    then have "v div 10 = 0" using u(1) by (simp add: unat_eq_0 [symmetric])
    moreover have "dec_digits (unat v) = [?d]" using True d by (subst dec_digits.simps) simp
    ultimately show ?thesis unfolding step using Suc.prems(3) by (subst dec_loop.simps) (simp add: upd_conv_take_nth_drop)
  next
    case False
    have "v div 10 \<noteq> 0" "unat (v div 10) < 10 ^ i" "i \<le> length (buf[i := ?d])"
      using False u(1) Suc.prems by (auto simp: unat_eq_0 [symmetric] less_mult_imp_div_less mult.commute simp del: unat_eq_0)
    note IH = Suc.IH [OF this]
    have ds: "dec_digits (unat v) = dec_digits (unat (v div 10)) @ [?d]" using False d u(1) by (subst dec_digits.simps) simp
    show ?thesis unfolding step IH ds using buf by (simp add: take_update_cancel)
  qed
qed

lemma dec_str:
  fixes v :: "'a::len word"
  assumes "unat (10 :: 'a word) = 10" "v \<noteq> 0" "unat v < 10 ^ length buf" "0 < length buf"
  shows "(do { (i, buf) \<leftarrow> dec_loop v (length buf) buf; Some (drop i buf) }) = Some (dec_digits (unat v))"
  using dec_loop_ok [OF assms(1-3)] dec_digits_length [OF assms(3,4)] by simp

lemma dec_digits_0: "dec_digits 0 = [0x30]"
  by (subst dec_digits.simps) simp

lemma drop_last_update: "length buf = Suc n \<Longrightarrow> drop n (buf[n := x]) = [x]"
  by (rule nth_equalityI) simp_all

lemma unat_u32_less: "unat (v :: u32) < 4294967296"
  using unsigned_less [of v] by simp

lemma unat_u64_less: "unat (v :: u64) < 18446744073709551616"
  using unsigned_less [of v] by simp

lemma u32_dec:
  "length buffer = 10 \<Longrightarrow> u32_to_dec_str v buffer = Some (dec_digits (unat v))"
  "u32_to_alloc_string v = Some (dec_digits (unat v))"
  using dec_str [of v buffer] dec_str [of v "replicate 10 0"] unat_u32_less [of v] drop_last_update [of buffer 9]
  by (simp_all add: u32_to_dec_str_def u32_to_alloc_string_def dec_digits_0 ascii_def)

lemma u64_dec: "length buffer = 20 \<Longrightarrow> u64_to_dec_str v buffer = Some (dec_digits (unat v))"
  using dec_str [of v buffer] unat_u64_less [of v] drop_last_update [of buffer 19]
  by (simp add: u64_to_dec_str_def dec_digits_0)

lemma parse_digits_append: "parse_digits r (xs @ ys) = (parse_digits r xs \<bind> (\<lambda>r. parse_digits r ys))"
  by (induction xs arbitrary: r) (simp_all split: Option.bind_split)

lemma parse_digit:
  assumes "unat r * 10 + d < 2 ^ 32" "d < 10"
  shows "parse_digits r [0x30 + of_nat d] = Some (r * 10 + of_nat d)"
proof -
  have u: "unat (of_nat d :: u8) = d" "unat (of_nat d :: u32) = d" using assms(2) by (simp_all add: unat_of_nat)
  then have "unat (0x30 + of_nat d :: u8) = 48 + d" using assms(2) by (simp add: unat_word_ariths)
  then have "\<not> (0x30 + of_nat d < (0x30 :: u8) \<or> 0x30 + of_nat d > (0x39 :: u8))" using assms(2) by (simp add: word_less_nat_alt)
  moreover have "0x30 + of_nat d - 0x30 = (of_nat d :: u8)" by simp
  moreover have "ucast (of_nat d :: u8) = (of_nat d :: u32)" using u(1) by (metis of_nat_unat)
  moreover have "unat (r * 10) = unat r * 10" using assms(1) by (simp add: unat_word_ariths)
  ultimately show ?thesis using assms(1) u(2) by (simp add: checked_mul_def checked_add_def)
qed

lemma parse_dec: "n < 2 ^ 32 \<Longrightarrow> parse_digits 0 (dec_digits n) = Some (of_nat n)"
proof (induction n rule: dec_digits.induct)
  case (1 n)
  show ?case
  proof (cases "n < 10")
    case True
    then show ?thesis using parse_digit [of 0 n] by (subst dec_digits.simps) simp
  next
    case False
    have u: "unat (of_nat (n div 10) :: u32) = n div 10" using 1(2) by (simp add: unat_of_nat)
    have "of_nat (n div 10 * 10 + n mod 10) = (of_nat (n div 10) * 10 + of_nat (n mod 10) :: u32)"
      unfolding of_nat_add of_nat_mult by simp
    then have "of_nat (n div 10) * 10 + of_nat (n mod 10) = (of_nat n :: u32)" unfolding div_mult_mod_eq by (rule sym)
    moreover have "parse_digits (of_nat (n div 10)) [0x30 + of_nat (n mod 10)] = Some (of_nat (n div 10) * 10 + of_nat (n mod 10))"
      using 1(2) by (intro parse_digit; simp only: u div_mult_mod_eq; simp)
    moreover have "parse_digits 0 (dec_digits (n div 10)) = Some (of_nat (n div 10))" using 1(1) [OF False] 1(2) by simp
    ultimately show ?thesis using False by (subst dec_digits.simps) (simp add: parse_digits_append)
  qed
qed

section \<open>Base64\<close>

lemma base64_table: "list_all (\<lambda>i. base64_val (BASE64_CHARS ! i) = Some (of_nat i)) [0..<64]"
  by code_simp

lemma base64_val_char: "base64_val (base64_char n k) = Some (ucast (take_bit 6 (drop_bit k n)))"
proof -
  have "unat (take_bit 6 (drop_bit k n)) < 64" using unat_take_bit_less [of 6 "drop_bit k n"] by simp
  then show ?thesis using base64_table by (simp add: list_all_iff base64_char_def and_63 del: upt_rec_numeral)
qed

abbreviation sextet :: "nat \<Rightarrow> u32 \<Rightarrow> u32" where
  "sextet k n \<equiv> push_bit k (ucast (ucast (take_bit 6 (drop_bit k n)) :: u8))"

lemma join_sextets:
  "sextet 18 n OR sextet 12 n OR sextet 6 n OR ucast (ucast (take_bit 6 n) :: u8) = take_bit 24 n"
  "sextet 18 n OR sextet 12 n OR sextet 6 n = push_bit 6 (take_bit 18 (drop_bit 6 n))"
  "sextet 18 n OR sextet 12 n = push_bit 12 (take_bit 12 (drop_bit 12 n))"
proof -
  show "sextet 18 n OR sextet 12 n OR sextet 6 n OR ucast (ucast (take_bit 6 n) :: u8) = take_bit 24 n"
    by (rule bit_word_eqI, rename_tac k, case_tac "k < 6"; case_tac "k < 12"; case_tac "k < 18"; auto simp: bit_simps)
  show "sextet 18 n OR sextet 12 n OR sextet 6 n = push_bit 6 (take_bit 18 (drop_bit 6 n))"
    by (rule bit_word_eqI, rename_tac k, case_tac "k < 6"; case_tac "k < 12"; case_tac "k < 18"; auto simp: bit_simps)
  show "sextet 18 n OR sextet 12 n = push_bit 12 (take_bit 12 (drop_bit 12 n))"
    by (rule bit_word_eqI, rename_tac k, case_tac "k < 12"; case_tac "k < 18"; auto simp: bit_simps)
qed

abbreviation triple :: "u8 \<Rightarrow> u8 \<Rightarrow> u8 \<Rightarrow> u32" where
  "triple a b c \<equiv> push_bit 16 (ucast a) OR push_bit 8 (ucast b) OR ucast c"

lemma triple_bytes:
  "ucast (drop_bit 16 (take_bit 24 (triple a b c))) = a"
  "ucast (drop_bit 8 (take_bit 24 (triple a b c))) = b"
  "ucast (take_bit 24 (triple a b c)) = c"
  "ucast (drop_bit 16 (push_bit 6 (take_bit 18 (drop_bit 6 (push_bit 16 (ucast a) OR push_bit 8 (ucast b) :: u32))))) = a"
  "ucast (drop_bit 8 (push_bit 6 (take_bit 18 (drop_bit 6 (push_bit 16 (ucast a) OR push_bit 8 (ucast b) :: u32))))) = b"
  "ucast (drop_bit 16 (push_bit 12 (take_bit 12 (drop_bit 12 (push_bit 16 (ucast a) :: u32))))) = a"
  by (rule bit_word_eqI; auto simp: bit_simps dest: bit_imp_le_length)+

lemma base64_groups_encode: "base64_groups (base64_encode_unpadded bytes) = Some bytes"
  by (induction bytes rule: base64_encode_unpadded.induct)
    (simp_all only: base64_encode_unpadded.simps base64_groups.simps Let_def base64_val_char join_sextets triple_bytes
      Option.bind.simps drop_bit_0 id_apply)

lemma encoded_chars: "c \<in> set (base64_encode_unpadded bytes) \<Longrightarrow> c \<noteq> 0x3D"
proof -
  have "base64_char n k \<noteq> 0x3D" for n k
  proof
    assume "base64_char n k = 0x3D"
    then have "base64_val 0x3D = Some (ucast (take_bit 6 (drop_bit k n)))" using base64_val_char [of n k] by simp
    then show False by (simp add: base64_val_def)
  qed
  then show "c \<in> set (base64_encode_unpadded bytes) \<Longrightarrow> c \<noteq> 0x3D"
    by (induction bytes rule: base64_encode_unpadded.induct) (auto simp: Let_def)
qed

lemma trim_padding: "c \<notin> set s \<Longrightarrow> trim_end_matches c (s @ replicate k c) = s"
proof -
  assume "c \<notin> set s"
  then have "dropWhile (\<lambda>x. x = c) (rev s) = rev s" by (cases "rev s") (auto dest: arg_cong [where f = set])
  moreover have "dropWhile (\<lambda>x. x = c) (replicate k c @ rev s) = dropWhile (\<lambda>x. x = c) (rev s)"
    by (rule dropWhile_append2) simp
  ultimately show ?thesis by (simp add: trim_end_matches_def)
qed

lemma base64_decode_padded: "base64_decode (base64_encode_unpadded bytes @ replicate k 0x3D) = Some bytes"
  using trim_padding [of "0x3D" "base64_encode_unpadded bytes" k] encoded_chars base64_groups_encode
  unfolding base64_decode_def by metis

lemma base64_padded: "\<exists>k. base64_encode bytes = base64_encode_unpadded bytes @ replicate k 0x3D \<and> k < 4"
  unfolding base64_encode_def Let_def by (auto intro: exI [of _ 0])

section \<open>The round trips\<close>

text \<open>
  C0: What base64_encode and base64_encode_unpadded produce, base64_decode reads back, for
  every byte string; the padded form has a length divisible by four.  The decoder drops any
  number of trailing padding characters, so it also accepts an encoding followed by k of
  them for every k.
\<close>

theorem base64_round_trip:
  "base64_decode (base64_encode bytes) = Some bytes
   \<and> base64_decode (base64_encode_unpadded bytes) = Some bytes
   \<and> length (base64_encode bytes) mod 4 = 0
   \<and> base64_decode (base64_encode_unpadded bytes @ replicate k 0x3D) = Some bytes"
proof -
  obtain j where "base64_encode bytes = base64_encode_unpadded bytes @ replicate j 0x3D" using base64_padded by blast
  then have "base64_decode (base64_encode bytes) = Some bytes" by (simp only: base64_decode_padded)
  moreover have "base64_decode (base64_encode_unpadded bytes) = Some bytes" using base64_decode_padded [of bytes 0] by simp
  moreover have "length (base64_encode bytes) mod 4 = 0" unfolding base64_encode_def Let_def by (simp add: mod_eq_0_iff_dvd) presburger
  ultimately show ?thesis using base64_decode_padded by blast
qed

text \<open>
  C0: The hex and decimal conversions lose nothing.  Decoding the variable-length hex form
  gives the bytes back, and None for the empty string, whose encoding is the bare prefix;
  the fixed-width forms decode to the big-endian bytes of the number.  The decimal
  conversions never run past the front of their buffer whatever it held, and the decimal
  form of every u32 parses back to it.
\<close>

theorem text_round_trips:
  "hex_to_bytes (bytes_to_hex bytes) = (if bytes = [] then None else Some bytes)
   \<and> hex_to_bytes (u64_to_hex_bytes v) = Some (to_be 8 v)
   \<and> hex_to_bytes (u32_to_hex_bytes w) = Some (to_be 4 w)
   \<and> (\<exists>s. u32_to_alloc_string w = Some s \<and> parse_u32 s = Some w)
   \<and> u32_to_dec_str w (replicate 10 x) = u32_to_alloc_string w
   \<and> (\<exists>s. u64_to_dec_str v (replicate 20 x) = Some s)"
proof -
  have "unat w < 2 ^ 32" using unat_u32_less [of w] by simp
  then have "parse_digits 0 (dec_digits (unat w)) = Some w" using parse_dec [of "unat w"] by simp
  moreover have "dec_digits (unat w) \<noteq> []" using dec_digits_length [of "unat w" 10] unat_u32_less [of w] by simp
  ultimately have "parse_u32 (dec_digits (unat w)) = Some w" by (simp add: parse_u32_def)
  moreover have "to_be 8 v \<noteq> []" "to_be 4 w \<noteq> []" using length_to_be [of 8 v] length_to_be [of 4 w] by fastforce+
  ultimately show ?thesis by (simp add: hex_decode_encode u64_hex u32_hex u32_dec u64_dec)
qed

end
