(* ===== verification/Spec2Isabelle.thy ===== *)
theory Spec2Isabelle
  imports Kernel_Steps Heap_Properties Process_Manager Hashes Sha3 Blake2b Aes Encodings
begin

text \<open>
  A verification library of crap-os: the task scheduler, its queues, the context
  switcher, task construction, per-CPU storage and the timer interrupt.
\<close>

end
